(* ===== verification/Net_Prelude.thy ===== *)
theory Net_Prelude
  imports Complex_Main "HOL-Library.Word" "HOL-Library.Multiset" "HOL-Library.Code_Target_Numeral"
begin

text \<open>
  Shared vocabulary of the development: the types that stand for the scalar types of the Rust
  code, the wrap-around arithmetic of the release profile, results with errors, generic facts on
  lists and maps, and the transition-system interface that the network's step relation provides.

  Times. \<^verbatim>\<open>std::time::Duration\<close> and \<^verbatim>\<open>tokio::time::Instant\<close> are natural numbers of
  nanoseconds (an instant counts from an arbitrary epoch). Every duration of the program comes
  from a \<^verbatim>\<open>u64\<close> of milliseconds, so no sum the code forms reaches the range limit of
  \<^verbatim>\<open>Duration\<close> (\<open>2^64\<close> seconds) or of \<^verbatim>\<open>Instant\<close>.

  Sizes and counters. \<^verbatim>\<open>usize\<close> and \<^verbatim>\<open>u64\<close> values are natural numbers; where the code adds,
  subtracts or multiplies them the model writes the wrap-around of the release build out with the
  operations below.
\<close>

type_synonym duration = nat
type_synonym instant = nat
type_synonym uuid = "128 word"
type_synonym id = string
type_synonym f64 = rat

named_theorems wrap_simps \<open>the machine arithmetic of the release build\<close>
named_theorems step_inv \<open>facts that an operation keeps an invariant\<close>

definition millis :: "nat \<Rightarrow> duration" where
  "millis ms = ms * 1000000"

subsection \<open>Machine arithmetic of 64-bit unsigned integers\<close>

definition u64_max :: nat where
  "u64_max = 2 ^ 64 - 1"

definition wrap64 :: "nat \<Rightarrow> nat" where
  "wrap64 n = n mod 2 ^ 64"

definition add64 :: "nat \<Rightarrow> nat \<Rightarrow> nat" where
  "add64 a b = wrap64 (a + b)"

definition sub64 :: "nat \<Rightarrow> nat \<Rightarrow> nat" where
  "sub64 a b = (if b \<le> a then a - b else wrap64 (2 ^ 64 + a - b))"

definition mul64 :: "nat \<Rightarrow> nat \<Rightarrow> nat" where
  "mul64 a b = wrap64 (a * b)"

definition saturating_mul64 :: "nat \<Rightarrow> nat \<Rightarrow> nat" where
  "saturating_mul64 a b = min (a * b) u64_max"

lemma wrap64_id [wrap_simps]: "n < 2 ^ 64 \<Longrightarrow> wrap64 n = n"
  by (simp add: wrap64_def)

lemma wrap64_less [simp]: "wrap64 n < 2 ^ 64"
  by (simp add: wrap64_def)

lemma wrap64_le [simp]: "wrap64 n \<le> n"
  by (simp add: wrap64_def)

lemma add64_id [wrap_simps]: "a + b < 2 ^ 64 \<Longrightarrow> add64 a b = a + b"
  by (simp add: add64_def wrap_simps)

lemma add64_le: "add64 a b \<le> a + b"
  by (simp add: add64_def)

lemma sub64_id [wrap_simps]: "b \<le> a \<Longrightarrow> sub64 a b = a - b"
  by (simp add: sub64_def)

lemma mul64_id [wrap_simps]: "a * b < 2 ^ 64 \<Longrightarrow> mul64 a b = a * b"
  by (simp add: mul64_def wrap_simps)

lemma saturating_mul64_id [wrap_simps]: "a * b < 2 ^ 64 \<Longrightarrow> saturating_mul64 a b = a * b"
  by (simp add: saturating_mul64_def u64_max_def)

lemma sub64_add64 [wrap_simps]:
  "a < 2 ^ 64 \<Longrightarrow> b \<le> a \<Longrightarrow> add64 (sub64 a b) b = a"
  by (simp add: wrap_simps)

subsection \<open>Results\<close>

text \<open>\<^verbatim>\<open>Result<T, E>\<close> is a sum with the error on the left; \<open>bind_ok\<close> is the \<^verbatim>\<open>?\<close> operator.\<close>

definition bind_ok :: "'e + 'a \<Rightarrow> ('a \<Rightarrow> 'e + 'b) \<Rightarrow> 'e + 'b" where
  "bind_ok r f = (case r of Inl e \<Rightarrow> Inl e | Inr x \<Rightarrow> f x)"

lemma bind_ok_simps [simp]:
  "bind_ok (Inl e) f = Inl e"
  "bind_ok (Inr x) f = f x"
  by (simp_all add: bind_ok_def)

lemma bind_ok_Inr_iff: "bind_ok r f = Inr y \<longleftrightarrow> (\<exists>x. r = Inr x \<and> f x = Inr y)"
  by (cases r) simp_all

fun fold_ok :: "('s \<Rightarrow> 'a \<Rightarrow> 'e + 's) \<Rightarrow> 's \<Rightarrow> 'a list \<Rightarrow> 'e + 's" where
  "fold_ok f s [] = Inr s"
| "fold_ok f s (x # xs) = bind_ok (f s x) (\<lambda>s'. fold_ok f s' xs)"

lemma fold_ok_append:
  "fold_ok f s (xs @ ys) = bind_ok (fold_ok f s xs) (\<lambda>s'. fold_ok f s' ys)"
proof (induction xs arbitrary: s)
  case (Cons x xs)
  then show ?case by (cases "f s x") simp_all
qed simp

lemma fold_ok_invariant:
  assumes "fold_ok f s xs = Inr s'" and "P s"
    and "\<And>s x s'. x \<in> set xs \<Longrightarrow> P s \<Longrightarrow> f s x = Inr s' \<Longrightarrow> P s'"
  shows "P s'"
  using assms
proof (induction xs arbitrary: s)
  case (Cons x xs)
  then obtain t where "f s x = Inr t" and "fold_ok f t xs = Inr s'"
    by (auto simp: bind_ok_Inr_iff)
  moreover have "P t"
    using Cons.prems(2) \<open>f s x = Inr t\<close> by (rule Cons.prems(3) [rotated]) simp
  ultimately show ?case
    using Cons.prems(3) by (intro Cons.IH [of t]) auto
qed simp

subsection \<open>Lists\<close>

lemma sum_list_filter_split:
  "sum_list (map f xs) = sum_list (map f (filter P xs)) + sum_list (map f (filter (\<lambda>x. \<not> P x) xs))"
  for f :: "'a \<Rightarrow> nat"
  by (induction xs) auto

lemma sorted_snoc: "sorted (xs @ [x]) \<longleftrightarrow> sorted xs \<and> (\<forall>y \<in> set xs. y \<le> x)"
  by (simp add: sorted_append)

lemma nth_list_update_if: "k < length xs \<Longrightarrow> xs[l := x] ! k = (if k = l then x else xs ! k)"
  by (cases "k = l") simp_all

subsection \<open>Tables of indices\<close>

text \<open>A map whose values are indices of a list of \<open>k\<close> elements.\<close>

definition in_bounds :: "('k \<rightharpoonup> nat) \<Rightarrow> nat \<Rightarrow> bool" where
  "in_bounds m k \<longleftrightarrow> (\<forall>x i. m x = Some i \<longrightarrow> i < k)"

lemma in_bounds_ran: "in_bounds m k \<Longrightarrow> ran m \<subseteq> {..<k}"
  by (auto simp: in_bounds_def ran_def)

lemma in_bounds_empty [simp]: "in_bounds Map.empty k"
  by (simp add: in_bounds_def)

lemma in_bounds_upd [intro]: "in_bounds m k \<Longrightarrow> k \<le> k' \<Longrightarrow> i < k' \<Longrightarrow> in_bounds (m(x \<mapsto> i)) k'"
  unfolding in_bounds_def by (metis map_upd_Some_unfold order_less_le_trans)

lemma in_bounds_mono: "in_bounds m k \<Longrightarrow> k \<le> k' \<Longrightarrow> in_bounds m k'"
  unfolding in_bounds_def by (meson order_less_le_trans)

lemma in_boundsD: "in_bounds m k \<Longrightarrow> m x = Some i \<Longrightarrow> i < k"
  by (simp add: in_bounds_def)

subsection \<open>Transition systems\<close>

text \<open>
  The asynchronous tasks of the simulator interleave at their await points. A component that is
  driven this way offers its initial states and its labelled steps; the invariants of every
  schedule follow by rule induction on the reachable states.
\<close>

locale transition_system =
  fixes initial :: "'s \<Rightarrow> bool"
    and step :: "'s \<Rightarrow> 'l \<Rightarrow> 's \<Rightarrow> bool"
begin

inductive reach :: "'s \<Rightarrow> bool" where
  reach_initial: "initial s \<Longrightarrow> reach s"
| reach_step: "reach s \<Longrightarrow> step s l t \<Longrightarrow> reach t"

inductive path :: "'s \<Rightarrow> 'l list \<Rightarrow> 's \<Rightarrow> bool" where
  path_nil: "path s [] s"
| path_snoc: "path s ls t \<Longrightarrow> step t l u \<Longrightarrow> path s (ls @ [l]) u"

lemma reach_invariant:
  assumes "reach s" and "\<And>s. initial s \<Longrightarrow> I s"
    and "\<And>s l t. reach s \<Longrightarrow> I s \<Longrightarrow> step s l t \<Longrightarrow> I t"
  shows "I s"
  using assms(1) by (induction rule: reach.induct) (auto intro: assms(2,3))

lemma path_reach: "path s ls t \<Longrightarrow> reach s \<Longrightarrow> reach t"
  by (induction rule: path.induct) (auto intro: reach_step)

lemma path_invariant:
  assumes "path s ls t" and "I s" and "\<And>s l t. I s \<Longrightarrow> step s l t \<Longrightarrow> I t"
  shows "I t"
  using assms(1,2) by (induction rule: path.induct) (auto intro: assms(3))

end

end
