(* ===== verification/Outbound_Buffer.thy ===== *)
theory Outbound_Buffer
  imports Net_Prelude
begin

text \<open>
  The byte budget of a node, \<^verbatim>\<open>in-memory-network/src/network/outbound_buffer.rs\<close>. The lock around
  the counter makes each operation atomic, so an operation is a function on the counter. The
  locale states the accounting contract the nodes and links rely on.
\<close>

record outbound_buffer =
  available_capacity_bytes :: nat

definition outbound_buffer_new :: "nat \<Rightarrow> outbound_buffer" where
  "outbound_buffer_new capacity_bytes = \<lparr>available_capacity_bytes = capacity_bytes\<rparr>"

definition reserve :: "outbound_buffer \<Rightarrow> nat \<Rightarrow> bool \<times> outbound_buffer" where
  "reserve b data_size =
     (if available_capacity_bytes b < data_size then (False, b)
      else (True, b\<lparr>available_capacity_bytes := sub64 (available_capacity_bytes b) data_size\<rparr>))"

definition release :: "outbound_buffer \<Rightarrow> nat \<Rightarrow> outbound_buffer" where
  "release b data_size =
     b\<lparr>available_capacity_bytes := add64 (available_capacity_bytes b) data_size\<rparr>"

section \<open>The accounting contract\<close>

locale capacity_buffer =
  fixes create :: "nat \<Rightarrow> 'b"
    and take_space :: "'b \<Rightarrow> nat \<Rightarrow> bool \<times> 'b"
    and give_back :: "'b \<Rightarrow> nat \<Rightarrow> 'b"
    and available :: "'b \<Rightarrow> nat"
  assumes available_create: "available (create c) = c"
    and take_space_iff: "fst (take_space b n) \<longleftrightarrow> n \<le> available b"
    and available_take_space:
      "available (snd (take_space b n)) = (if n \<le> available b then available b - n else available b)"
    and available_give_back:
      "available b + n < 2 ^ 64 \<Longrightarrow> available (give_back b n) = available b + n"
begin

text \<open>\<open>held\<close> bytes of a capacity of \<open>cap\<close> are in use, and nothing is lost or made up.\<close>

definition accounts :: "nat \<Rightarrow> nat \<Rightarrow> 'b \<Rightarrow> bool" where
  "accounts cap held b \<longleftrightarrow> available b + held = cap \<and> cap < 2 ^ 64"

lemma accounts_create: "cap < 2 ^ 64 \<Longrightarrow> accounts cap 0 (create cap)"
  by (simp add: accounts_def available_create)

lemma accounts_take_space:
  "accounts cap held b \<Longrightarrow> fst (take_space b n) \<Longrightarrow> accounts cap (held + n) (snd (take_space b n))"
  by (auto simp: accounts_def take_space_iff available_take_space)

lemma accounts_refused:
  "accounts cap held b \<Longrightarrow> \<not> fst (take_space b n) \<Longrightarrow>
    cap < held + n \<and> accounts cap held (snd (take_space b n))"
  by (auto simp: accounts_def take_space_iff available_take_space)

lemma accounts_give_back: "accounts cap (held + n) b \<Longrightarrow> accounts cap held (give_back b n)"
  by (auto simp: accounts_def available_give_back)

lemma accounts_bound: "accounts cap held b \<Longrightarrow> held \<le> cap \<and> available b \<le> cap"
  by (auto simp: accounts_def)

lemma take_then_give_back:
  assumes "accounts cap held b" and "fst (take_space b n)"
  shows "available (give_back (snd (take_space b n)) n) = available b"
  using assms by (simp add: accounts_def take_space_iff available_take_space available_give_back)

end

interpretation ob: capacity_buffer outbound_buffer_new reserve release available_capacity_bytes
  by unfold_locales
    (auto simp: outbound_buffer_new_def reserve_def release_def wrap_simps)

end
