(* ===== verification/Ip_Route.thy ===== *)
theory Ip_Route
  imports Net_Prelude
begin

text \<open>
  Addresses, CIDR blocks and routes: \<^verbatim>\<open>in-memory-network/src/network/ip.rs\<close> and
  \<^verbatim>\<open>route.rs\<close>. The first part models what these files use of the standard library (the text
  parser and printer of \<^verbatim>\<open>IpAddr\<close>, \<^verbatim>\<open>str::split\<close> and the \<^verbatim>\<open>u8\<close> parser), the second the code
  itself. The lemmas show that a printed block parses back, which texts are refused and why, and
  that the range of a block holds exactly the addresses that share its network prefix.
\<close>

unbundle bit_operations_syntax

section \<open>Addresses\<close>

datatype ip_addr = V4 "32 word" | V6 "128 word"

text \<open>The derived order of \<^verbatim>\<open>std::net::IpAddr\<close>: every IPv4 address is below every IPv6 address.\<close>

instantiation ip_addr :: linorder
begin

fun less_eq_ip_addr :: "ip_addr \<Rightarrow> ip_addr \<Rightarrow> bool" where
  "V4 a \<le> V4 b = (a \<le> b)"
| "V4 a \<le> V6 b = True"
| "V6 a \<le> V4 b = False"
| "V6 a \<le> V6 b = (a \<le> b)"

definition less_ip_addr :: "ip_addr \<Rightarrow> ip_addr \<Rightarrow> bool" where
  "less_ip_addr a b \<longleftrightarrow> a \<le> b \<and> \<not> b \<le> a"

instance
proof
  fix x y z :: ip_addr
  show "x < y \<longleftrightarrow> x \<le> y \<and> \<not> y \<le> x" by (simp add: less_ip_addr_def)
  show "x \<le> x" by (cases x) simp_all
  show "x \<le> y \<Longrightarrow> y \<le> z \<Longrightarrow> x \<le> z" by (cases x; cases y; cases z) auto
  show "x \<le> y \<Longrightarrow> y \<le> x \<Longrightarrow> x = y" by (cases x; cases y) auto
  show "x \<le> y \<or> y \<le> x" by (cases x; cases y) auto
qed

end

definition is_ipv4 :: "ip_addr \<Rightarrow> bool" where
  "is_ipv4 a = (case a of V4 _ \<Rightarrow> True | V6 _ \<Rightarrow> False)"

record socket_addr =
  sa_ip :: ip_addr
  sa_port :: nat

section \<open>The text parser of the standard library\<close>

definition to_digit :: "nat \<Rightarrow> char \<Rightarrow> nat option" where
  "to_digit radix c =
     (let n = of_char c;
          d = (if 48 \<le> n \<and> n \<le> 57 then n - 48
               else if 97 \<le> n \<and> n \<le> 122 then n - 87
               else if 65 \<le> n \<and> n \<le> 90 then n - 55 else 36)
      in if d < radix then Some d else None)"

definition is_digit :: "nat \<Rightarrow> char \<Rightarrow> bool" where
  "is_digit radix c \<longleftrightarrow> to_digit radix c \<noteq> None"

definition digits_value :: "nat \<Rightarrow> nat \<Rightarrow> string \<Rightarrow> nat" where
  "digits_value radix = foldl (\<lambda>r c. r * radix + (case to_digit radix c of Some d \<Rightarrow> d | None \<Rightarrow> 0))"

text \<open>\<^verbatim>\<open>Parser::read_number\<close>: all leading digits, at most \<open>max_digits\<close> of them.\<close>

definition read_number :: "nat \<Rightarrow> nat \<Rightarrow> bool \<Rightarrow> nat \<Rightarrow> string \<Rightarrow> (nat \<times> string) option" where
  "read_number radix max_digits allow_zero_prefix limit s =
     (let ds = takeWhile (is_digit radix) s;
          rest = dropWhile (is_digit radix) s;
          n = digits_value radix 0 ds
      in if length ds = 0 \<or> max_digits < length ds then None
         else if \<not> allow_zero_prefix \<and> hd ds = CHR ''0'' \<and> 1 < length ds then None
         else if limit \<le> n then None
         else Some (n, rest))"

definition read_given_char :: "char \<Rightarrow> string \<Rightarrow> string option" where
  "read_given_char c s = (case s of [] \<Rightarrow> None | x # xs \<Rightarrow> if x = c then Some xs else None)"

definition read_separator ::
  "char \<Rightarrow> nat \<Rightarrow> (string \<Rightarrow> ('a \<times> string) option) \<Rightarrow> string \<Rightarrow> ('a \<times> string) option" where
  "read_separator sep index inner s =
     (if 0 < index then Option.bind (read_given_char sep s) inner else inner s)"

definition read_octet :: "string \<Rightarrow> (nat \<times> string) option" where
  "read_octet = read_number 10 3 False 256"

definition ipv4_of_octets :: "nat \<Rightarrow> nat \<Rightarrow> nat \<Rightarrow> nat \<Rightarrow> 32 word" where
  "ipv4_of_octets a b c d = word_of_nat (((a * 256 + b) * 256 + c) * 256 + d)"

definition read_ipv4_addr :: "string \<Rightarrow> (32 word \<times> string) option" where
  "read_ipv4_addr s =
     Option.bind (read_separator CHR ''.'' 0 read_octet s) (\<lambda>(a, s1).
     Option.bind (read_separator CHR ''.'' 1 read_octet s1) (\<lambda>(b, s2).
     Option.bind (read_separator CHR ''.'' 2 read_octet s2) (\<lambda>(c, s3).
     Option.bind (read_separator CHR ''.'' 3 read_octet s3) (\<lambda>(d, s4).
       Some (ipv4_of_octets a b c d, s4)))))"

fun read_groups :: "nat \<Rightarrow> nat \<Rightarrow> string \<Rightarrow> nat list \<times> bool \<times> string" where
  "read_groups 0 i s = ([], False, s)"
| "read_groups (Suc r) i s =
     (case (if 0 < r then read_separator CHR '':'' i read_ipv4_addr s else None) of
        Some (v4, rest) \<Rightarrow> ([unat (drop_bit 16 v4), unat (take_bit 16 v4)], True, rest)
      | None \<Rightarrow>
          (case read_separator CHR '':'' i (read_number 16 4 True (2 ^ 16)) s of
             Some (g, rest) \<Rightarrow>
               (case read_groups r (Suc i) rest of (gs, v4, rest') \<Rightarrow> (g # gs, v4, rest'))
           | None \<Rightarrow> ([], False, s)))"

definition ipv6_of_groups :: "nat list \<Rightarrow> 128 word" where
  "ipv6_of_groups gs = word_of_nat (foldl (\<lambda>r g. r * 2 ^ 16 + g) 0 gs)"

definition read_ipv6_addr :: "string \<Rightarrow> (128 word \<times> string) option" where
  "read_ipv6_addr s =
     (case read_groups 8 0 s of (head, head_ipv4, rest) \<Rightarrow>
        if length head = 8 then Some (ipv6_of_groups head, rest)
        else if head_ipv4 then None
        else Option.bind (read_given_char CHR '':'' rest) (\<lambda>s1.
             Option.bind (read_given_char CHR '':'' s1) (\<lambda>s2.
               case read_groups (8 - (length head + 1)) 0 s2 of (tail, _, rest') \<Rightarrow>
                 Some (ipv6_of_groups
                   (head @ replicate (8 - length head - length tail) 0 @ tail), rest'))))"

definition ip_addr_from_str :: "string \<Rightarrow> ip_addr option" where
  "ip_addr_from_str s =
     (case read_ipv4_addr s of
        Some (a, rest) \<Rightarrow> if rest = [] then Some (V4 a) else None
      | None \<Rightarrow> (case read_ipv6_addr s of
          Some (a, rest) \<Rightarrow> if rest = [] then Some (V6 a) else None
        | None \<Rightarrow> None))"

text \<open>\<^verbatim>\<open>u8::from_str\<close>: an optional plus sign and decimal digits, at most 255.\<close>

definition u8_from_str :: "string \<Rightarrow> nat option" where
  "u8_from_str s =
     (let ds = (case s of c # cs \<Rightarrow> if c = CHR ''+'' then cs else s | [] \<Rightarrow> s)
      in if ds = [] \<or> \<not> list_all (is_digit 10) ds then None
         else if 255 < digits_value 10 0 ds then None
         else Some (digits_value 10 0 ds))"

fun split_on :: "char \<Rightarrow> string \<Rightarrow> string list" where
  "split_on c [] = [[]]"
| "split_on c (x # xs) =
     (if x = c then [] # split_on c xs
      else (case split_on c xs of [] \<Rightarrow> [[x]] | p # ps \<Rightarrow> (x # p) # ps))"

fun dec_string :: "nat \<Rightarrow> string" where
  "dec_string n = (if n < 10 then [char_of (48 + n)] else dec_string (n div 10) @ [char_of (48 + n mod 10)])"

declare dec_string.simps [simp del]

definition octet :: "nat \<Rightarrow> 32 word \<Rightarrow> nat" where
  "octet k a = unat a div 256 ^ k mod 256"

definition ipv4_to_string :: "32 word \<Rightarrow> string" where
  "ipv4_to_string a =
     dec_string (octet 3 a) @ ''.'' @ dec_string (octet 2 a) @ ''.'' @
     dec_string (octet 1 a) @ ''.'' @ dec_string (octet 0 a)"

section \<open>CIDR blocks\<close>

record ipv4_cidr =
  address :: "32 word"
  network_prefix :: nat

definition as_ip_addr :: "ipv4_cidr \<Rightarrow> ip_addr" where
  "as_ip_addr c = V4 (address c)"

definition cidr_fmt :: "ipv4_cidr \<Rightarrow> string" where
  "cidr_fmt c = ipv4_to_string (address c) @ ''/'' @ dec_string (network_prefix c)"

datatype cidr_error =
    InvalidIpAddress
  | OnlyIpv4Supported
  | InvalidNetworkPrefix
  | NetworkPrefixZero
  | NetworkPrefixTooHigh
  | TrailingCharacters

definition cidr_from_str :: "string \<Rightarrow> cidr_error + ipv4_cidr" where
  "cidr_from_str s =
     (let parts = split_on CHR ''/'' s
      in case ip_addr_from_str (hd parts) of
           None \<Rightarrow> Inl InvalidIpAddress
         | Some (V6 _) \<Rightarrow> Inl OnlyIpv4Supported
         | Some (V4 base_ip) \<Rightarrow>
             (case u8_from_str (case tl parts of [] \<Rightarrow> ''32'' | p # _ \<Rightarrow> p) of
                None \<Rightarrow> Inl InvalidNetworkPrefix
              | Some prefix \<Rightarrow>
                  if prefix = 0 then Inl NetworkPrefixZero
                  else if 32 < prefix then Inl NetworkPrefixTooHigh
                  else if 2 < length parts then Inl TrailingCharacters
                  else Inr \<lparr>address = base_ip, network_prefix = prefix\<rparr>))"

section \<open>Ranges and routes\<close>

record ip_range =
  range_start :: ip_addr
  end_inclusive :: ip_addr

text \<open>
  \<^verbatim>\<open>u32::MAX << (32 - prefix)\<close>. The subtraction is one of \<^verbatim>\<open>u8\<close> and the shift amount is taken
  modulo 32, as in the release build; the parser admits prefixes from 1 to 32 only.
\<close>

definition cidr_mask :: "nat \<Rightarrow> 32 word" where
  "cidr_mask prefix = push_bit ((256 + 32 - prefix) mod 256 mod 32) (- 1)"

definition from_cidr :: "ipv4_cidr \<Rightarrow> ip_range" where
  "from_cidr addr =
     (let base_ip_bits = address addr; mask = cidr_mask (network_prefix addr)
      in \<lparr>range_start = V4 (base_ip_bits AND mask),
          end_inclusive = V4 (base_ip_bits OR NOT mask)\<rparr>)"

definition range_from_str :: "string \<Rightarrow> cidr_error + ip_range" where
  "range_from_str s = bind_ok (cidr_from_str s) (\<lambda>addr. Inr (from_cidr addr))"

definition range_contains :: "ip_range \<Rightarrow> ip_addr \<Rightarrow> bool" where
  "range_contains r ip \<longleftrightarrow> range_start r \<le> ip \<and> ip \<le> end_inclusive r"

record route =
  destination :: ip_range
  next_hop :: ip_addr
  cost :: nat

definition next_hop_towards_destination :: "route \<Rightarrow> ip_addr \<Rightarrow> ip_addr option" where
  "next_hop_towards_destination r ip =
     (if range_contains (destination r) ip then Some (next_hop r) else None)"

section \<open>Printing and parsing\<close>

lemma to_digit_dec_char: "d < 10 \<Longrightarrow> to_digit 10 (char_of (48 + d :: nat)) = Some d"
  by (simp add: to_digit_def Let_def)

lemma dec_string_digits: "c \<in> set (dec_string n) \<Longrightarrow> is_digit 10 c"
proof (induction n rule: dec_string.induct)
  case (1 n)
  then show ?case
    by (cases "n < 10") (auto simp: dec_string.simps [of n] to_digit_dec_char is_digit_def)
qed

lemma dec_string_nonempty [simp]: "dec_string n \<noteq> []"
  by (subst dec_string.simps) simp

lemma digits_value_snoc:
  "digits_value r k (cs @ [c]) = digits_value r k cs * r + (case to_digit r c of Some d \<Rightarrow> d | None \<Rightarrow> 0)"
  by (simp add: digits_value_def)

lemma digits_value_dec_string: "digits_value 10 0 (dec_string n) = n"
proof (induction n rule: dec_string.induct)
  case (1 n)
  show ?case
  proof (cases "n < 10")
    case True
    then show ?thesis
      by (simp add: dec_string.simps [of n] digits_value_def to_digit_dec_char)
  next
    case False
    with "1.IH" show ?thesis
      by (simp add: dec_string.simps [of n] digits_value_snoc to_digit_dec_char)
  qed
qed

lemma hd_dec_string: "10 \<le> n \<Longrightarrow> hd (dec_string n) \<noteq> CHR ''0''"
proof (induction n rule: dec_string.induct)
  case (1 n)
  show ?case
  proof (cases "n div 10 < 10")
    case True
    then have "1 \<le> n div 10" using "1.prems" by simp
    then have "(of_char (char_of (48 + n div 10 :: nat)) :: nat) \<noteq> of_char CHR ''0''"
      using True by simp
    then have "char_of (48 + n div 10) \<noteq> CHR ''0''" by metis
    with True "1.prems" show ?thesis
      by (simp add: dec_string.simps [of n] dec_string.simps [of "n div 10"])
  next
    case False
    with "1.IH" "1.prems" have "hd (dec_string (n div 10)) \<noteq> CHR ''0''" by simp
    with "1.prems" show ?thesis by (simp add: dec_string.simps [of n])
  qed
qed

lemma length_dec_string: "n < 1000 \<Longrightarrow> length (dec_string n) \<le> 3"
  by (simp add: dec_string.simps [of n] dec_string.simps [of "n div 10"]
      dec_string.simps [of "n div 10 div 10"])

lemma length_dec_string_small: "1 < length (dec_string n) \<Longrightarrow> 10 \<le> n"
  by (simp add: dec_string.simps [of n] split: if_splits)

lemma takeWhile_dec_string:
  assumes "rest = [] \<or> \<not> is_digit 10 (hd rest)"
  shows "takeWhile (is_digit 10) (dec_string n @ rest) = dec_string n"
    and "dropWhile (is_digit 10) (dec_string n @ rest) = rest"
proof -
  have "\<And>c. c \<in> set (dec_string n) \<Longrightarrow> is_digit 10 c" by (rule dec_string_digits)
  moreover have "takeWhile (is_digit 10) rest = []"
    and "dropWhile (is_digit 10) rest = rest"
    using assms by (cases rest; simp)+
  ultimately show "takeWhile (is_digit 10) (dec_string n @ rest) = dec_string n"
    and "dropWhile (is_digit 10) (dec_string n @ rest) = rest"
    by (simp_all add: takeWhile_append2 dropWhile_append2)
qed

lemma read_octet_dec_string:
  assumes "n < 256" and "rest = [] \<or> \<not> is_digit 10 (hd rest)"
  shows "read_octet (dec_string n @ rest) = Some (n, rest)"
proof -
  have "length (dec_string n) \<le> 3" using assms(1) by (intro length_dec_string) simp
  then show ?thesis
    using assms(1) hd_dec_string [OF length_dec_string_small [of n]]
    by (auto simp: read_octet_def read_number_def Let_def takeWhile_dec_string [OF assms(2)]
        digits_value_dec_string)
qed

lemma is_digit_separators [simp]:
  "\<not> is_digit 10 CHR ''.''" "\<not> is_digit 10 CHR ''/''"
  by (simp_all add: is_digit_def to_digit_def)

lemma octet_less [simp]: "octet k a < 256"
  by (simp add: octet_def)

lemma ipv4_of_octets_octet: "ipv4_of_octets (octet 3 a) (octet 2 a) (octet (Suc 0) a) (octet 0 a) = a"
proof -
  let ?n = "unat a"
  define m1 m2 m3 where m: "m1 = ?n div 256" "m2 = m1 div 256" "m3 = m2 div 256"
  have "?n < 2 ^ 32" using unsigned_less [of a] by simp
  then have m3: "m3 < 256" by (simp add: m div_mult2_eq [symmetric])
  have "?n div 256 ^ 2 = m2" "?n div 256 ^ 3 = m3" by (simp_all add: m div_mult2_eq [symmetric])
  then have "octet 3 a = m3" "octet 2 a = m2 mod 256" "octet (Suc 0) a = m1 mod 256"
    "octet 0 a = ?n mod 256"
    using m3 by (simp_all add: octet_def m(1))
  then have "((octet 3 a * 256 + octet 2 a) * 256 + octet (Suc 0) a) * 256 + octet 0 a = ?n"
    by (simp only: m div_mult_mod_eq)
  then show ?thesis by (simp add: ipv4_of_octets_def)
qed

lemma read_ipv4_addr_to_string:
  assumes "rest = [] \<or> \<not> is_digit 10 (hd rest)"
  shows "read_ipv4_addr (ipv4_to_string a @ rest) = Some (a, rest)"
  using assms
  by (simp add: read_ipv4_addr_def ipv4_to_string_def read_separator_def read_given_char_def
      read_octet_dec_string ipv4_of_octets_octet)

lemma split_on_no_sep: "c \<notin> set s \<Longrightarrow> split_on c s = [s]"
  by (induction s) auto

lemma split_on_append: "c \<notin> set s \<Longrightarrow> split_on c (s @ c # t) = s # split_on c t"
  by (induction s) auto

lemma slash_notin_dec_string: "CHR ''/'' \<notin> set (dec_string n)"
  using dec_string_digits by fastforce

lemma slash_notin_ipv4: "CHR ''/'' \<notin> set (ipv4_to_string a)"
  by (simp add: ipv4_to_string_def slash_notin_dec_string)

lemma u8_from_str_dec_string_iff: "u8_from_str (dec_string n) = (if 255 < n then None else Some n)"
proof -
  obtain c cs where d: "dec_string n = c # cs" by (cases "dec_string n") auto
  have "c \<noteq> CHR ''+''" using dec_string_digits [of c n] d by (auto simp: is_digit_def to_digit_def)
  moreover have "list_all (is_digit 10) (dec_string n)"
    by (auto simp: list_all_iff dec_string_digits)
  ultimately show ?thesis
    using d digits_value_dec_string [of n] by (simp add: u8_from_str_def)
qed

lemma cidr_from_str_parts:
  "cidr_from_str (ipv4_to_string a @ CHR ''/'' # dec_string n) =
     (if 255 < n then Inl InvalidNetworkPrefix
      else if n = 0 then Inl NetworkPrefixZero
      else if 32 < n then Inl NetworkPrefixTooHigh
      else Inr \<lparr>address = a, network_prefix = n\<rparr>)"
proof -
  have "ip_addr_from_str (ipv4_to_string a) = Some (V4 a)"
    using read_ipv4_addr_to_string [of "[]" a] by (simp add: ip_addr_from_str_def)
  then show ?thesis
    by (simp add: cidr_from_str_def split_on_append slash_notin_ipv4
        split_on_no_sep slash_notin_dec_string u8_from_str_dec_string_iff)
qed

lemma cidr_from_str_valid:
  "cidr_from_str s = Inr c \<Longrightarrow> 1 \<le> network_prefix c \<and> network_prefix c \<le> 32"
  by (auto simp: cidr_from_str_def Let_def split: option.splits ip_addr.splits if_splits)

text \<open>
  C20. Every address with every decimal prefix parses to a block or to the error the code documents:
  a prefix that does not fit a byte, a prefix of zero, a prefix above 32.
\<close>

theorem cidr_from_str_prefix:
  "cidr_from_str (ipv4_to_string a @ ''/'' @ dec_string n) =
     (if 255 < n then Inl InvalidNetworkPrefix
      else if n = 0 then Inl NetworkPrefixZero
      else if 32 < n then Inl NetworkPrefixTooHigh
      else Inr \<lparr>address = a, network_prefix = n\<rparr>)"
  using cidr_from_str_parts by simp

text \<open>
  C19. Whatever text a block was parsed from, printing the block and parsing the result gives the
  same block back.
\<close>

theorem cidr_print_parse:
  assumes "cidr_from_str s = Inr c"
  shows "cidr_from_str (cidr_fmt c) = Inr c"
  using cidr_from_str_valid [OF assms] by (simp add: cidr_fmt_def cidr_from_str_parts)

theorem cidr_print_parse_witness:
  "cidr_from_str ''1.2.3.4'' = Inr \<lparr>address = 16909060, network_prefix = 32\<rparr> \<and>
   cidr_from_str (cidr_fmt \<lparr>address = 16909060, network_prefix = 32\<rparr>) =
     Inr \<lparr>address = 16909060, network_prefix = 32\<rparr>"
proof -
  have p: "cidr_from_str ''1.2.3.4'' = Inr \<lparr>address = 16909060, network_prefix = 32\<rparr>" by code_simp
  with cidr_print_parse [OF p] show ?thesis by blast
qed

section \<open>The range of a block\<close>

lemma unat_and_not_mask: "unat (a AND NOT (mask k)) = unat a div 2 ^ k * 2 ^ k"
  for a :: "32 word"
proof -
  have "a AND NOT (mask k) = a - take_bit k a"
    by (subst disjunctive_diff_eq_and_not) (simp_all add: bit_eq_iff bit_simps, blast)
  moreover have t: "unat (take_bit k a) = unat a mod 2 ^ k"
    by (subst unsigned_take_bit_eq) (rule take_bit_eq_mod)
  moreover from t have "take_bit k a \<le> a" by (simp add: word_le_nat_alt)
  ultimately have "unat (a AND NOT (mask k)) = unat a - unat a mod 2 ^ k"
    by (simp add: unat_sub)
  then show ?thesis by (simp add: minus_mod_eq_div_mult)
qed

lemma unat_or_mask:
  fixes a :: "32 word"
  assumes "k < 32"
  shows "unat (a OR mask k) = unat a div 2 ^ k * 2 ^ k + (2 ^ k - 1)"
proof -
  have "a OR mask k = (a AND NOT (mask k)) + mask k"
    by (subst disjunctive_add_eq_or) (simp_all add: bit_eq_iff bit_simps, blast)
  moreover have "unat a div 2 ^ k * 2 ^ k + (2 ^ k - 1) < 2 ^ 32"
  proof -
    have "unat a < 2 ^ 32" using unsigned_less [of a] by simp
    also have "(2::nat) ^ 32 = 2 ^ (32 - k) * 2 ^ k" using assms by (simp flip: power_add)
    finally have "unat a div 2 ^ k < 2 ^ (32 - k)" by (simp add: less_mult_imp_div_less)
    then have "(unat a div 2 ^ k + 1) * 2 ^ k \<le> 2 ^ (32 - k) * 2 ^ k" by (intro mult_right_mono) auto
    then show ?thesis using assms by (simp flip: power_add add: algebra_simps)
  qed
  moreover have "unat (mask k :: 32 word) = 2 ^ k - 1"
  proof -
    have "(mask k :: 32 word) = word_of_nat (2 ^ k - 1)"
      by (simp add: mask_eq_exp_minus_1 flip: of_nat_mask_eq)
    moreover have "(2::nat) ^ k \<le> 2 ^ 32" using assms by (intro power_increasing) auto
    then have "((2::nat) ^ k - 1) mod 2 ^ LENGTH(32) = 2 ^ k - 1"
      by (intro mod_less) (simp add: Suc_le_eq [symmetric])
    ultimately show ?thesis by (simp only: unat_of_nat)
  qed
  ultimately show ?thesis
    by (simp add: unat_and_not_mask unat_add_lem [THEN iffD1])
qed

lemma cidr_mask_eq:
  "1 \<le> p \<Longrightarrow> p \<le> 32 \<Longrightarrow> cidr_mask p = NOT (mask (32 - p))"
proof -
  assume p: "1 \<le> p" "p \<le> 32"
  then have "256 + 32 - p = (32 - p) + 256" by simp
  then have "(256 + 32 - p) mod 256 = 32 - p" using p by (simp only: mod_add_self2) simp
  then show ?thesis using p by (simp add: cidr_mask_def)
qed

lemma between_multiples_iff:
  "(n::nat) div d * d \<le> m \<and> m \<le> n div d * d + (d - 1) \<longleftrightarrow> m div d = n div d" if "0 < d"
proof
  assume "n div d * d \<le> m \<and> m \<le> n div d * d + (d - 1)"
  with that show "m div d = n div d"
    by (intro div_nat_eqI) (auto simp: algebra_simps)
next
  assume "m div d = n div d"
  moreover have "m div d * d \<le> m" "m < m div d * d + d"
    using that by (simp_all add: dividend_less_div_times add.commute)
  ultimately show "n div d * d \<le> m \<and> m \<le> n div d * d + (d - 1)" using that by simp
qed

lemma from_cidr_contains_V4:
  assumes "1 \<le> network_prefix c" and "network_prefix c \<le> 32"
  shows "range_contains (from_cidr c) (V4 a) \<longleftrightarrow>
    drop_bit (32 - network_prefix c) a = drop_bit (32 - network_prefix c) (address c)"
proof -
  let ?k = "32 - network_prefix c"
  have k: "?k < 32" using assms by simp
  have drop: "unat (drop_bit ?k b) = unat b div 2 ^ ?k" for b :: "32 word"
    by (subst unat_drop_bit_eq) (rule drop_bit_eq_div)
  have "range_contains (from_cidr c) (V4 a) \<longleftrightarrow>
      unat (address c) div 2 ^ ?k * 2 ^ ?k \<le> unat a \<and>
      unat a \<le> unat (address c) div 2 ^ ?k * 2 ^ ?k + (2 ^ ?k - 1)"
    using k by (simp add: range_contains_def from_cidr_def Let_def cidr_mask_eq [OF assms]
        word_le_nat_alt unat_and_not_mask unat_or_mask)
  also have "\<dots> \<longleftrightarrow> unat a div 2 ^ ?k = unat (address c) div 2 ^ ?k"
    by (rule between_multiples_iff) simp
  also have "\<dots> \<longleftrightarrow> drop_bit ?k a = drop_bit ?k (address c)"
    by (simp only: word_unat_eq_iff drop)
  finally show ?thesis .
qed

lemma from_cidr_not_V6: "\<not> range_contains (from_cidr c) (V6 a)"
  by (simp add: range_contains_def from_cidr_def Let_def)

text \<open>
  C18. The range of a block holds exactly the IPv4 addresses that agree with the block's address on
  the bits of the network prefix.
\<close>

theorem from_cidr_contains:
  assumes "1 \<le> network_prefix c" and "network_prefix c \<le> 32"
  shows "range_contains (from_cidr c) ip \<longleftrightarrow>
    (\<exists>a. ip = V4 a \<and> drop_bit (32 - network_prefix c) a = drop_bit (32 - network_prefix c) (address c))"
  using from_cidr_contains_V4 [OF assms] from_cidr_not_V6 by (cases ip) auto

theorem from_cidr_contains_witness:
  "range_contains (from_cidr \<lparr>address = 258, network_prefix = 24\<rparr>) (V4 511) \<and>
   \<not> range_contains (from_cidr \<lparr>address = 258, network_prefix = 24\<rparr>) (V4 512)"
proof -
  have "drop_bit 8 (511 :: 32 word) = drop_bit 8 258" "drop_bit 8 (512 :: 32 word) \<noteq> drop_bit 8 258"
    by (simp_all add: drop_bit_eq_div)
  then show ?thesis
    using from_cidr_contains [of "\<lparr>address = 258, network_prefix = 24\<rparr>"] by simp
qed

text \<open>The bounds of a block by arithmetic, for evaluation.\<close>

lemma from_cidr_code [code]:
  "from_cidr c =
     (let p = network_prefix c; d = 2 ^ (32 - p); lo = unat (address c) div d * d; mask = cidr_mask p
      in if 1 \<le> p \<and> p \<le> 32
         then \<lparr>range_start = V4 (of_nat lo), end_inclusive = V4 (of_nat (lo + (d - 1)))\<rparr>
         else \<lparr>range_start = V4 (address c AND mask), end_inclusive = V4 (address c OR NOT mask)\<rparr>)"
proof (cases "1 \<le> network_prefix c \<and> network_prefix c \<le> 32")
  case True
  let ?k = "32 - network_prefix c"
  have w: "of_nat (unat w) = w" for w :: "32 word" by simp
  have "address c AND NOT (mask ?k) = of_nat (unat (address c) div 2 ^ ?k * 2 ^ ?k)"
    using w [of "address c AND NOT (mask ?k)"] by (simp only: unat_and_not_mask)
  moreover have "address c OR mask ?k = of_nat (unat (address c) div 2 ^ ?k * 2 ^ ?k + (2 ^ ?k - 1))"
    using w [of "address c OR mask ?k"] unat_or_mask [of ?k "address c"] True by simp
  ultimately show ?thesis using True by (simp add: from_cidr_def cidr_mask_eq Let_def)
next
  case False
  then show ?thesis unfolding from_cidr_def Let_def by (simp only: if_False)
qed

end
