(* ===== verification/Net_Spec.thy ===== *)
theory Net_Spec
  imports Ip_Route
begin

text \<open>
  The static description of a simulation: the network graph
  (\<^verbatim>\<open>in-memory-network/src/network/spec.rs\<close>), the network events and the statuses derived from
  them (\<^verbatim>\<open>network/event.rs\<close>), and the datagrams that travel
  (\<^verbatim>\<open>in-memory-network/src/transmit.rs\<close>, \<^verbatim>\<open>lib.rs\<close>). The lemmas characterise the initial
  statuses: one per link and per node, the opposite of the first status the events give.
\<close>

section \<open>The network graph\<close>

datatype node_kind = Host | Router

record network_interface =
  ni_addresses :: "ipv4_cidr list"
  ni_routes :: "route list"

record network_node_spec =
  ns_id :: id
  ns_buffer_size_bytes :: nat
  ns_kind :: node_kind
  ns_interfaces :: "network_interface list"
  ns_packet_loss_ratio :: f64
  ns_packet_duplication_ratio :: f64

record network_link_spec =
  ls_id :: id
  ls_source :: ip_addr
  ls_target :: ip_addr
  ls_delay :: duration
  ls_bandwidth_bps :: nat
  ls_congestion_event_ratio :: f64
  ls_extra_delay :: duration
  ls_extra_delay_ratio :: f64

record network_spec =
  spec_nodes :: "network_node_spec list"
  spec_links :: "network_link_spec list"

definition spec_addresses :: "network_node_spec \<Rightarrow> ip_addr list" where
  "spec_addresses n = concat (map (\<lambda>i. map as_ip_addr (ni_addresses i)) (ns_interfaces n))"

section \<open>Datagrams\<close>

text \<open>\<^verbatim>\<open>quinn::udp::EcnCodepoint\<close>, with the bits of the IP header.\<close>

datatype ecn_codepoint = Ect0 | Ect1 | Ce

fun ecn_bits :: "ecn_codepoint \<Rightarrow> nat" where
  "ecn_bits Ect0 = 2"
| "ecn_bits Ect1 = 1"
| "ecn_bits Ce = 3"

record owned_transmit =
  tx_destination :: socket_addr
  tx_ecn :: "ecn_codepoint option"
  tx_contents :: "8 word list"
  tx_segment_size :: "nat option"

definition udp_overhead :: nat where "udp_overhead = 8"
definition ipv4_overhead :: nat where "ipv4_overhead = 20"
definition ipv6_overhead :: nat where "ipv6_overhead = 40"

definition packet_size :: "owned_transmit \<Rightarrow> nat" where
  "packet_size t =
     (let ip_overhead = if is_ipv4 (sa_ip (tx_destination t)) then ipv4_overhead else ipv6_overhead
      in udp_overhead + ip_overhead + length (tx_contents t))"

definition host_port :: nat where "host_port = 8080"

text \<open>Of the shared source endpoint only the address is ever read.\<close>

record in_transit_data =
  pkt_id :: uuid
  pkt_duplicate :: bool
  pkt_source_endpoint :: socket_addr
  pkt_source_id :: id
  pkt_transmit :: owned_transmit
  pkt_number :: nat

abbreviation pkt_size :: "in_transit_data \<Rightarrow> nat" where
  "pkt_size d \<equiv> packet_size (pkt_transmit d)"

section \<open>Network events\<close>

datatype update_node_status = NodeUp | NodeDown
datatype update_link_status = LinkUp | LinkDown

record node_event_payload =
  nep_node_id :: id
  nep_status :: "update_node_status option"
  nep_clear_buffer :: bool

record link_event_payload =
  lep_link_id :: id
  lep_status :: "update_link_status option"
  lep_bandwidth_bps :: "nat option"
  lep_delay :: "duration option"
  lep_extra_delay :: "duration option"
  lep_extra_delay_ratio :: "f64 option"
  lep_packet_duplication_ratio :: "f64 option"
  lep_packet_loss_ratio :: "f64 option"
  lep_congestion_event_ratio :: "f64 option"

datatype network_event_kind = LinkEvent link_event_payload | NodeEvent node_event_payload

record network_event =
  ev_relative_time :: duration
  ev_kind :: network_event_kind

record network_events =
  sorted_events :: "network_event list"
  initial_link_events :: "link_event_payload list"
  initial_node_events :: "node_event_payload list"

definition link_status_payload :: "id \<Rightarrow> update_link_status \<Rightarrow> link_event_payload" where
  "link_status_payload l s =
     \<lparr>lep_link_id = l, lep_status = Some s, lep_bandwidth_bps = None, lep_delay = None,
      lep_extra_delay = None, lep_extra_delay_ratio = None, lep_packet_duplication_ratio = None,
      lep_packet_loss_ratio = None, lep_congestion_event_ratio = None\<rparr>"

definition node_status_payload :: "id \<Rightarrow> update_node_status \<Rightarrow> node_event_payload" where
  "node_status_payload n s = \<lparr>nep_node_id = n, nep_status = Some s, nep_clear_buffer = False\<rparr>"

fun opposite_link_status :: "update_link_status \<Rightarrow> update_link_status" where
  "opposite_link_status LinkUp = LinkDown"
| "opposite_link_status LinkDown = LinkUp"

fun opposite_node_status :: "update_node_status \<Rightarrow> update_node_status" where
  "opposite_node_status NodeUp = NodeDown"
| "opposite_node_status NodeDown = NodeUp"

definition scan_link_event ::
  "id set \<times> link_event_payload list \<Rightarrow> network_event \<Rightarrow> id set \<times> link_event_payload list" where
  "scan_link_event st event =
     (case st of (seen_links, initial_events) \<Rightarrow>
       (case ev_kind event of
          NodeEvent _ \<Rightarrow> (seen_links, initial_events)
        | LinkEvent p \<Rightarrow>
            (case lep_status p of
               None \<Rightarrow> (seen_links, initial_events)
             | Some updated_status \<Rightarrow>
                 if lep_link_id p \<in> seen_links then (seen_links, initial_events)
                 else (insert (lep_link_id p) seen_links,
                       initial_events @
                         [link_status_payload (lep_link_id p) (opposite_link_status updated_status)]))))"

definition get_initial_status_for_links_with_events ::
  "network_event list \<Rightarrow> network_link_spec list \<Rightarrow> link_event_payload list" where
  "get_initial_status_for_links_with_events evs links =
     (case foldl scan_link_event ({}, []) evs of (seen_links, initial_events) \<Rightarrow>
        initial_events @
          map (\<lambda>l. link_status_payload (ls_id l) LinkUp)
            (filter (\<lambda>l. ls_id l \<notin> seen_links) links))"

definition scan_node_event ::
  "id set \<times> node_event_payload list \<Rightarrow> network_event \<Rightarrow> id set \<times> node_event_payload list" where
  "scan_node_event st event =
     (case st of (seen_nodes, initial_events) \<Rightarrow>
       (case ev_kind event of
          LinkEvent _ \<Rightarrow> (seen_nodes, initial_events)
        | NodeEvent p \<Rightarrow>
            (case nep_status p of
               None \<Rightarrow> (seen_nodes, initial_events)
             | Some updated_status \<Rightarrow>
                 if nep_node_id p \<in> seen_nodes then (seen_nodes, initial_events)
                 else (insert (nep_node_id p) seen_nodes,
                       initial_events @
                         [node_status_payload (nep_node_id p) (opposite_node_status updated_status)]))))"

definition get_initial_status_for_nodes_with_events ::
  "network_event list \<Rightarrow> network_node_spec list \<Rightarrow> node_event_payload list" where
  "get_initial_status_for_nodes_with_events evs nodes =
     (case foldl scan_node_event ({}, []) evs of (seen_nodes, initial_events) \<Rightarrow>
        initial_events @
          map (\<lambda>n. node_status_payload (ns_id n) NodeUp)
            (filter (\<lambda>n. ns_id n \<notin> seen_nodes) nodes))"

definition network_events_new ::
  "network_event list \<Rightarrow> network_node_spec list \<Rightarrow> network_link_spec list \<Rightarrow> network_events" where
  "network_events_new evs nodes links =
     (let sorted = sort_key ev_relative_time evs
      in \<lparr>sorted_events = sorted,
          initial_link_events = get_initial_status_for_links_with_events sorted links,
          initial_node_events = get_initial_status_for_nodes_with_events sorted nodes\<rparr>)"

section \<open>The first-status scan, once for links and nodes\<close>

text \<open>
  The two scans share one contract: an event either gives a subject a status or not; the first
  such event of a subject yields one payload with the opposite status, later ones yield nothing.
\<close>

locale first_status_scan =
  fixes subject :: "'e \<Rightarrow> ('k \<times> 's) option"
    and opposite :: "'s \<Rightarrow> 's"
    and payload :: "'k \<Rightarrow> 's \<Rightarrow> 'p"
    and key :: "'p \<Rightarrow> 'k"
    and scan :: "'k set \<times> 'p list \<Rightarrow> 'e \<Rightarrow> 'k set \<times> 'p list"
  assumes scan_none: "subject e = None \<Longrightarrow> scan (seen, ps) e = (seen, ps)"
    and scan_seen: "subject e = Some (k, s) \<Longrightarrow> k \<in> seen \<Longrightarrow> scan (seen, ps) e = (seen, ps)"
    and scan_new: "subject e = Some (k, s) \<Longrightarrow> k \<notin> seen \<Longrightarrow>
      scan (seen, ps) e = (insert k seen, ps @ [payload k (opposite s)])"
    and key_payload: "key (payload k s) = k"
begin

fun first_status :: "'k \<Rightarrow> 'e list \<Rightarrow> 's option" where
  "first_status k [] = None"
| "first_status k (e # es) =
     (case subject e of
        Some (k', s) \<Rightarrow> if k' = k then Some s else first_status k es
      | None \<Rightarrow> first_status k es)"

lemma scan_fold_seen:
  "fst (foldl scan (seen, ps) es) = seen \<union> {k. first_status k es \<noteq> None}"
proof (induction es arbitrary: seen ps)
  case (Cons e es)
  show ?case
  proof (cases "subject e")
    case None
    then show ?thesis by (simp add: scan_none Cons.IH)
  next
    case (Some p)
    then obtain k s where p: "subject e = Some (k, s)" by (cases p) auto
    show ?thesis
      by (cases "k \<in> seen")
        (auto simp: scan_seen [OF p] scan_new [OF p] Cons.IH p)
  qed
qed simp

lemma scan_fold_payloads:
  "filter (\<lambda>p. key p = k) (snd (foldl scan (seen, ps) es)) =
     filter (\<lambda>p. key p = k) ps @
       (case first_status k es of
          Some s \<Rightarrow> if k \<in> seen then [] else [payload k (opposite s)]
        | None \<Rightarrow> [])"
proof (induction es arbitrary: seen ps)
  case (Cons e es)
  show ?case
  proof (cases "subject e")
    case None
    then show ?thesis by (simp add: scan_none Cons.IH)
  next
    case (Some p)
    then obtain k' s where p: "subject e = Some (k', s)" by (cases p) auto
    show ?thesis
      by (cases "k' \<in> seen")
        (auto simp: scan_seen [OF p] scan_new [OF p] Cons.IH p key_payload split: option.split)
  qed
qed simp

lemma filter_key_payloads:
  "filter (\<lambda>p. key p = k) (map (\<lambda>x. payload (nid x) up) xs) =
     map (\<lambda>x. payload (nid x) up) (filter (\<lambda>x. nid x = k) xs)"
  by (induction xs) (auto simp: key_payload)

lemma payloads_of_subject:
  assumes "distinct (map nid xs)"
  shows "map (\<lambda>x. payload (nid x) up) (filter (\<lambda>x. nid x = k) (filter (\<lambda>x. nid x \<notin> seen) xs)) =
    (if k \<notin> seen \<and> k \<in> nid ` set xs then [payload k up] else [])"
  using assms by (induction xs) (auto simp: filter_empty_conv, metis image_eqI)

lemma initial_payloads:
  assumes "distinct (map nid xs)"
  shows "filter (\<lambda>p. key p = k)
      (snd (foldl scan ({}, []) es) @
        map (\<lambda>x. payload (nid x) up) (filter (\<lambda>x. nid x \<notin> fst (foldl scan ({}, []) es)) xs)) =
    (case first_status k es of
       Some s \<Rightarrow> [payload k (opposite s)]
     | None \<Rightarrow> if k \<in> nid ` set xs then [payload k up] else [])"
proof -
  have "k \<in> fst (foldl scan ({}, []) es) \<longleftrightarrow> first_status k es \<noteq> None"
    by (simp add: scan_fold_seen)
  then show ?thesis
    unfolding filter_append filter_key_payloads payloads_of_subject [OF assms] scan_fold_payloads
    by (simp split: option.split)
qed

end

definition link_subject :: "network_event \<Rightarrow> (id \<times> update_link_status) option" where
  "link_subject e =
     (case ev_kind e of LinkEvent p \<Rightarrow> map_option (Pair (lep_link_id p)) (lep_status p) | NodeEvent _ \<Rightarrow> None)"

definition node_subject :: "network_event \<Rightarrow> (id \<times> update_node_status) option" where
  "node_subject e =
     (case ev_kind e of NodeEvent p \<Rightarrow> map_option (Pair (nep_node_id p)) (nep_status p) | LinkEvent _ \<Rightarrow> None)"

interpretation links: first_status_scan link_subject opposite_link_status link_status_payload
  lep_link_id scan_link_event
  by unfold_locales
    (auto simp: link_subject_def scan_link_event_def link_status_payload_def
      split: network_event_kind.splits option.splits)

interpretation nodes: first_status_scan node_subject opposite_node_status node_status_payload
  nep_node_id scan_node_event
  by unfold_locales
    (auto simp: node_subject_def scan_node_event_def node_status_payload_def
      split: network_event_kind.splits option.splits)

text \<open>
  If link ids are distinct, each link gets exactly one initial status: the opposite of the first
  status its events give it in time order, or up when no event gives it one.
\<close>

lemma initial_link_events_of:
  assumes "distinct (map ls_id links)"
  shows "filter (\<lambda>p. lep_link_id p = l) (initial_link_events (network_events_new evs nodes links)) =
    (case links.first_status l (sort_key ev_relative_time evs) of
       Some s \<Rightarrow> [link_status_payload l (opposite_link_status s)]
     | None \<Rightarrow> if l \<in> ls_id ` set links then [link_status_payload l LinkUp] else [])"
  unfolding network_events_new_def Let_def network_events.simps
    get_initial_status_for_links_with_events_def case_prod_beta
  by (rule links.initial_payloads [OF assms])

definition status_change :: "duration \<Rightarrow> id \<Rightarrow> update_link_status \<Rightarrow> network_event" where
  "status_change t l s = \<lparr>ev_relative_time = t, ev_kind = LinkEvent (link_status_payload l s)\<rparr>"

text \<open>The same for nodes: one initial status each, the opposite of the first one an event gives.\<close>

lemma initial_node_events_of:
  assumes "distinct (map ns_id nodes)"
  shows "filter (\<lambda>p. nep_node_id p = n) (initial_node_events (network_events_new evs nodes links)) =
    (case nodes.first_status n (sort_key ev_relative_time evs) of
       Some s \<Rightarrow> [node_status_payload n (opposite_node_status s)]
     | None \<Rightarrow> if n \<in> ns_id ` set nodes then [node_status_payload n NodeUp] else [])"
  unfolding network_events_new_def Let_def network_events.simps
    get_initial_status_for_nodes_with_events_def case_prod_beta
  by (rule nodes.initial_payloads [OF assms])

lemma opposite_link_status_neq: "opposite_link_status s \<noteq> s"
  by (cases s) simp_all

lemma opposite_node_status_neq: "opposite_node_status s \<noteq> s"
  by (cases s) simp_all

lemma packet_size_pos: "28 \<le> packet_size t"
  by (simp add: packet_size_def udp_overhead_def ipv4_overhead_def ipv6_overhead_def Let_def)

end
