(* ===== verification/Inbound_Queue.thy ===== *)
theory Inbound_Queue
  imports Net_Spec "HOL-Library.Product_Lexorder"
begin

text \<open>
  The queue of packets in flight, \<^verbatim>\<open>in-memory-network/src/network/inbound_queue.rs\<close>, used by a
  link (packets travelling) and by a host (packets waiting for the application).

  \<^verbatim>\<open>std::collections::BinaryHeap\<close> is modelled by its contract: a collection from which the
  greatest element is popped, here a list kept in delivery order. The hand-written future
  \<^verbatim>\<open>NextPacketDelivery\<close> is a function of the current instant on its own state (the pending
  timer) and the queue. The lemmas show that nothing is delivered early, lost or duplicated, that
  packets leave in the order of their arrival times, and that the timer the future holds blocks
  every later packet.
\<close>

section \<open>Elements and their order\<close>

record prioritized_in_transit_data =
  pd_data :: in_transit_data
  pd_sent :: instant
  pd_delay :: duration

definition arrival_time :: "prioritized_in_transit_data \<Rightarrow> instant" where
  "arrival_time p = pd_sent p + pd_delay p"

datatype ordering = Less | Equal | Greater

definition cmp_nat :: "nat \<Rightarrow> nat \<Rightarrow> ordering" where
  "cmp_nat a b = (if a < b then Less else if a = b then Equal else Greater)"

definition then_cmp :: "ordering \<Rightarrow> ordering \<Rightarrow> ordering" where
  "then_cmp o1 o2 = (case o1 of Equal \<Rightarrow> o2 | _ \<Rightarrow> o1)"

text \<open>The order is reversed: the greatest element is the next one to be delivered.\<close>

definition prioritized_cmp ::
  "prioritized_in_transit_data \<Rightarrow> prioritized_in_transit_data \<Rightarrow> ordering" where
  "prioritized_cmp self other =
     then_cmp (cmp_nat (arrival_time other) (arrival_time self))
       (cmp_nat (pkt_number (pd_data other)) (pkt_number (pd_data self)))"

definition prioritized_eq ::
  "prioritized_in_transit_data \<Rightarrow> prioritized_in_transit_data \<Rightarrow> bool" where
  "prioritized_eq self other \<longleftrightarrow>
     arrival_time self = arrival_time other \<and>
     pkt_number (pd_data self) = pkt_number (pd_data other)"

section \<open>The heap\<close>

type_synonym heap = "prioritized_in_transit_data list"

fun heap_push :: "prioritized_in_transit_data \<Rightarrow> heap \<Rightarrow> heap" where
  "heap_push x [] = [x]"
| "heap_push x (y # ys) = (if prioritized_cmp y x = Less then x # y # ys else y # heap_push x ys)"

definition heap_peek :: "heap \<Rightarrow> prioritized_in_transit_data option" where
  "heap_peek h = (case h of [] \<Rightarrow> None | x # _ \<Rightarrow> Some x)"

definition heap_pop :: "heap \<Rightarrow> (prioritized_in_transit_data \<times> heap) option" where
  "heap_pop h = (case h of [] \<Rightarrow> None | x # xs \<Rightarrow> Some (x, xs))"

section \<open>The queue and its future\<close>

type_synonym waker = nat

record inbound_queue =
  iq_queue :: heap
  iq_notify_new_transmits :: "waker list"

definition inbound_queue_new :: inbound_queue where
  "inbound_queue_new = \<lparr>iq_queue = [], iq_notify_new_transmits = []\<rparr>"

text \<open>\<open>send\<close> returns the wakers it wakes beside the new queue.\<close>

definition queue_send ::
  "instant \<Rightarrow> inbound_queue \<Rightarrow> in_transit_data \<Rightarrow> duration \<Rightarrow> inbound_queue \<times> waker list" where
  "queue_send now q data delay =
     (q\<lparr>iq_queue := heap_push \<lparr>pd_data = data, pd_sent = now, pd_delay = delay\<rparr> (iq_queue q),
        iq_notify_new_transmits := []\<rparr>,
      iq_notify_new_transmits q)"

record delivered_transmit =
  dt_data :: in_transit_data
  dt_sent :: instant

record next_packet_delivery =
  np_sleep :: "instant option"
  np_max_transmits :: nat

definition next_packet_delivery_new :: "nat \<Rightarrow> next_packet_delivery" where
  "next_packet_delivery_new max_transmits = \<lparr>np_sleep = None, np_max_transmits = max_transmits\<rparr>"

definition to_delivered :: "prioritized_in_transit_data \<Rightarrow> delivered_transmit" where
  "to_delivered p = \<lparr>dt_data = pd_data p, dt_sent = pd_sent p\<rparr>"

text \<open>How the loop of \<^verbatim>\<open>poll\<close> ends: in the timer (\<^verbatim>\<open>ready!\<close> returns at once) or by a break.\<close>

datatype loop_exit = AsleepUntil instant | Broke

function poll_loop ::
  "instant \<Rightarrow> nat \<Rightarrow> prioritized_in_transit_data list \<Rightarrow> instant option \<Rightarrow> heap \<Rightarrow>
   loop_exit \<times> prioritized_in_transit_data list \<times> instant option \<times> heap" where
  "poll_loop now max_transmits delivered sleep h =
     (if max_transmits \<le> length delivered then (Broke, delivered, sleep, h)
      else if sleep \<noteq> None \<and> delivered \<noteq> [] then (Broke, delivered, sleep, h)
      else if sleep \<noteq> None \<and> now < the sleep then (AsleepUntil (the sleep), delivered, sleep, h)
      else (case h of
              [] \<Rightarrow> (Broke, delivered, None, h)
            | p # ps \<Rightarrow>
                if now < arrival_time p
                then poll_loop now max_transmits delivered (Some (arrival_time p)) h
                else poll_loop now max_transmits (delivered @ [p]) None ps))"
  by pat_completeness auto
termination
  by (relation "measures [\<lambda>(now, m, d, s, h). length h,
        \<lambda>(now, m, d, s, h). case s of None \<Rightarrow> 1 | Some t \<Rightarrow> if t \<le> now then 2 else 0]")
    (auto split: option.splits)

declare poll_loop.simps [simp del]

datatype poll_result = Pending | Ready "delivered_transmit list"

definition poll ::
  "instant \<Rightarrow> waker \<Rightarrow> next_packet_delivery \<Rightarrow> inbound_queue \<Rightarrow>
   poll_result \<times> next_packet_delivery \<times> inbound_queue" where
  "poll now waker f q =
     (case poll_loop now (np_max_transmits f) [] (np_sleep f) (iq_queue q) of
        (exit, delivered, sleep, h) \<Rightarrow>
          let f' = f\<lparr>np_sleep := sleep\<rparr>; q' = q\<lparr>iq_queue := h\<rparr>
          in case exit of
               AsleepUntil _ \<Rightarrow> (Pending, f', q')
             | Broke \<Rightarrow>
                 if delivered = []
                 then (Pending, f',
                       q'\<lparr>iq_notify_new_transmits := iq_notify_new_transmits q @ [waker]\<rparr>)
                 else (Ready (map to_delivered delivered), f', q'))"

section \<open>The heap contract\<close>

definition delivery_key :: "prioritized_in_transit_data \<Rightarrow> nat \<times> nat" where
  "delivery_key p = (arrival_time p, pkt_number (pd_data p))"

lemma prioritized_cmp_key:
  "prioritized_cmp a b = Less \<longleftrightarrow> delivery_key b < delivery_key a"
  "prioritized_cmp a b = Equal \<longleftrightarrow> delivery_key a = delivery_key b"
  "prioritized_cmp a b = Greater \<longleftrightarrow> delivery_key a < delivery_key b"
  by (auto simp: prioritized_cmp_def then_cmp_def cmp_nat_def delivery_key_def)

lemma prioritized_eq_cmp: "prioritized_eq a b \<longleftrightarrow> prioritized_cmp a b = Equal"
  by (auto simp: prioritized_eq_def prioritized_cmp_key delivery_key_def)

locale min_heap =
  fixes empty :: "'h"
    and push :: "'a \<Rightarrow> 'h \<Rightarrow> 'h"
    and peek :: "'h \<Rightarrow> 'a option"
    and pop :: "'h \<Rightarrow> ('a \<times> 'h) option"
    and elems :: "'h \<Rightarrow> 'a multiset"
    and invar :: "'h \<Rightarrow> bool"
    and key :: "'a \<Rightarrow> 'k::linorder"
  assumes elems_empty: "elems empty = {#}" and invar_empty: "invar empty"
    and elems_push: "elems (push x h) = add_mset x (elems h)"
    and invar_push: "invar h \<Longrightarrow> invar (push x h)"
    and pop_none: "pop h = None \<longleftrightarrow> elems h = {#}"
    and peek_pop: "peek h = map_option fst (pop h)"
    and elems_pop: "pop h = Some (x, h') \<Longrightarrow> elems h = add_mset x (elems h')"
    and invar_pop: "invar h \<Longrightarrow> pop h = Some (x, h') \<Longrightarrow> invar h'"
    and pop_least: "invar h \<Longrightarrow> pop h = Some (x, h') \<Longrightarrow> y \<in># elems h' \<Longrightarrow> key x \<le> key y"
begin

fun pops :: "nat \<Rightarrow> 'h \<Rightarrow> 'a list \<times> 'h" where
  "pops 0 h = ([], h)"
| "pops (Suc n) h =
     (case pop h of
        None \<Rightarrow> ([], h)
      | Some (x, h') \<Rightarrow> (case pops n h' of (xs, h'') \<Rightarrow> (x # xs, h'')))"

lemma pops_elems: "pops n h = (xs, h') \<Longrightarrow> mset xs + elems h' = elems h"
  by (induction n arbitrary: h xs h')
    (auto split: option.splits prod.splits dest: elems_pop)

lemma pops_invar: "invar h \<Longrightarrow> pops n h = (xs, h') \<Longrightarrow> invar h'"
  by (induction n arbitrary: h xs h')
    (auto split: option.splits prod.splits dest: invar_pop)

lemma pops_least:
  "invar h \<Longrightarrow> pops n h = (xs, h') \<Longrightarrow> x \<in> set xs \<Longrightarrow> y \<in># elems h' \<Longrightarrow> key x \<le> key y"
proof (induction n arbitrary: h xs h')
  case (Suc n)
  then obtain z h1 zs where z: "pop h = Some (z, h1)" "pops n h1 = (zs, h')" "xs = z # zs"
    by (auto split: option.splits prod.splits)
  have "y \<in># elems h1" using pops_elems [OF z(2)] Suc.prems(4) by (metis union_iff)
  then have "key z \<le> key y" by (rule pop_least [OF Suc.prems(1) z(1)])
  with z Suc.prems Suc.IH [OF invar_pop [OF Suc.prems(1) z(1)] z(2)] show ?case by auto
qed simp

lemma pops_sorted: "invar h \<Longrightarrow> pops n h = (xs, h') \<Longrightarrow> sorted (map key xs)"
proof (induction n arbitrary: h xs h')
  case (Suc n)
  show ?case
  proof (cases "pop h")
    case None
    with Suc.prems show ?thesis by simp
  next
    case (Some p)
    then obtain z h1 zs where z: "pop h = Some (z, h1)" "pops n h1 = (zs, h')" "xs = z # zs"
      using Suc.prems by (cases p) (auto split: prod.splits)
    have "key z \<le> key x" if "x \<in> set zs" for x
    proof -
      have "x \<in># elems h1" using pops_elems [OF z(2)] that by (metis set_mset_mset union_iff)
      then show ?thesis by (rule pop_least [OF Suc.prems(1) z(1)])
    qed
    with z Suc.IH [OF invar_pop [OF Suc.prems(1) z(1)] z(2)] show ?thesis by simp
  qed
qed simp

end

definition heap_invar :: "heap \<Rightarrow> bool" where
  "heap_invar h = sorted (map delivery_key h)"

lemma mset_heap_push [simp]: "mset (heap_push x h) = add_mset x (mset h)"
  by (induction h) auto

lemma set_heap_push [simp]: "set (heap_push x h) = insert x (set h)"
  by (induction h) auto

lemma length_heap_push [simp]: "length (heap_push x h) = Suc (length h)"
  by (induction h) auto

lemma heap_push_invar: "heap_invar h \<Longrightarrow> heap_invar (heap_push x h)"
  by (induction h) (auto simp: heap_invar_def prioritized_cmp_key intro: less_imp_le)

interpretation bh: min_heap "[]" heap_push heap_peek heap_pop mset heap_invar delivery_key
  by unfold_locales
    (auto simp: heap_peek_def heap_pop_def heap_invar_def heap_push_invar [unfolded heap_invar_def]
      split: list.splits)

lemma pops_take: "bh.pops n h = (take n h, drop n h)"
  by (induction n arbitrary: h) (auto simp: heap_pop_def split: list.splits)

section \<open>What one poll delivers\<close>

definition due :: "instant \<Rightarrow> prioritized_in_transit_data \<Rightarrow> bool" where
  "due now p \<longleftrightarrow> arrival_time p \<le> now"

definition awake :: "instant \<Rightarrow> instant option \<Rightarrow> bool" where
  "awake now sleep \<longleftrightarrow> (case sleep of None \<Rightarrow> True | Some t \<Rightarrow> t \<le> now)"

lemma poll_loop_delivering:
  assumes "delivered \<noteq> []"
  shows "poll_loop now m delivered None h =
    (let k = length (takeWhile (due now) (take (m - length delivered) h))
     in (Broke, delivered @ take k h,
         if length delivered + k < m \<and> k < length h then Some (arrival_time (h ! k)) else None,
         drop k h))"
  using assms
proof (induction h arbitrary: delivered)
  case Nil
  then show ?case by (simp add: poll_loop.simps)
next
  case (Cons p ps)
  show ?case
  proof (cases "length delivered < m")
    case False
    then show ?thesis by (simp add: poll_loop.simps Let_def)
  next
    case True
    then obtain j where j: "m - length delivered = Suc j" "m - Suc (length delivered) = j"
      by (metis Suc_diff_Suc)
    show ?thesis
    proof (cases "due now p")
      case False
      then have "poll_loop now m delivered None (p # ps) =
          (Broke, delivered, Some (arrival_time p), p # ps)"
        using True Cons.prems
        by (subst poll_loop.simps) (simp add: due_def, subst poll_loop.simps, simp)
      with False True j show ?thesis by (simp add: Let_def)
    next
      case dp: True
      then have "poll_loop now m delivered None (p # ps) = poll_loop now m (delivered @ [p]) None ps"
        using True by (subst poll_loop.simps) (simp add: due_def)
      with Cons.IH [of "delivered @ [p]"] dp True j show ?thesis by (simp add: Let_def)
    qed
  qed
qed

lemma poll_loop_asleep:
  assumes "now < t" and "0 < m"
  shows "poll_loop now m [] (Some t) h = (AsleepUntil t, [], Some t, h)"
  using assms by (simp add: poll_loop.simps)

lemma poll_loop_empty:
  assumes "awake now sleep" and "0 < m"
  shows "poll_loop now m [] sleep [] = (Broke, [], None, [])"
  using assms by (auto simp: poll_loop.simps awake_def split: option.splits)

lemma poll_loop_not_due:
  assumes "awake now sleep" and "0 < m" and "\<not> due now p"
  shows "poll_loop now m [] sleep (p # ps) =
    (AsleepUntil (arrival_time p), [], Some (arrival_time p), p # ps)"
proof -
  have "poll_loop now m [] sleep (p # ps) = poll_loop now m [] (Some (arrival_time p)) (p # ps)"
    using assms by (subst poll_loop.simps) (auto simp: due_def awake_def split: option.splits)
  also have "\<dots> = (AsleepUntil (arrival_time p), [], Some (arrival_time p), p # ps)"
    using assms by (intro poll_loop_asleep) (simp_all add: due_def)
  finally show ?thesis .
qed

lemma poll_loop_due:
  assumes "awake now sleep" and "0 < m" and "due now p"
  shows "poll_loop now m [] sleep (p # ps) = poll_loop now m [p] None ps"
  using assms by (subst poll_loop.simps) (auto simp: due_def awake_def split: option.splits)

text \<open>The packets that are due, in delivery order, at most \<open>m\<close> of them.\<close>

definition due_prefix :: "instant \<Rightarrow> nat \<Rightarrow> heap \<Rightarrow> heap" where
  "due_prefix now m h = takeWhile (due now) (take m h)"

lemma due_prefix_take: "due_prefix now m h = take (length (due_prefix now m h)) h"
  unfolding due_prefix_def
  by (metis length_takeWhile_le length_take min.bounded_iff take_all_iff take_take takeWhile_eq_take
      min.absorb1)

lemma poll_loop_awake:
  assumes "awake now sleep" and "0 < m"
  shows "\<exists>exit sleep'. poll_loop now m [] sleep h =
      (exit, due_prefix now m h, sleep', drop (length (due_prefix now m h)) h) \<and>
      (exit = Broke \<longleftrightarrow> due_prefix now m h \<noteq> [] \<or> h = []) \<and>
      (\<forall>t. sleep' = Some t \<longrightarrow> now < t \<and> (\<exists>p \<in> set (drop (length (due_prefix now m h)) h). arrival_time p = t))"
proof (cases h)
  case Nil
  with assms show ?thesis by (simp add: poll_loop_empty due_prefix_def)
next
  case (Cons p ps)
  obtain j where j: "m = Suc j" using assms(2) by (cases m) auto
  show ?thesis
  proof (cases "due now p")
    case False
    then show ?thesis
      using poll_loop_not_due [OF assms False] Cons j by (simp add: due_prefix_def due_def)
  next
    case True
    let ?k = "length (takeWhile (due now) (take j ps))"
    have pre: "due_prefix now m h = p # takeWhile (due now) (take j ps)"
      using True Cons j by (simp add: due_prefix_def)
    have tk: "takeWhile (due now) (take j ps) = take ?k ps"
      by (metis due_prefix_def due_prefix_take)
    define sl where "sl = (if ?k < j \<and> ?k < length ps then Some (arrival_time (ps ! ?k)) else None)"
    have eq: "poll_loop now m [] sleep h = (Broke, due_prefix now m h, sl, drop ?k ps)"
    proof -
      have "poll_loop now m [] sleep h = poll_loop now m [p] None ps"
        using poll_loop_due [OF assms True] Cons by simp
      then show ?thesis
        by (simp add: poll_loop_delivering Let_def sl_def pre [unfolded j] j flip: tk)
    qed
    have "now < t \<and> (\<exists>x \<in> set (drop ?k ps). arrival_time x = t)" if "sl = Some t" for t
    proof -
      have k: "?k < j" "?k < length ps" "t = arrival_time (ps ! ?k)"
        using that by (auto simp: sl_def split: if_splits)
      have "\<not> due now (ps ! ?k)"
        using nth_length_takeWhile [of "due now" "take j ps"] k by simp
      moreover have "ps ! ?k \<in> set (drop ?k ps)"
        using k by (metis Cons_nth_drop_Suc list.set_intros(1))
      ultimately show ?thesis using k by (auto simp: due_def)
    qed
    with eq pre Cons show ?thesis by auto
  qed
qed

section \<open>Contracts of the queue\<close>

definition queue_ok :: "inbound_queue \<Rightarrow> bool" where
  "queue_ok q \<longleftrightarrow> heap_invar (iq_queue q)"

lemma queue_new_ok [step_inv]: "queue_ok inbound_queue_new"
  by (simp add: queue_ok_def inbound_queue_new_def heap_invar_def)

lemma queue_send_ok [step_inv]: "queue_ok q \<Longrightarrow> queue_ok (fst (queue_send now q data delay))"
  by (simp add: queue_ok_def queue_send_def heap_push_invar)

lemma queue_send_mset:
  "mset (iq_queue (fst (queue_send now q data delay))) =
     add_mset \<lparr>pd_data = data, pd_sent = now, pd_delay = delay\<rparr> (mset (iq_queue q))"
  by (simp add: queue_send_def)

definition delivered_of :: "instant \<Rightarrow> next_packet_delivery \<Rightarrow> inbound_queue \<Rightarrow> heap" where
  "delivered_of now f q =
     (if awake now (np_sleep f) then due_prefix now (np_max_transmits f) (iq_queue q) else [])"

lemma poll_spec:
  assumes "0 < np_max_transmits f" and "poll now w f q = (r, f', q')"
  shows "r = (if delivered_of now f q = [] then Pending
              else Ready (map to_delivered (delivered_of now f q)))"
    and "iq_queue q' = drop (length (delivered_of now f q)) (iq_queue q)"
    and "np_max_transmits f' = np_max_transmits f"
    and "iq_notify_new_transmits q' = iq_notify_new_transmits q @
      (if awake now (np_sleep f) \<and> iq_queue q = [] then [w] else [])"
proof -
  consider (asleep) t where "np_sleep f = Some t" "now < t" | (awake) "awake now (np_sleep f)"
    by (cases "np_sleep f") (auto simp: awake_def, meson not_le)
  then have "r = (if delivered_of now f q = [] then Pending
                  else Ready (map to_delivered (delivered_of now f q))) \<and>
      iq_queue q' = drop (length (delivered_of now f q)) (iq_queue q) \<and>
      np_max_transmits f' = np_max_transmits f \<and>
      iq_notify_new_transmits q' = iq_notify_new_transmits q @
        (if awake now (np_sleep f) \<and> iq_queue q = [] then [w] else [])"
  proof cases
    case asleep
    with assms show ?thesis
      by (auto simp: poll_def poll_loop_asleep delivered_of_def awake_def Let_def)
  next
    case awake
    let ?d = "due_prefix now (np_max_transmits f) (iq_queue q)"
    from poll_loop_awake [OF awake assms(1), of "iq_queue q"]
    obtain exit sl where
      eq: "poll_loop now (np_max_transmits f) [] (np_sleep f) (iq_queue q) =
        (exit, ?d, sl, drop (length ?d) (iq_queue q))"
      and ex: "exit = Broke \<longleftrightarrow> ?d \<noteq> [] \<or> iq_queue q = []" by blast
    have "iq_queue q = [] \<Longrightarrow> ?d = []" by (simp add: due_prefix_def)
    then show ?thesis
      using assms(2) awake ex
      by (cases exit) (auto simp: poll_def eq delivered_of_def Let_def)
  qed
  then show "r = (if delivered_of now f q = [] then Pending
              else Ready (map to_delivered (delivered_of now f q)))"
    and "iq_queue q' = drop (length (delivered_of now f q)) (iq_queue q)"
    and "np_max_transmits f' = np_max_transmits f"
    and "iq_notify_new_transmits q' = iq_notify_new_transmits q @
      (if awake now (np_sleep f) \<and> iq_queue q = [] then [w] else [])"
    by blast+
qed

lemma delivered_of_take:
  "delivered_of now f q = take (length (delivered_of now f q)) (iq_queue q)"
  using due_prefix_take by (simp add: delivered_of_def)

lemma delivered_of_due: "p \<in> set (delivered_of now f q) \<Longrightarrow> arrival_time p \<le> now"
  by (auto simp: delivered_of_def due_prefix_def due_def dest: set_takeWhileD split: if_splits)

lemma poll_queue_ok [step_inv]:
  assumes "0 < np_max_transmits f" and "poll now w f q = (r, f', q')" and "queue_ok q"
  shows "queue_ok q'"
  using bh.pops_invar [OF _ pops_take] assms(3) poll_spec(2) [OF assms(1,2)]
  by (simp add: queue_ok_def)

section \<open>Properties\<close>

text \<open>
  C12. A poll delivers packets in order of arrival (ties by number), none before its arrival time, at
  most the limit, and loses or duplicates none. If its timer is not pending it stops only at the
  limit or at a packet that has not arrived; while the timer is pending it delivers nothing, whatever
  is due, and leaves the packets as they are.
\<close>

theorem poll_delivers:
  assumes "0 < np_max_transmits f" and "queue_ok q" and "poll now w f q = (r, f', q')"
  shows "\<exists>ds. r = (if ds = [] then Pending else Ready (map to_delivered ds)) \<and>
    mset (iq_queue q) = mset ds + mset (iq_queue q') \<and> queue_ok q' \<and>
    sorted (map delivery_key ds) \<and> (\<forall>d \<in> set ds. arrival_time d \<le> now) \<and>
    length ds \<le> np_max_transmits f \<and>
    (if awake now (np_sleep f)
     then \<forall>p \<in> set (iq_queue q'). now < arrival_time p \<or> length ds = np_max_transmits f
     else ds = [] \<and> iq_queue q' = iq_queue q)"
proof (cases "awake now (np_sleep f)")
  case False
  with poll_spec [OF assms(1,3)] poll_queue_ok [OF assms(1,3,2)] show ?thesis
    by (intro exI [of _ "[]"]) (simp add: delivered_of_def)
next
  case awake: True
  let ?q = "iq_queue q"
  let ?ds = "due_prefix now (np_max_transmits f) ?q"
  let ?k = "length ?ds"
  have q': "iq_queue q' = drop ?k ?q"
    and r: "r = (if ?ds = [] then Pending else Ready (map to_delivered ?ds))"
    using poll_spec [OF assms(1,3)] awake by (auto simp: delivered_of_def)
  have pops: "bh.pops ?k ?q = (?ds, drop ?k ?q)"
    by (simp only: pops_take flip: due_prefix_take)
  have inv: "heap_invar ?q" using assms(2) by (simp add: queue_ok_def)
  have le: "?k \<le> np_max_transmits f" by (simp add: due_prefix_def length_takeWhile_le [THEN order_trans])
  have rest: "now < arrival_time p \<or> ?k = np_max_transmits f" if mem: "p \<in> set (drop ?k ?q)" for p
  proof (cases "?k < np_max_transmits f \<and> ?k < length ?q")
    case True
    then have k: "?k < length (take (np_max_transmits f) ?q)" by simp
    then have "\<not> due now (take (np_max_transmits f) ?q ! ?k)"
      unfolding due_prefix_def by (rule nth_length_takeWhile)
    then have "now < arrival_time (?q ! ?k)" using True by (simp add: due_def)
    moreover have "delivery_key (?q ! ?k) \<le> delivery_key p"
    proof -
      obtain i where i: "i < length ?q - ?k" "p = ?q ! (?k + i)"
        using mem by (auto simp: in_set_conv_nth)
      then show ?thesis
        using inv sorted_nth_mono [of "map delivery_key ?q" ?k "?k + i"] by (simp add: heap_invar_def)
    qed
    then have "arrival_time (?q ! ?k) \<le> arrival_time p" by (auto simp: delivery_key_def less_eq_prod_def)
    ultimately show ?thesis by simp
  qed (use mem le in auto)
  have "\<forall>d \<in> set ?ds. arrival_time d \<le> now"
    by (auto simp: due_prefix_def due_def dest: set_takeWhileD)
  moreover have "queue_ok q'" using poll_queue_ok [OF assms(1,3,2)] .
  moreover have "mset ?q = mset ?ds + mset (iq_queue q')"
    using bh.pops_elems [OF pops] q' by simp
  moreover have "sorted (map delivery_key ?ds)" using bh.pops_sorted [OF inv pops] .
  moreover have "\<forall>p \<in> set (iq_queue q'). now < arrival_time p \<or> ?k = np_max_transmits f"
    using rest q' by simp
  ultimately show ?thesis
    using r le awake by auto
qed

definition queued :: "nat \<Rightarrow> instant \<Rightarrow> duration \<Rightarrow> inbound_queue \<Rightarrow> inbound_queue" where
  "queued k now delay q =
     fst (queue_send now q
       \<lparr>pkt_id = of_nat k, pkt_duplicate = False, pkt_source_endpoint = \<lparr>sa_ip = V4 1, sa_port = 1\<rparr>,
        pkt_source_id = ''a'',
        pkt_transmit = \<lparr>tx_destination = \<lparr>sa_ip = V4 2, sa_port = 1\<rparr>, tx_ecn = None,
                        tx_contents = [], tx_segment_size = None\<rparr>, pkt_number = k\<rparr> delay)"

theorem poll_delivers_witness:
  "\<exists>r f' q' ds. poll 20 0 (next_packet_delivery_new 9) (queued 2 0 30 (queued 1 5 10 inbound_queue_new)) = (r, f', q') \<and>
     r = (if ds = [] then Pending else Ready (map to_delivered ds)) \<and>
     mset (iq_queue (queued 2 0 30 (queued 1 5 10 inbound_queue_new))) = mset ds + mset (iq_queue q')"
proof -
  let ?q = "queued 2 0 30 (queued 1 5 10 inbound_queue_new)"
  have "queue_ok ?q" by (simp add: queued_def queue_send_ok queue_new_ok)
  moreover obtain r f' q' where p: "poll 20 0 (next_packet_delivery_new 9) ?q = (r, f', q')"
    by (cases "poll 20 0 (next_packet_delivery_new 9) ?q")
  moreover have "0 < np_max_transmits (next_packet_delivery_new 9)"
    "awake 20 (np_sleep (next_packet_delivery_new 9))"
    by (simp_all add: next_packet_delivery_new_def awake_def)
  ultimately show ?thesis using poll_delivers by blast
qed

text \<open>
  C17. The timer of a waiting delivery is not reset when an earlier packet is sent meanwhile: the
  earlier packet is not delivered at its own arrival time, although it is due, and not before the
  timer of the packet that was waited for.
\<close>

theorem earlier_packet_waits_for_timer:
  assumes "0 < m" and "iq_queue q = []" and "now \<le> now'" and "now' + d1 < now + d2"
    and "poll now w (next_packet_delivery_new m) (fst (queue_send now q late d2)) = (r1, f1, q1)"
    and "now' + d1 \<le> t" and "t < now + d2"
  shows "\<exists>f2 q2. poll t w f1 (fst (queue_send now' q1 early d1)) = (Pending, f2, q2) \<and>
    (\<exists>p \<in> set (iq_queue q2). pd_data p = early \<and> arrival_time p \<le> t)"
proof -
  let ?late = "\<lparr>pd_data = late, pd_sent = now, pd_delay = d2\<rparr>"
  have q: "iq_queue (fst (queue_send now q late d2)) = [?late]"
    using assms(2) by (simp add: queue_send_def)
  have "\<not> due now ?late" using assms(3,4) by (simp add: due_def arrival_time_def)
  then have "poll_loop now m [] None [?late] = (AsleepUntil (now + d2), [], Some (now + d2), [?late])"
    using poll_loop_not_due [of now None m ?late "[]"] assms(1) by (simp add: awake_def arrival_time_def)
  with assms(5) q have f1: "np_sleep f1 = Some (now + d2)" "np_max_transmits f1 = m" "iq_queue q1 = [?late]"
    by (auto simp: poll_def next_packet_delivery_new_def Let_def)
  let ?q2 = "fst (queue_send now' q1 early d1)"
  have "poll t w f1 ?q2 = (Pending, f1\<lparr>np_sleep := Some (now + d2)\<rparr>, ?q2)"
    using poll_loop_asleep [OF assms(7,1)] f1 by (simp add: poll_def Let_def)
  moreover have "\<exists>p \<in> set (iq_queue ?q2). pd_data p = early \<and> arrival_time p \<le> t"
    using assms(6) by (intro bexI [of _ "\<lparr>pd_data = early, pd_sent = now', pd_delay = d1\<rparr>"])
      (simp_all add: queue_send_def arrival_time_def)
  ultimately show ?thesis by blast
qed

theorem earlier_packet_waits_for_timer_witness:
  "\<exists>r1 f1 q1 f2 q2 late early.
     poll 0 7 (next_packet_delivery_new 1) (fst (queue_send 0 inbound_queue_new late 100)) = (r1, f1, q1) \<and>
     poll 50 7 f1 (fst (queue_send 10 q1 early 5)) = (Pending, f2, q2) \<and>
     (\<exists>p \<in> set (iq_queue q2). pd_data p = early \<and> arrival_time p \<le> 50)"
proof -
  define d where "d = pd_data (hd (iq_queue (queued 1 0 0 inbound_queue_new)))"
  obtain r1 f1 q1 where p:
    "poll 0 7 (next_packet_delivery_new 1) (fst (queue_send 0 inbound_queue_new d 100)) = (r1, f1, q1)"
    by (cases "poll 0 7 (next_packet_delivery_new 1) (fst (queue_send 0 inbound_queue_new d 100))")
  have "\<exists>f2 q2. poll 50 7 f1 (fst (queue_send 10 q1 d 5)) = (Pending, f2, q2) \<and>
      (\<exists>p \<in> set (iq_queue q2). pd_data p = d \<and> arrival_time p \<le> 50)"
    by (rule earlier_packet_waits_for_timer [OF _ _ _ _ p]) (simp_all add: inbound_queue_new_def)
  with p show ?thesis by blast
qed

end
