(* ===== verification/Tracing.thy ===== *)
theory Tracing
  imports Net_Spec
begin

text \<open>
  The replay log: its steps (\<^verbatim>\<open>in-memory-network/src/tracing/simulation_step.rs\<close>), the recorder
  and its queries (\<^verbatim>\<open>simulation_stepper.rs\<close>), the tracer the network calls (\<^verbatim>\<open>tracer.rs\<close>) and the
  packet counters (\<^verbatim>\<open>stats.rs\<close>). The tracer reads only the identifiers of the nodes and links it
  is given, so its operations take identifiers. Console warnings are values of a datatype.
\<close>

section \<open>Steps\<close>

record generic_packet_event =
  gpe_packet_id :: uuid
  gpe_packet_number :: nat
  gpe_packet_size_bytes :: nat
  gpe_node_id :: id

record packet_in_node =
  pin_packet_id :: uuid
  pin_packet_number :: nat
  pin_packet_size_bytes :: nat
  pin_node_id :: id
  pin_dropped_on_arrival :: bool

datatype drop_reason = Random | BufferFull | BufferCleared

record packet_dropped =
  pdr_packet_id :: uuid
  pdr_node_id :: id
  pdr_reason :: drop_reason

record packet_has_extra_delay =
  ped_packet_id :: uuid
  ped_node_id :: id
  ped_extra_delay :: duration

record packet_in_transit =
  pit_packet_id :: uuid
  pit_node_id :: id
  pit_link_id :: id

record packet_lost_in_transit =
  plt_packet_id :: uuid
  plt_link_id :: id

datatype step_kind =
    PacketInNode packet_in_node
  | PacketDropped packet_dropped
  | PacketLostInTransit packet_lost_in_transit
  | PacketDuplicated generic_packet_event
  | PacketExtraDelay packet_has_extra_delay
  | PacketCongestionEvent generic_packet_event
  | PacketInTransit packet_in_transit
  | PacketDeliveredToApplication generic_packet_event
  | NetworkEvent "link_event_payload option" "node_event_payload option"

record simulation_step =
  st_relative_time :: duration
  st_kind :: step_kind

section \<open>Recorder and queries\<close>

type_synonym simulation_stepper = "simulation_step list"

definition stepper_record :: "simulation_stepper \<Rightarrow> simulation_step \<Rightarrow> simulation_stepper" where
  "stepper_record steps step = steps @ [step]"

fun get_packet_hops :: "simulation_stepper \<Rightarrow> uuid \<Rightarrow> (duration \<times> id) list" where
  "get_packet_hops [] i = []"
| "get_packet_hops (step # steps) i =
     (case st_kind step of
        PacketInNode s \<Rightarrow>
          if pin_packet_id s = i
          then (st_relative_time step, pin_node_id s) # get_packet_hops steps i
          else get_packet_hops steps i
      | _ \<Rightarrow> get_packet_hops steps i)"

definition get_packet_path :: "simulation_stepper \<Rightarrow> uuid \<Rightarrow> id list" where
  "get_packet_path steps i = map snd (get_packet_hops steps i)"

definition arrival_of_step :: "uuid \<Rightarrow> id \<Rightarrow> simulation_step \<Rightarrow> duration option" where
  "arrival_of_step i node s =
     (case st_kind s of
        PacketInNode kind \<Rightarrow>
          if pin_packet_id kind = i \<and> pin_node_id kind = node then Some (st_relative_time s) else None
      | _ \<Rightarrow> None)"

definition get_packet_arrived_at :: "simulation_stepper \<Rightarrow> uuid \<Rightarrow> id \<Rightarrow> duration option" where
  "get_packet_arrived_at steps i node =
     (case List.map_filter (arrival_of_step i node) steps of [] \<Rightarrow> None | t # _ \<Rightarrow> Some t)"

section \<open>The tracer\<close>

datatype warning =
    PacketLostWarning id nat
  | BufferFullWarning nat id
  | DuplicateWarning id nat
  | CongestionWarning id nat

record tracer =
  tr_simulation_start :: instant
  tr_recorded_steps :: simulation_stepper
  tr_network_spec :: network_spec
  tr_already_warned :: "id set"
  tr_enable_warnings :: bool
  tr_output :: "warning list"

definition tracer_new :: "instant \<Rightarrow> network_spec \<Rightarrow> tracer" where
  "tracer_new now spec =
     \<lparr>tr_simulation_start = now, tr_recorded_steps = [], tr_network_spec = spec,
      tr_already_warned = {}, tr_enable_warnings = True, tr_output = []\<rparr>"

definition mute_warnings :: "tracer \<Rightarrow> tracer" where
  "mute_warnings t = t\<lparr>tr_enable_warnings := False\<rparr>"

definition warn :: "warning \<Rightarrow> tracer \<Rightarrow> tracer" where
  "warn w t = (if tr_enable_warnings t then t\<lparr>tr_output := tr_output t @ [w]\<rparr> else t)"

text \<open>\<^verbatim>\<open>Instant::elapsed\<close> saturates at zero.\<close>

definition is_fresh :: "instant \<Rightarrow> tracer \<Rightarrow> bool" where
  "is_fresh now t \<longleftrightarrow> now - tr_simulation_start t = 0"

definition record_step :: "instant \<Rightarrow> step_kind \<Rightarrow> tracer \<Rightarrow> tracer" where
  "record_step now kind t =
     t\<lparr>tr_recorded_steps :=
         stepper_record (tr_recorded_steps t)
           \<lparr>st_relative_time = now - tr_simulation_start t, st_kind = kind\<rparr>\<rparr>"

definition track_link_event :: "instant \<Rightarrow> link_event_payload \<Rightarrow> tracer \<Rightarrow> tracer" where
  "track_link_event now event = record_step now (NetworkEvent (Some event) None)"

definition track_node_event :: "instant \<Rightarrow> node_event_payload \<Rightarrow> tracer \<Rightarrow> tracer" where
  "track_node_event now event = record_step now (NetworkEvent None (Some event))"

definition track_packet_in_node :: "instant \<Rightarrow> id \<Rightarrow> in_transit_data \<Rightarrow> tracer \<Rightarrow> tracer" where
  "track_packet_in_node now node packet =
     record_step now (PacketInNode
       \<lparr>pin_packet_id = pkt_id packet, pin_packet_number = pkt_number packet,
        pin_packet_size_bytes = pkt_size packet, pin_node_id = node,
        pin_dropped_on_arrival = False\<rparr>)"

definition track_packet_in_transit ::
  "instant \<Rightarrow> id \<Rightarrow> id \<Rightarrow> in_transit_data \<Rightarrow> tracer \<Rightarrow> tracer" where
  "track_packet_in_transit now node link packet =
     record_step now (PacketInTransit
       \<lparr>pit_packet_id = pkt_id packet, pit_node_id = node, pit_link_id = link\<rparr>)"

definition track_dropped_on_arrival :: "instant \<Rightarrow> id \<Rightarrow> in_transit_data \<Rightarrow> tracer \<Rightarrow> tracer" where
  "track_dropped_on_arrival now node packet =
     record_step now (PacketInNode
       \<lparr>pin_packet_id = pkt_id packet, pin_packet_number = pkt_number packet,
        pin_packet_size_bytes = pkt_size packet, pin_node_id = node,
        pin_dropped_on_arrival = True\<rparr>)"

definition track_dropped :: "drop_reason \<Rightarrow> instant \<Rightarrow> id \<Rightarrow> in_transit_data \<Rightarrow> tracer \<Rightarrow> tracer" where
  "track_dropped reason now node packet =
     record_step now (PacketDropped
       \<lparr>pdr_packet_id = pkt_id packet, pdr_node_id = node, pdr_reason = reason\<rparr>)"

definition track_dropped_by_buffer_clear_event ::
  "instant \<Rightarrow> id \<Rightarrow> in_transit_data \<Rightarrow> tracer \<Rightarrow> tracer" where
  "track_dropped_by_buffer_clear_event = track_dropped BufferCleared"

definition track_dropped_randomly :: "instant \<Rightarrow> id \<Rightarrow> in_transit_data \<Rightarrow> tracer \<Rightarrow> tracer" where
  "track_dropped_randomly now node packet t =
     warn (PacketLostWarning (pkt_source_id packet) (pkt_number packet))
       (track_dropped Random now node packet t)"

definition track_dropped_because_buffer_full ::
  "instant \<Rightarrow> id \<Rightarrow> in_transit_data \<Rightarrow> tracer \<Rightarrow> tracer" where
  "track_dropped_because_buffer_full now node packet t =
     (let t1 = track_dropped BufferFull now node packet t;
          first_dropped = node \<notin> tr_already_warned t1;
          t2 = t1\<lparr>tr_already_warned := insert node (tr_already_warned t1)\<rparr>
      in if first_dropped then warn (BufferFullWarning (pkt_number packet) node) t2 else t2)"

definition track_lost_in_transit :: "instant \<Rightarrow> id \<Rightarrow> in_transit_data \<Rightarrow> tracer \<Rightarrow> tracer" where
  "track_lost_in_transit now link data =
     record_step now (PacketLostInTransit \<lparr>plt_packet_id = pkt_id data, plt_link_id = link\<rparr>)"

definition generic_event :: "id \<Rightarrow> in_transit_data \<Rightarrow> generic_packet_event" where
  "generic_event node packet =
     \<lparr>gpe_packet_id = pkt_id packet, gpe_packet_number = pkt_number packet,
      gpe_packet_size_bytes = pkt_size packet, gpe_node_id = node\<rparr>"

definition track_injected_failures ::
  "instant \<Rightarrow> id \<Rightarrow> in_transit_data \<Rightarrow> bool \<Rightarrow> duration \<Rightarrow> bool \<Rightarrow> tracer \<Rightarrow> tracer" where
  "track_injected_failures now node packet duplicate extra_delay congestion_experienced t =
     (let t1 = (if extra_delay \<noteq> 0
                then record_step now (PacketExtraDelay
                       \<lparr>ped_packet_id = pkt_id packet, ped_node_id = node,
                        ped_extra_delay = extra_delay\<rparr>) t
                else t);
          t2 = (if duplicate
                then warn (DuplicateWarning node (pkt_number packet))
                       (record_step now (PacketDuplicated (generic_event node packet)) t1)
                else t1)
      in if congestion_experienced
         then warn (CongestionWarning node (pkt_number packet))
                (record_step now (PacketCongestionEvent (generic_event node packet)) t2)
         else t2)"

definition track_read_by_host :: "instant \<Rightarrow> id \<Rightarrow> in_transit_data \<Rightarrow> tracer \<Rightarrow> tracer" where
  "track_read_by_host now host data =
     record_step now (PacketDeliveredToApplication (generic_event host data))"

section \<open>Packet counters\<close>

record packet_stats =
  ps_packets :: nat
  ps_bytes :: nat

definition no_packets :: packet_stats where
  "no_packets = \<lparr>ps_packets = 0, ps_bytes = 0\<rparr>"

definition track_one :: "nat \<Rightarrow> packet_stats \<Rightarrow> packet_stats" where
  "track_one size_bytes s =
     \<lparr>ps_packets = add64 (ps_packets s) 1, ps_bytes = add64 (ps_bytes s) size_bytes\<rparr>"

definition join :: "packet_stats \<Rightarrow> packet_stats \<Rightarrow> packet_stats" where
  "join a b =
     \<lparr>ps_packets = add64 (ps_packets a) (ps_packets b),
      ps_bytes = add64 (ps_bytes a) (ps_bytes b)\<rparr>"

record link_stats =
  lst_dropped_in_transit :: packet_stats
  lst_max_used_bandwidth_bps :: nat

definition default_link_stats :: link_stats where
  "default_link_stats = \<lparr>lst_dropped_in_transit = no_packets, lst_max_used_bandwidth_bps = 0\<rparr>"

record node_stats =
  nst_sent :: packet_stats
  nst_received :: packet_stats
  nst_dropped_on_arrival :: packet_stats
  nst_dropped_injected :: packet_stats
  nst_dropped_buffer_full :: packet_stats
  nst_dropped_buffer_cleared :: packet_stats
  nst_duplicates :: packet_stats
  nst_received_out_of_order :: packet_stats
  nst_congestion_experienced :: packet_stats
  nst_max_buffer_usage :: nat

section \<open>The log grows in time order\<close>

text \<open>What one call of the tracer appends, and what it leaves alone.\<close>

definition log_of :: "tracer \<Rightarrow> simulation_step list" where
  "log_of t = tr_recorded_steps t"

definition step_at :: "instant \<Rightarrow> tracer \<Rightarrow> step_kind \<Rightarrow> simulation_step" where
  "step_at now t k = \<lparr>st_relative_time = now - tr_simulation_start t, st_kind = k\<rparr>"

lemma log_of_tracer_new [simp]: "log_of (tracer_new now spec) = []"
  by (simp add: log_of_def tracer_new_def)

lemma warn_frame [simp]:
  "log_of (warn w t) = log_of t" "tr_simulation_start (warn w t) = tr_simulation_start t"
  "tr_network_spec (warn w t) = tr_network_spec t"
  by (simp_all add: warn_def log_of_def)

lemma record_step_frame [simp]:
  "log_of (record_step now k t) = log_of t @ [step_at now t k]"
  "tr_simulation_start (record_step now k t) = tr_simulation_start t"
  "tr_network_spec (record_step now k t) = tr_network_spec t"
  by (simp_all add: record_step_def log_of_def stepper_record_def step_at_def)

lemmas track_defs =
  track_link_event_def track_node_event_def track_packet_in_node_def track_packet_in_transit_def
  track_dropped_on_arrival_def track_dropped_def track_dropped_by_buffer_clear_event_def
  track_dropped_randomly_def track_lost_in_transit_def track_read_by_host_def

lemma track_buffer_full_frame [simp]:
  "log_of (track_dropped_because_buffer_full now n p t) =
     log_of t @ [step_at now t (PacketDropped
       \<lparr>pdr_packet_id = pkt_id p, pdr_node_id = n, pdr_reason = BufferFull\<rparr>)]"
  "tr_simulation_start (track_dropped_because_buffer_full now n p t) = tr_simulation_start t"
  "tr_network_spec (track_dropped_because_buffer_full now n p t) = tr_network_spec t"
  by (simp_all add: track_dropped_because_buffer_full_def track_dropped_def Let_def warn_def
      log_of_def record_step_def stepper_record_def step_at_def)

lemma track_duplicate_frame [simp]:
  "log_of (track_injected_failures now n p True 0 False t) =
     log_of t @ [step_at now t (PacketDuplicated (generic_event n p))]"
  "tr_simulation_start (track_injected_failures now n p True 0 False t) = tr_simulation_start t"
  "tr_network_spec (track_injected_failures now n p True 0 False t) = tr_network_spec t"
  by (simp_all add: track_injected_failures_def)

text \<open>A log is chronological up to an instant when its times are sorted and not after it.\<close>

definition chronological :: "instant \<Rightarrow> tracer \<Rightarrow> bool" where
  "chronological now t \<longleftrightarrow>
     tr_simulation_start t \<le> now \<and> sorted (map st_relative_time (log_of t)) \<and>
     (\<forall>s \<in> set (log_of t). st_relative_time s \<le> now - tr_simulation_start t)"

lemma chronological_append [step_inv]:
  assumes "chronological now t" and "tr_simulation_start t' = tr_simulation_start t"
    and "log_of t' = log_of t @ map (step_at now t) ks"
  shows "chronological now t'"
  using assms by (auto simp: chronological_def sorted_append step_at_def sorted_map sorted_wrt_map)

lemma chronological_later: "chronological now t \<Longrightarrow> now \<le> now' \<Longrightarrow> chronological now' t"
  by (fastforce simp: chronological_def intro: order_trans)

section \<open>The queries agree\<close>

lemma hops_append: "get_packet_hops (xs @ ys) i = get_packet_hops xs i @ get_packet_hops ys i"
  by (induction xs) (auto split: step_kind.splits)

text \<open>
  The arrival time of a packet at a node, as the recorder reports it, is the time of the first
  hop of the packet at that node.
\<close>

lemma arrived_at_first_hop:
  "get_packet_arrived_at steps i node =
     map_option fst (find (\<lambda>h. snd h = node) (get_packet_hops steps i))"
proof (induction steps)
  case Nil
  then show ?case by (simp add: get_packet_arrived_at_def map_filter_simps)
next
  case (Cons s steps)
  then show ?case
    by (auto simp: get_packet_arrived_at_def map_filter_simps arrival_of_step_def
        split: step_kind.splits option.splits)
qed

lemma hops_sorted:
  "sorted (map st_relative_time steps) \<Longrightarrow> sorted (map fst (get_packet_hops steps i))"
proof (induction steps)
  case (Cons s steps)
  have "\<forall>h \<in> set (get_packet_hops steps i). st_relative_time s \<le> fst h"
    using Cons.prems
    by (induction steps) (auto split: step_kind.splits)
  with Cons show ?case by (auto split: step_kind.splits)
qed simp

end
