(* ===== verification/Node.thy ===== *)
theory Node
  imports Outbound_Buffer Inbound_Queue Tracing
begin

text \<open>
  A node of the network, \<^verbatim>\<open>in-memory-network/src/network/node.rs\<close>: its addresses, its byte
  budget, the channel of packets waiting for the node's background task, and its status.

  A \<^verbatim>\<open>Down\<close> status owns the sender of a fresh one-shot channel whose receiver is what waiting
  tasks hold. The model names a channel by a token, the number of channels the node has made
  before; the receiver of channel \<open>t\<close> is ready exactly when the status is no longer \<open>Down t\<close>, for
  the sender is used or dropped only when that status is replaced. The contract of such a status
  is a locale that both nodes and links provide.
\<close>

section \<open>Statuses with a notifier\<close>

datatype status = Up | Down (channel: nat)

definition notifier :: "status \<Rightarrow> nat option" where
  "notifier s = (case s of Up \<Rightarrow> None | Down t \<Rightarrow> Some t)"

definition notified :: "nat \<Rightarrow> status \<Rightarrow> bool" where
  "notified t s \<longleftrightarrow> s \<noteq> Down t"

locale status_machine =
  fixes status_of :: "'m \<Rightarrow> status"
    and channels :: "'m \<Rightarrow> nat"
    and turn :: "bool \<Rightarrow> instant \<Rightarrow> 'm \<Rightarrow> 'm"
  assumes turn_up: "status_of (turn True now m) = Up" "channels (turn True now m) = channels m"
    and turn_down_again: "status_of m = Down t \<Longrightarrow> status_of (turn False now m) = Down t"
      "status_of m = Down t \<Longrightarrow> channels (turn False now m) = channels m"
    and turn_down: "status_of m = Up \<Longrightarrow> status_of (turn False now m) = Down (channels m)"
      "status_of m = Up \<Longrightarrow> channels (turn False now m) = Suc (channels m)"
begin

definition fresh :: "'m \<Rightarrow> bool" where
  "fresh m \<longleftrightarrow> (\<forall>t. status_of m = Down t \<longrightarrow> t < channels m)"

lemma fresh_turn: "fresh m \<Longrightarrow> fresh (turn up now m)"
  by (cases up; cases "status_of m") (auto simp: fresh_def turn_up turn_down turn_down_again)

lemma turn_status: "status_of (turn up now m) = Up \<longleftrightarrow> up"
  by (cases up; cases "status_of m") (auto simp: turn_up turn_down turn_down_again)

text \<open>A receiver that has been notified stays notified: channels are never made twice.\<close>

lemma notified_turn:
  assumes "t < channels m" and "notified t (status_of m)"
  shows "t < channels (turn up now m) \<and> notified t (status_of (turn up now m))"
  using assms
  by (cases up; cases "status_of m")
    (auto simp: notified_def turn_up turn_down turn_down_again)

fun turns :: "(bool \<times> instant) list \<Rightarrow> 'm \<Rightarrow> 'm" where
  "turns [] m = m"
| "turns ((up, now) # us) m = turns us (turn up now m)"

lemma notified_turns:
  "t < channels m \<Longrightarrow> notified t (status_of m) \<Longrightarrow> notified t (status_of (turns us m))"
  by (induction us m rule: turns.induct) (simp_all add: notified_turn)

lemma fresh_turns: "fresh m \<Longrightarrow> fresh (turns us m)"
  by (induction us m rule: turns.induct) (simp_all add: fresh_turn)

text \<open>
  No waiter is forgotten: whoever took the receiver while the machine was down is notified by the
  first update that turns it up, and stays so whatever happens next.
\<close>

lemma waiter_is_notified:
  assumes "fresh m" and "notifier (status_of m) = Some t" and "(True, now) \<in> set us"
  shows "notified t (status_of (turns us m))"
  using assms
proof (induction us arbitrary: m)
  case (Cons u us)
  obtain up n where u: "u = (up, n)" by (cases u)
  from Cons.prems(2) have st: "status_of m = Down t"
    by (auto simp: notifier_def split: status.splits)
  with Cons.prems(1) have t: "t < channels m" by (simp add: fresh_def)
  show ?case
  proof (cases up)
    case True
    then have "notified t (status_of (turn up n m))" "t < channels (turn up n m)"
      using t by (auto simp: notified_def turn_up)
    then show ?thesis by (simp add: u notified_turns)
  next
    case False
    with Cons.prems(3) u have "(True, now) \<in> set us" by auto
    moreover have "notifier (status_of (turn up n m)) = Some t"
      using False turn_down_again(1) [OF st] by (simp add: notifier_def)
    ultimately show ?thesis
      using Cons.IH [OF fresh_turn [OF Cons.prems(1)]] by (simp add: u)
  qed
qed simp

end

section \<open>The node\<close>

record buffered_packet =
  bp_in_node_since :: instant
  bp_data :: in_transit_data

record udp_endpoint =
  ue_addr :: socket_addr
  ue_inbound :: inbound_queue

record node_injected_failures =
  nif_packet_loss_ratio :: f64
  nif_packet_duplication_ratio :: f64

text \<open>
  \<open>nd_outbound\<close> is the content of the node's channel, \<open>nd_receiver\<close> whether its receiving end
  still exists, \<open>nd_channels\<close> the number of one-shot channels made so far.
\<close>

record node =
  nd_addresses :: "ip_addr list"
  nd_id :: id
  nd_udp_endpoint :: "udp_endpoint option"
  nd_injected_failures :: node_injected_failures
  nd_status :: status
  nd_last_buffer_clear :: "instant option"
  nd_outbound_buffer :: outbound_buffer
  nd_outbound :: "buffered_packet list"
  nd_receiver :: bool
  nd_channels :: nat

datatype panic =
    ReceiverDropped id
  | LinkCannotSend id
  | LinkIsDown id
  | EcnUnsupported uuid
  | HasBandwidth id
  | NoSuchKey
  | SegmentedTransmit
  | TooManyMetas
  | BufferTooSmall
  | NotAHost
  | IndexOutOfBounds
  | NotIpv4
  | PcapFailed
  | VerifierPanicked
  | UnwrappedNone
  | UnexpectedSource

datatype init_error =
    OldTracer
  | OldStart
  | TooFewHosts nat
  | NotAHostKind id
  | HostWithoutInterfaces id
  | HostWithoutAddress id
  | RouterWithoutAddress id
  | DuplicateEndpointAddress ip_addr
  | ConflictingLinks id id ip_addr ip_addr
  | DuplicateLinkId id
  | ConflictingNodes id id ip_addr

definition from_spec :: "network_node_spec \<Rightarrow> node_injected_failures" where
  "from_spec spec =
     \<lparr>nif_packet_loss_ratio = ns_packet_loss_ratio spec,
      nif_packet_duplication_ratio = ns_packet_duplication_ratio spec\<rparr>"

definition node_of_spec :: "network_node_spec \<Rightarrow> udp_endpoint option \<Rightarrow> node" where
  "node_of_spec spec endpoint =
     \<lparr>nd_addresses = spec_addresses spec, nd_id = ns_id spec, nd_udp_endpoint = endpoint,
      nd_injected_failures = from_spec spec, nd_status = Up, nd_last_buffer_clear = None,
      nd_outbound_buffer = outbound_buffer_new (ns_buffer_size_bytes spec), nd_outbound = [],
      nd_receiver = True, nd_channels = 0\<rparr>"

definition node_host :: "network_node_spec \<Rightarrow> init_error + node \<times> udp_endpoint" where
  "node_host spec =
     (if ns_kind spec \<noteq> Host then Inl (NotAHostKind (ns_id spec))
      else case ns_interfaces spec of
        [] \<Rightarrow> Inl (HostWithoutInterfaces (ns_id spec))
      | interface # _ \<Rightarrow>
          if ni_addresses interface = [] then Inl (HostWithoutAddress (ns_id spec))
          else
            let quic_address = hd (spec_addresses spec);
                endpoint = \<lparr>ue_addr = \<lparr>sa_ip = quic_address, sa_port = host_port\<rparr>,
                            ue_inbound = inbound_queue_new\<rparr>
            in Inr (node_of_spec spec (Some endpoint), endpoint))"

definition node_router :: "network_node_spec \<Rightarrow> init_error + node" where
  "node_router spec =
     (if spec_addresses spec = [] then Inl (RouterWithoutAddress (ns_id spec))
      else Inr (node_of_spec spec None))"

definition enqueue_outbound ::
  "instant \<Rightarrow> buffered_packet \<Rightarrow> node \<times> tracer \<Rightarrow> panic + node \<times> tracer" where
  "enqueue_outbound now packet nt =
     (case nt of (n, t) \<Rightarrow>
       (let data_len = pkt_size (bp_data packet) in
        case reserve (nd_outbound_buffer n) data_len of
          (True, b) \<Rightarrow>
            if nd_receiver n
            then Inr (n\<lparr>nd_outbound_buffer := b, nd_outbound := nd_outbound n @ [packet]\<rparr>, t)
            else Inl (ReceiverDropped (nd_id n))
        | (False, b) \<Rightarrow>
            Inr (n\<lparr>nd_outbound_buffer := b\<rparr>,
                 track_dropped_because_buffer_full now (nd_id n) (bp_data packet) t)))"

definition quic_addr :: "node \<Rightarrow> socket_addr option" where
  "quic_addr n = map_option ue_addr (nd_udp_endpoint n)"

definition status_str :: "status \<Rightarrow> string" where
  "status_str s = (case s of Up \<Rightarrow> ''UP'' | Down _ \<Rightarrow> ''DOWN'')"

definition node_is_down :: "node \<Rightarrow> bool" where
  "node_is_down n \<longleftrightarrow> (case nd_status n of Up \<Rightarrow> False | Down _ \<Rightarrow> True)"

definition node_update_status :: "update_node_status \<Rightarrow> node \<Rightarrow> node" where
  "node_update_status update n =
     (case (nd_status n, update) of
        (Down t, NodeDown) \<Rightarrow> n\<lparr>nd_status := Down t\<rparr>
      | (Up, NodeUp) \<Rightarrow> n\<lparr>nd_status := Up\<rparr>
      | (Up, NodeDown) \<Rightarrow> n\<lparr>nd_status := Down (nd_channels n), nd_channels := Suc (nd_channels n)\<rparr>
      | (Down _, NodeUp) \<Rightarrow> n\<lparr>nd_status := Up\<rparr>)"

definition clear_buffer :: "instant \<Rightarrow> node \<Rightarrow> node" where
  "clear_buffer now n = n\<lparr>nd_last_buffer_clear := Some now\<rparr>"

section \<open>Contracts of the node\<close>

definition turn_node :: "bool \<Rightarrow> instant \<Rightarrow> node \<Rightarrow> node" where
  "turn_node up now = node_update_status (if up then NodeUp else NodeDown)"

interpretation node_sm: status_machine nd_status nd_channels turn_node
  by unfold_locales (auto simp: turn_node_def node_update_status_def split: status.splits)

lemma node_update_status_frame [simp]:
  "nd_addresses (node_update_status u n) = nd_addresses n"
  "nd_id (node_update_status u n) = nd_id n"
  "nd_udp_endpoint (node_update_status u n) = nd_udp_endpoint n"
  "nd_injected_failures (node_update_status u n) = nd_injected_failures n"
  "nd_last_buffer_clear (node_update_status u n) = nd_last_buffer_clear n"
  "nd_outbound_buffer (node_update_status u n) = nd_outbound_buffer n"
  "nd_outbound (node_update_status u n) = nd_outbound n"
  "nd_receiver (node_update_status u n) = nd_receiver n"
  by (auto simp: node_update_status_def split: status.splits update_node_status.splits)

lemma node_is_down_update: "node_is_down (node_update_status u n) \<longleftrightarrow> u = NodeDown"
  by (auto simp: node_is_down_def node_update_status_def
      split: status.splits update_node_status.splits)

lemma clear_buffer_frame [simp]:
  "nd_addresses (clear_buffer now n) = nd_addresses n" "nd_id (clear_buffer now n) = nd_id n"
  "nd_udp_endpoint (clear_buffer now n) = nd_udp_endpoint n"
  "nd_outbound_buffer (clear_buffer now n) = nd_outbound_buffer n"
  "nd_outbound (clear_buffer now n) = nd_outbound n" "nd_status (clear_buffer now n) = nd_status n"
  "nd_receiver (clear_buffer now n) = nd_receiver n" "nd_channels (clear_buffer now n) = nd_channels n"
  by (simp_all add: clear_buffer_def)

text \<open>The bytes of the packets that sit in the node's channel.\<close>

definition channel_bytes :: "node \<Rightarrow> nat" where
  "channel_bytes n = sum_list (map (\<lambda>p. pkt_size (bp_data p)) (nd_outbound n))"

lemma enqueue_outbound_cases:
  assumes "enqueue_outbound now p (n, t) = Inr (n', t')"
  obtains (queued) "ob.accounts cap held (nd_outbound_buffer n) \<Longrightarrow>
        ob.accounts cap (held + pkt_size (bp_data p)) (nd_outbound_buffer n')"
      "fst (reserve (nd_outbound_buffer n) (pkt_size (bp_data p)))"
      "n' = n\<lparr>nd_outbound_buffer := nd_outbound_buffer n', nd_outbound := nd_outbound n @ [p]\<rparr>"
      "t' = t"
    | (full) "n' = n" "\<not> fst (reserve (nd_outbound_buffer n) (pkt_size (bp_data p)))"
      "t' = track_dropped_because_buffer_full now (nd_id n) (bp_data p) t"
proof (cases "fst (reserve (nd_outbound_buffer n) (pkt_size (bp_data p)))")
  case True
  then show ?thesis
    using assms ob.accounts_take_space [of cap held "nd_outbound_buffer n" "pkt_size (bp_data p)"]
    by (intro queued)
      (auto simp: enqueue_outbound_def Let_def split: prod.splits bool.splits if_splits)
next
  case False
  then have "reserve (nd_outbound_buffer n) (pkt_size (bp_data p)) = (False, nd_outbound_buffer n)"
    by (auto simp: reserve_def split: if_splits)
  with False assms show ?thesis
    by (intro full) (auto simp: enqueue_outbound_def Let_def)
qed

end
