(* ===== verification/Float64.thy ===== *)
theory Float64
  imports Net_Prelude
begin

text \<open>
  The \<^verbatim>\<open>f64\<close> arithmetic the link pacer and the failure injection use. A finite double is a
  rational; every operation computes the exact result and rounds it to 53 significant bits, ties
  to even. All results of the program lie far inside the normal range of binary64, so the bounds
  of the exponent do not appear. A value is rounded by \<open>f64_round\<close>, its binary exponent is found
  by \<open>f64_exponent\<close> from the logarithms of numerator and denominator.
\<close>

function int_log2 :: "int \<Rightarrow> nat" where
  "int_log2 n = (if n < 2 then 0 else Suc (int_log2 (n div 2)))"
  by pat_completeness auto
termination
  by (relation "measure nat") auto

declare int_log2.simps [simp del]

definition f64_exponent :: "rat \<Rightarrow> int" where
  "f64_exponent x =
     (case quotient_of x of (p, q) \<Rightarrow>
        let k = int (int_log2 p) - int (int_log2 q)
        in if 2 powi k \<le> x then k else k - 1)"

definition round_half_even :: "rat \<Rightarrow> int" where
  "round_half_even x =
     (let f = \<lfloor>x\<rfloor>; d = x - of_int f
      in if d < 1 / 2 then f else if 1 / 2 < d then f + 1 else if even f then f else f + 1)"

definition f64_round :: "rat \<Rightarrow> rat" where
  "f64_round x =
     (let mag = (\<lambda>y. let u = 2 powi (f64_exponent y - 52)
                     in of_int (round_half_even (y / u)) * u)
      in if x = 0 then 0 else if x < 0 then - mag (- x) else mag x)"

lemma int_log2_bounds:
  "0 < n \<Longrightarrow> 2 ^ int_log2 n \<le> n \<and> n < 2 * 2 ^ int_log2 n"
proof (induction n rule: int_log2.induct)
  case (1 n)
  show ?case
  proof (cases "n < 2")
    case True
    with "1.prems" show ?thesis by (simp add: int_log2.simps [of n])
  next
    case False
    with "1.IH" have "2 ^ int_log2 (n div 2) \<le> n div 2 \<and> n div 2 < 2 * 2 ^ int_log2 (n div 2)"
      by simp
    with False show ?thesis by (auto simp: int_log2.simps [of n])
  qed
qed

lemma quotient_of_bounds:
  assumes "0 < x" and "quotient_of x = (p, q)"
  shows "0 < p" "0 < q" "x = of_int p / of_int q"
  using assms quotient_of_div [OF assms(2)] quotient_of_denom_pos [OF assms(2)]
  by (auto simp: zero_less_divide_iff)

lemma f64_exponent_bounds:
  assumes "0 < x"
  shows "2 powi f64_exponent x \<le> x" and "x < 2 * 2 powi f64_exponent x"
proof -
  obtain p q where pq: "quotient_of x = (p, q)" by fastforce
  note b = quotient_of_bounds [OF assms pq]
  define a c where "a = int_log2 p" and "c = int_log2 q"
  have "(of_int (2 ^ a) :: rat) \<le> of_int p" "of_int p < (of_int (2 * 2 ^ a) :: rat)"
       "(of_int (2 ^ c) :: rat) \<le> of_int q" "of_int q < (of_int (2 * 2 ^ c) :: rat)"
    using int_log2_bounds [OF b(1)] int_log2_bounds [OF b(2)]
    by (simp_all only: a_def c_def of_int_le_iff of_int_less_iff)
  then have B: "(2 ^ a :: rat) \<le> of_int p" "of_int p < (2 * 2 ^ a :: rat)"
       "(2 ^ c :: rat) \<le> of_int q" "of_int q < (2 * 2 ^ c :: rat)"
    by simp_all
  note x = b(3) and pos = b(1,2)
  have k: "(2::rat) powi (int a - int c) = 2 ^ a / 2 ^ c"
    by (simp add: power_int_diff)
  have up: "x < 2 * (2 ^ a / 2 ^ c)"
  proof -
    have "x \<le> of_int p / 2 ^ c" unfolding x using B(3) pos by (intro divide_left_mono) (auto simp: less_imp_le)
    also have "\<dots> < 2 * 2 ^ a / 2 ^ c" using B(2) by (intro divide_strict_right_mono) auto
    finally show ?thesis by simp
  qed
  have lo: "2 ^ a / 2 ^ c < 2 * x"
  proof -
    have "2 ^ a / (2 * 2 ^ c) < 2 ^ a / (of_int q :: rat)"
      using B(4) pos by (intro divide_strict_left_mono) auto
    also have "\<dots> \<le> x" unfolding x using B(1) pos by (intro divide_right_mono) auto
    finally show ?thesis by simp
  qed
  have e: "f64_exponent x = (if 2 powi (int a - int c) \<le> x then int a - int c else int a - int c - 1)"
    by (simp add: f64_exponent_def pq Let_def a_def c_def)
  have h: "(2::rat) powi (int a - int c - 1) = 2 ^ a / 2 ^ c / 2"
    by (simp add: power_int_diff)
  show "2 powi f64_exponent x \<le> x" and "x < 2 * 2 powi f64_exponent x"
    using up lo by (auto simp: e k h)
qed

lemma round_half_even_error: "\<bar>of_int (round_half_even x) - x\<bar> \<le> 1 / 2"
proof -
  have "of_int \<lfloor>x\<rfloor> \<le> x" "x < of_int \<lfloor>x\<rfloor> + 1" by linarith+
  then show ?thesis by (simp add: round_half_even_def Let_def abs_le_iff)
qed

lemma round_half_even_of_int [simp]: "round_half_even (of_int k) = k"
  by (simp add: round_half_even_def)

lemma f64_round_pos_eq:
  "0 < x \<Longrightarrow> f64_round x = of_int (round_half_even (x / 2 powi (f64_exponent x - 52))) * 2 powi (f64_exponent x - 52)"
  by (simp add: f64_round_def Let_def)

lemma f64_round_error:
  assumes "0 < x"
  shows "\<bar>f64_round x - x\<bar> \<le> x / 2 ^ 53"
proof -
  define u :: rat where "u = 2 powi (f64_exponent x - 52)"
  have u: "0 < u" by (simp add: u_def)
  have ue: "u = 2 powi f64_exponent x / 2 ^ 52" by (simp add: u_def power_int_diff)
  have "\<bar>f64_round x - x\<bar> = \<bar>of_int (round_half_even (x / u)) - x / u\<bar> * u"
    using u by (simp add: f64_round_pos_eq [OF assms] u_def [symmetric] abs_mult_pos' field_simps)
  also have "\<dots> \<le> 1 / 2 * u" using round_half_even_error [of "x / u"] u by (intro mult_right_mono) auto
  also have "\<dots> \<le> x / 2 ^ 53" using f64_exponent_bounds(1) [OF assms] by (simp add: ue)
  finally show ?thesis .
qed

lemma f64_round_of_nat:
  assumes "n < 2 ^ 53"
  shows "f64_round (of_nat n) = of_nat n"
proof (cases "n = 0")
  case True
  then show ?thesis by (simp add: f64_round_def)
next
  case False
  let ?x = "of_nat n :: rat"
  have pos: "0 < ?x" using False by simp
  have "(2::rat) powi f64_exponent ?x \<le> ?x" by (rule f64_exponent_bounds(1) [OF pos])
  also have "?x < of_nat (2 ^ 53)" using assms by (simp only: of_nat_less_iff)
  also have "\<dots> = 2 powi 53" by simp
  finally have lt: "(2::rat) powi f64_exponent ?x < 2 powi 53" .
  have "f64_exponent ?x < 53"
  proof (rule ccontr)
    assume "\<not> f64_exponent ?x < 53"
    then have "(2::rat) powi 53 \<le> 2 powi f64_exponent ?x" by (intro power_int_increasing) auto
    with lt show False by simp
  qed
  define d where "d = nat (52 - f64_exponent ?x)"
  have d: "f64_exponent ?x - 52 = - int d"
    using \<open>f64_exponent ?x < 53\<close> by (simp add: d_def)
  have inv: "?x / 2 powi (f64_exponent ?x - 52) = of_int (int n * 2 ^ d)"
    by (simp add: d power_int_minus divide_inverse)
  show ?thesis
    unfolding f64_round_pos_eq [OF pos] inv round_half_even_of_int
    using inv by (metis nonzero_eq_divide_eq power_int_not_zero zero_neq_numeral)
qed

section \<open>Evaluation on integers\<close>

definition div_half_even :: "int \<Rightarrow> int \<Rightarrow> int" where
  "div_half_even p q =
     (let m = p div q; r = 2 * (p mod q)
      in if r < q then m else if q < r then m + 1 else if even m then m else m + 1)"

lemma round_half_even_divide:
  assumes "0 < q"
  shows "round_half_even (of_int p / of_int q) = div_half_even p q"
proof -
  let ?x = "rat_of_int p / of_int q"
  have fl: "\<lfloor>?x\<rfloor> = p div q" by (simp add: floor_divide_of_int_eq)
  have "rat_of_int p = of_int (p div q) * of_int q + of_int (p mod q)"
    by (metis div_mult_mod_eq of_int_add of_int_mult)
  then have d: "?x - of_int (p div q) = of_int (p mod q) / of_int q"
    using assms by (simp add: field_simps)
  have "?x - of_int (p div q) < 1 / 2 \<longleftrightarrow> rat_of_int (2 * (p mod q)) < of_int q"
    "1 / 2 < ?x - of_int (p div q) \<longleftrightarrow> of_int q < rat_of_int (2 * (p mod q))"
    using assms by (simp_all add: d field_simps)
  then show ?thesis
    by (simp add: round_half_even_def div_half_even_def fl Let_def del: of_int_mult)
qed

lemma powi_split: "(2::rat) powi k = (if 0 \<le> k then 2 ^ nat k else 1 / 2 ^ nat (- k))"
  by (cases "0 \<le> k") (simp_all add: power_int_def inverse_eq_divide power_one_over)

lemma f64_exponent_code [code]:
  "f64_exponent x =
     (case quotient_of x of (p, q) \<Rightarrow>
        let a = int_log2 p; b = int_log2 q; k = int a - int b
        in if (if b \<le> a then 2 ^ (a - b) * q \<le> p else q \<le> p * 2 ^ (b - a)) then k else k - 1)"
proof -
  obtain p q where pq: "quotient_of x = (p, q)" by (cases "quotient_of x")
  have q: "0 < q" using quotient_of_denom_pos [OF pq] .
  have x: "x = of_int p / of_int q" using quotient_of_div [OF pq] .
  define a b where ab: "a = int_log2 p" "b = int_log2 q"
  have "2 powi (int a - int b) \<le> x \<longleftrightarrow>
      (if b \<le> a then 2 ^ (a - b) * q \<le> p else q \<le> p * 2 ^ (b - a))"
  proof (cases "b \<le> a")
    case True
    then have "2 powi (int a - int b) \<le> x \<longleftrightarrow> rat_of_int (2 ^ (a - b) * q) \<le> of_int p"
      using q by (simp add: powi_split nat_diff_distrib x field_simps)
    also have "\<dots> \<longleftrightarrow> 2 ^ (a - b) * q \<le> p" by (rule of_int_le_iff)
    finally show ?thesis using True by simp
  next
    case False
    then have "2 powi (int a - int b) \<le> x \<longleftrightarrow> rat_of_int q \<le> of_int (p * 2 ^ (b - a))"
      using q by (simp add: powi_split nat_diff_distrib x field_simps)
    also have "\<dots> \<longleftrightarrow> q \<le> p * 2 ^ (b - a)" by (rule of_int_le_iff)
    finally show ?thesis using False by simp
  qed
  then show ?thesis by (simp add: f64_exponent_def pq Let_def ab)
qed

definition f64_round_pos :: "rat \<Rightarrow> rat" where
  "f64_round_pos x =
     (case quotient_of x of (p, q) \<Rightarrow>
        let e = f64_exponent x - 52
        in if 0 \<le> e then of_int (div_half_even p (q * 2 ^ nat e) * 2 ^ nat e)
           else of_int (div_half_even (p * 2 ^ nat (- e)) q) / of_int (2 ^ nat (- e)))"

lemma f64_round_pos_code: 
  assumes "0 < x" shows "f64_round x = f64_round_pos x"
proof -
  obtain p q where pq: "quotient_of x = (p, q)" by (cases "quotient_of x")
  have q: "0 < q" using quotient_of_denom_pos [OF pq] .
  have x: "x = of_int p / of_int q" using quotient_of_div [OF pq] .
  let ?e = "f64_exponent x - 52"
  show ?thesis
  proof (cases "0 \<le> ?e")
    case True
    then have "x / 2 powi ?e = of_int p / of_int (q * 2 ^ nat ?e)" by (simp add: powi_split x)
    with True q show ?thesis
      using round_half_even_divide [of "q * 2 ^ nat ?e" p]
      by (simp add: f64_round_pos_eq [OF assms] f64_round_pos_def pq powi_split Let_def)
  next
    case False
    then have "x / 2 powi ?e = of_int (p * 2 ^ nat (- ?e)) / of_int q" by (simp add: powi_split x)
    with False q show ?thesis
      using round_half_even_divide [of q "p * 2 ^ nat (- ?e)"]
      by (simp add: f64_round_pos_eq [OF assms] f64_round_pos_def pq powi_split Let_def del: of_int_mult)
  qed
qed

lemma f64_round_code [code]:
  "f64_round x = (if x = 0 then 0 else if x < 0 then - f64_round_pos (- x) else f64_round_pos x)"
proof -
  have "f64_round x = - f64_round (- x)" if "x < 0" using that by (simp add: f64_round_def Let_def)
  then show ?thesis by (auto simp: f64_round_pos_code) (simp_all add: f64_round_def)
qed

end
