(* ===== verification/Link.thy ===== *)
theory Link
  imports Node Float64
begin

text \<open>
  A unidirectional link, \<^verbatim>\<open>in-memory-network/src/network/link.rs\<close>: the pacer that keeps one packet
  at a time on the wire, the packets in flight, the channel of packets that want to be sent, and
  the status. \<^verbatim>\<open>sleep_until_ready_to_send\<close> suspends the calling task, so its body is part of the
  link task of the network theory; everything synchronous is here.

  The lemmas bound the pacer's floating-point computation: a link never sends faster than its
  bandwidth, and never wastes more than a millisecond per packet.
\<close>

section \<open>The packet pacer\<close>

record packet_pacer =
  pp_bandwidth_bps :: f64
  pp_last_send :: "instant option"

definition pacer_new :: "nat \<Rightarrow> packet_pacer" where
  "pacer_new bandwidth_bps =
     \<lparr>pp_bandwidth_bps = f64_round (of_nat bandwidth_bps), pp_last_send = None\<rparr>"

definition can_send :: "instant \<Rightarrow> packet_pacer \<Rightarrow> bool" where
  "can_send now p = (case pp_last_send p of None \<Rightarrow> True | Some send_done \<Rightarrow> send_done \<le> now)"

definition duration_until_can_send :: "instant \<Rightarrow> packet_pacer \<Rightarrow> duration" where
  "duration_until_can_send now p =
     (case pp_last_send p of None \<Rightarrow> 0 | Some send_done \<Rightarrow> send_done - now)"

text \<open>
  \<^verbatim>\<open>(bits as f64 / bandwidth * 1000.0).ceil() as u64\<close>: a division by a zero bandwidth gives infinity
  (or NaN for no bits), and the cast saturates (or gives zero).
\<close>

definition send_duration_ms :: "nat \<Rightarrow> f64 \<Rightarrow> nat" where
  "send_duration_ms packet_size_bits bandwidth_bps =
     (let bits = f64_round (of_nat packet_size_bits)
      in if bandwidth_bps = 0 then (if bits = 0 then 0 else u64_max)
         else min u64_max (nat \<lceil>f64_round (f64_round (bits / bandwidth_bps) * 1000)\<rceil>))"

definition track_send :: "instant \<Rightarrow> nat \<Rightarrow> packet_pacer \<Rightarrow> packet_pacer" where
  "track_send now packet_size_bytes p =
     (let packet_size_bits = saturating_mul64 packet_size_bytes 8
      in p\<lparr>pp_last_send :=
             Some (now + millis (send_duration_ms packet_size_bits (pp_bandwidth_bps p)))\<rparr>)"

section \<open>The link\<close>

record packet_anomalies =
  pa_congestion_experienced :: bool
  pa_extra_delay :: duration

text \<open>
  A packet offered to a link. The \<^verbatim>\<open>Arc\<close>s to nodes and links are their indices in the network's
  store, the two ends of the \<^verbatim>\<open>watch\<close> channel are its index there.
\<close>

record outgoing_packet =
  op_in_node_since :: instant
  op_src_node :: nat
  op_data :: in_transit_data
  op_anomalies :: packet_anomalies
  op_preferred_links :: "nat list"
  op_handled :: nat

record network_link =
  nl_id :: id
  nl_target :: ip_addr
  nl_in_transit :: inbound_queue
  nl_outgoing_queue :: "outgoing_packet list"
  nl_pacer :: packet_pacer
  nl_semaphore :: nat
  nl_status :: status
  nl_last_down :: "instant option"
  nl_delay :: duration
  nl_bandwidth_bps :: nat
  nl_congestion_event_ratio :: f64
  nl_extra_delay :: duration
  nl_extra_delay_ratio :: f64
  nl_channels :: nat

definition link_new :: "network_link_spec \<Rightarrow> network_link" where
  "link_new l =
     \<lparr>nl_id = ls_id l, nl_target = ls_target l, nl_in_transit = inbound_queue_new,
      nl_outgoing_queue = [], nl_pacer = pacer_new (ls_bandwidth_bps l), nl_semaphore = 1,
      nl_status = Up, nl_last_down = None, nl_delay = ls_delay l,
      nl_bandwidth_bps = ls_bandwidth_bps l,
      nl_congestion_event_ratio = ls_congestion_event_ratio l,
      nl_extra_delay = ls_extra_delay l, nl_extra_delay_ratio = ls_extra_delay_ratio l,
      nl_channels = 0\<rparr>"

definition was_down_after :: "instant \<Rightarrow> network_link \<Rightarrow> bool" where
  "was_down_after instant l =
     (case nl_last_down l of Some down \<Rightarrow> instant < down | None \<Rightarrow> False)"

definition link_update_status :: "update_link_status \<Rightarrow> instant \<Rightarrow> network_link \<Rightarrow> network_link" where
  "link_update_status update now l =
     (case (nl_status l, update) of
        (Down t, LinkDown) \<Rightarrow> l\<lparr>nl_status := Down t\<rparr>
      | (Up, LinkUp) \<Rightarrow> l\<lparr>nl_status := Up\<rparr>
      | (Up, LinkDown) \<Rightarrow>
          l\<lparr>nl_status := Down (nl_channels l), nl_channels := Suc (nl_channels l),
            nl_last_down := Some now\<rparr>
      | (Down _, LinkUp) \<Rightarrow> l\<lparr>nl_status := Up\<rparr>)"

definition ecn_capable :: "ecn_codepoint option \<Rightarrow> bool" where
  "ecn_capable e = (case e of None \<Rightarrow> False | Some c \<Rightarrow> ecn_bits c = 2 \<or> ecn_bits c = 1)"

definition mark_congestion :: "in_transit_data \<Rightarrow> in_transit_data" where
  "mark_congestion d = d\<lparr>pkt_transmit := (pkt_transmit d)\<lparr>tx_ecn := Some Ce\<rparr>\<rparr>"

definition link_send ::
  "instant \<Rightarrow> in_transit_data \<Rightarrow> packet_anomalies \<Rightarrow> network_link \<times> node \<times> tracer \<Rightarrow>
   panic + network_link \<times> node \<times> tracer" where
  "link_send now data anomalies s =
     (case s of (l, src_node, t) \<Rightarrow>
        if \<not> can_send now (nl_pacer l) then Inl (LinkCannotSend (nl_id l))
        else if nl_status l \<noteq> Up then Inl (LinkIsDown (nl_id l))
        else if pa_congestion_experienced anomalies \<and> \<not> ecn_capable (tx_ecn (pkt_transmit data))
        then Inl (EcnUnsupported (pkt_id data))
        else
          let data' = (if pa_congestion_experienced anomalies then mark_congestion data else data);
              t' = track_packet_in_transit now (nd_id src_node) (nl_id l) data' t;
              pacer' = track_send now (pkt_size data') (nl_pacer l);
              node' = src_node\<lparr>nd_outbound_buffer :=
                        release (nd_outbound_buffer src_node) (pkt_size data')\<rparr>;
              queue' = fst (queue_send now (nl_in_transit l) data'
                             (nl_delay l + pa_extra_delay anomalies))
          in Inr (l\<lparr>nl_pacer := pacer', nl_in_transit := queue'\<rparr>, node', t'))"

text \<open>
  \<^verbatim>\<open>try_acquire\<close> takes a permit and drops it at once; it fails when none is left.
\<close>

definition has_bandwidth_available :: "instant \<Rightarrow> network_link \<Rightarrow> bool" where
  "has_bandwidth_available now l =
     (let packets_are_waiting_for_bandwidth = (nl_semaphore l = 0)
      in if packets_are_waiting_for_bandwidth \<or> nl_status l \<noteq> Up then False
         else can_send now (nl_pacer l))"

definition next_delivered_packets :: "nat \<Rightarrow> next_packet_delivery" where
  "next_delivered_packets max_transmits = next_packet_delivery_new max_transmits"

section \<open>Status of a link\<close>

definition turn_link :: "bool \<Rightarrow> instant \<Rightarrow> network_link \<Rightarrow> network_link" where
  "turn_link up = link_update_status (if up then LinkUp else LinkDown)"

interpretation link_sm: status_machine nl_status nl_channels turn_link
  by unfold_locales (auto simp: turn_link_def link_update_status_def split: status.splits)

lemma link_update_status_frame [simp]:
  "nl_id (link_update_status u now l) = nl_id l"
  "nl_target (link_update_status u now l) = nl_target l"
  "nl_in_transit (link_update_status u now l) = nl_in_transit l"
  "nl_outgoing_queue (link_update_status u now l) = nl_outgoing_queue l"
  "nl_pacer (link_update_status u now l) = nl_pacer l"
  "nl_semaphore (link_update_status u now l) = nl_semaphore l"
  "nl_delay (link_update_status u now l) = nl_delay l"
  "nl_bandwidth_bps (link_update_status u now l) = nl_bandwidth_bps l"
  by (auto simp: link_update_status_def split: status.splits update_link_status.splits)

lemma link_status_update: "nl_status (link_update_status u now l) = Up \<longleftrightarrow> u = LinkUp"
  by (auto simp: link_update_status_def split: status.splits update_link_status.splits)

definition link_updates :: "(update_link_status \<times> instant) list \<Rightarrow> network_link \<Rightarrow> network_link" where
  "link_updates us l = fold (\<lambda>(u, t). link_update_status u t) us l"

lemma link_updates_turns: "link_updates us l = link_sm.turns (map (\<lambda>(u, t). (u = LinkUp, t)) us) l"
proof (induction us arbitrary: l)
  case (Cons u us)
  obtain s t where u: "u = (s, t)" by (cases u)
  have "link_update_status s t l = turn_link (s = LinkUp) t l"
    by (cases s) (simp_all add: turn_link_def)
  with u Cons.IH show ?case by (simp add: link_updates_def)
qed (simp add: link_updates_def)

text \<open>
  C16. No task that waits for a link is forgotten: the notifier it took while the link was down fires
  as soon as an update turns the link up, and stays fired whatever updates follow.
\<close>

theorem link_waiter_is_notified:
  assumes "notifier (nl_status (link_updates before (link_new spec))) = Some t"
    and "(LinkUp, now) \<in> set after"
  shows "notified t (nl_status (link_updates (before @ after) (link_new spec)))"
proof -
  let ?l = "link_updates before (link_new spec)"
  have "link_sm.fresh (link_new spec)" by (simp add: link_sm.fresh_def link_new_def)
  then have "link_sm.fresh ?l" by (simp add: link_updates_turns link_sm.fresh_turns)
  moreover have "(True, now) \<in> set (map (\<lambda>(u, t). (u = LinkUp, t)) after)"
    using assms(2) by force
  ultimately have "notified t (nl_status (link_sm.turns (map (\<lambda>(u, t). (u = LinkUp, t)) after) ?l))"
    using assms(1) by (intro link_sm.waiter_is_notified)
  then show ?thesis
    by (simp add: link_updates_def flip: link_updates_turns)
qed

definition some_link :: network_link_spec where
  "some_link =
     \<lparr>ls_id = ''l'', ls_source = V4 1, ls_target = V4 2, ls_delay = 0, ls_bandwidth_bps = 1,
      ls_congestion_event_ratio = 0, ls_extra_delay = 0, ls_extra_delay_ratio = 0\<rparr>"

theorem link_waiter_is_notified_witness:
  "notifier (nl_status (link_updates [(LinkDown, 5)] (link_new some_link))) = Some 0 \<and>
   notified 0 (nl_status (link_updates ([(LinkDown, 5)] @ [(LinkUp, 7), (LinkDown, 9)]) (link_new some_link)))"
proof -
  have "notifier (nl_status (link_updates [(LinkDown, 5)] (link_new some_link))) = Some 0"
    by (simp add: link_updates_def link_new_def link_update_status_def notifier_def)
  with link_waiter_is_notified [OF this, of 7 "[(LinkUp, 7), (LinkDown, 9)]"] show ?thesis by simp
qed

text \<open>A packet sent strictly before an outage that started later is recognised as lost.\<close>

lemma was_down_after_update:
  "nl_status l = Up \<Longrightarrow> was_down_after sent (link_update_status LinkDown now l) \<longleftrightarrow> sent < now"
  by (simp add: was_down_after_def link_update_status_def)

section \<open>The pacer never exceeds the bandwidth\<close>

lemma scaled_round_bounds:
  assumes "0 < x" and "(y::rat) = f64_round (f64_round x * 1000)"
  shows "1000 * x - 1000 * x * 2 / 2 ^ 53 \<le> y" "y \<le> 1000 * x + 1000 * x * 3 / 2 ^ 53"
proof -
  have e1: "\<bar>f64_round x - x\<bar> \<le> x / 2 ^ 53" using f64_round_error [OF assms(1)] .
  then have lo: "x - x / 2 ^ 53 \<le> f64_round x" and hi: "f64_round x \<le> x + x / 2 ^ 53"
    unfolding abs_le_iff by linarith+
  from lo assms(1) have pos: "0 < f64_round x" by (simp add: field_simps)
  then have "\<bar>y - f64_round x * 1000\<bar> \<le> f64_round x * 1000 / 2 ^ 53"
    using f64_round_error [of "f64_round x * 1000"] assms(2) by simp
  then have "f64_round x * 1000 - f64_round x * 1000 / 2 ^ 53 \<le> y"
    and "y \<le> f64_round x * 1000 + f64_round x * 1000 / 2 ^ 53"
    unfolding abs_le_iff by linarith+
  then show "1000 * x - 1000 * x * 2 / 2 ^ 53 \<le> y" "y \<le> 1000 * x + 1000 * x * 3 / 2 ^ 53"
    using lo hi assms(1) by (simp_all add: field_simps)
qed

lemma scaled_round_product:
  fixes bits bw :: nat
  assumes "0 < bits" and "0 < bw" and "1000 * rat_of_nat bits < 2 ^ 51"
    and "y = f64_round (f64_round (of_nat bits / of_nat bw) * 1000)"
  shows "0 < y" and "1000 * rat_of_nat bits - 1 < y * of_nat bw"
    and "y * of_nat bw < 1000 * rat_of_nat bits + 1"
proof -
  define x :: rat where "x = of_nat bits / of_nat bw"
  have x: "0 < x" and xb: "x * of_nat bw = of_nat bits" using assms(1,2) by (simp_all add: x_def)
  note yb = scaled_round_bounds [OF x assms(4) [folded x_def]]
  show "0 < y" using yb(1) x by (simp add: field_simps)
  have bw1: "(1::rat) \<le> of_nat bw" using assms(2) by simp
  have "(1000 * x - 1000 * x * 2 / 2 ^ 53) * of_nat bw \<le> y * of_nat bw"
    using yb(1) bw1 by (intro mult_right_mono) auto
  also have "(1000 * x - 1000 * x * 2 / 2 ^ 53) * of_nat bw =
      1000 * rat_of_nat bits - 1000 * rat_of_nat bits * 2 / 2 ^ 53"
    by (simp add: algebra_simps flip: xb)
  finally show "1000 * rat_of_nat bits - 1 < y * of_nat bw" using assms(3) by simp
  have "y * of_nat bw \<le> (1000 * x + 1000 * x * 3 / 2 ^ 53) * of_nat bw"
    using yb(2) bw1 by (intro mult_right_mono) auto
  also have "\<dots> = 1000 * rat_of_nat bits + 1000 * rat_of_nat bits * 3 / 2 ^ 53"
    by (simp add: algebra_simps flip: xb)
  finally show "y * of_nat bw < 1000 * rat_of_nat bits + 1" using assms(3) by simp
qed

lemma send_duration_bounds:
  assumes "0 < bits" and "0 < bw" and "bits * 1000 < 2 ^ 51" and "bw < 2 ^ 53"
  shows "bits * 1000 \<le> send_duration_ms bits (f64_round (of_nat bw)) * bw"
    and "(send_duration_ms bits (f64_round (of_nat bw)) - 1) * bw \<le> bits * 1000"
proof -
  define y where "y = f64_round (f64_round (of_nat bits / of_nat bw) * 1000)"
  define k where "k = nat \<lceil>y\<rceil>"
  have r: "f64_round (of_nat bits) = of_nat bits" "f64_round (of_nat bw) = of_nat bw"
    using assms by (simp_all add: f64_round_of_nat)
  have small: "1000 * rat_of_nat bits < 2 ^ 51"
    using assms(3) by (metis mult.commute of_nat_less_iff of_nat_mult of_nat_numeral of_nat_power)
  note yp = scaled_round_product [OF assms(1,2) small y_def]
  have "int k = \<lceil>y\<rceil>" using yp(1) by (simp add: k_def)
  then have k: "y \<le> rat_of_nat k" "rat_of_nat k < y + 1"
    by (metis of_int_of_nat_eq le_of_int_ceiling, metis of_int_of_nat_eq ceiling_correct diff_less_eq)
  have bw1: "(1::rat) \<le> of_nat bw" using assms(2) by simp
  have kbw: "y * of_nat bw \<le> of_nat (k * bw)" "of_nat (k * bw) \<le> y * of_nat bw + of_nat bw"
    using k bw1 by (auto simp: mult_right_mono less_imp_le distrib_right [symmetric])
      (metis distrib_right less_imp_le mult_1 mult_right_mono of_nat_0_le_iff)
  have "y \<le> y * of_nat bw" using bw1 yp(1) by simp
  with k(2) yp(3) small have "rat_of_nat k < rat_of_nat (2 ^ 52)" by simp
  then have "k < 2 ^ 52" using of_nat_less_iff by blast
  then have s: "send_duration_ms bits (f64_round (of_nat bw)) = k"
    using assms(2) by (simp add: send_duration_ms_def r Let_def k_def y_def u64_max_def)
  have "rat_of_nat (bits * 1000) < of_nat (k * bw + 1)" using yp(2) kbw(1) by simp
  then have "bits * 1000 < k * bw + 1" using of_nat_less_iff by blast
  then show "bits * 1000 \<le> send_duration_ms bits (f64_round (of_nat bw)) * bw" by (simp add: s)
  have "rat_of_nat (k * bw) < of_nat (bits * 1000 + bw + 1)" using yp(3) kbw(2) by simp
  then have "k * bw < bits * 1000 + bw + 1" using of_nat_less_iff by blast
  then show "(send_duration_ms bits (f64_round (of_nat bw)) - 1) * bw \<le> bits * 1000"
    by (simp add: s diff_mult_distrib)
qed

lemma pacer_new_code [code]:
  "pacer_new bandwidth_bps =
     \<lparr>pp_bandwidth_bps = (if bandwidth_bps < 2 ^ 53 then of_nat bandwidth_bps
                          else f64_round (of_nat bandwidth_bps)),
      pp_last_send = None\<rparr>"
  by (simp add: pacer_new_def f64_round_of_nat)

text \<open>A packet that needs less than a millisecond of wire time takes one.\<close>

lemma send_duration_ms_short:
  assumes "0 < bits" and "bits * 1000 < bw" and "bits * 1000 < 2 ^ 51" and "bw < 2 ^ 53"
  shows "send_duration_ms bits (of_nat bw) = 1"
proof -
  let ?k = "send_duration_ms bits (f64_round (of_nat bw))"
  have "bits * 1000 \<le> ?k * bw" "(?k - 1) * bw \<le> bits * 1000"
    using send_duration_bounds [of bits bw] assms by auto
  then have "?k \<noteq> 0" "(?k - 1) * bw < 1 * bw" using assms(1,2) by (metis less_numeral_extra(3) mult_0 mult_is_0 le_zero_eq zero_neq_numeral, linarith)
  then have "?k = 1" by (simp only: mult_less_cancel2) simp
  with assms(4) show ?thesis by (simp add: f64_round_of_nat)
qed

lemma send_duration_ms_code [code]:
  "send_duration_ms bits bw =
     (let b = nat \<lfloor>bw\<rfloor>
      in if bw = of_nat b \<and> 0 < bits \<and> bits * 1000 < b \<and> bits * 1000 < 2 ^ 51 \<and> b < 2 ^ 53 then 1
         else let x = f64_round (of_nat bits)
              in if bw = 0 then (if x = 0 then 0 else u64_max)
                 else min u64_max (nat \<lceil>f64_round (f64_round (x / bw) * 1000)\<rceil>))"
proof (cases "bw = of_nat (nat \<lfloor>bw\<rfloor>) \<and> 0 < bits \<and> bits * 1000 < nat \<lfloor>bw\<rfloor> \<and>
    bits * 1000 < 2 ^ 51 \<and> nat \<lfloor>bw\<rfloor> < 2 ^ 53")
  case True
  then have "send_duration_ms bits bw = 1"
    using send_duration_ms_short [of bits "nat \<lfloor>bw\<rfloor>"] by metis
  with True show ?thesis unfolding Let_def by (simp only: if_True simp_thms)
next
  case False
  then show ?thesis unfolding Let_def send_duration_ms_def by (simp only: if_False)
qed

lemma pacer_frame [simp]:
  "pp_bandwidth_bps (track_send now n p) = pp_bandwidth_bps p"
  "pp_bandwidth_bps (pacer_new bw) = f64_round (of_nat bw)"
  by (simp_all add: track_send_def pacer_new_def Let_def)

lemma can_send_mono: "can_send now p \<Longrightarrow> now \<le> now' \<Longrightarrow> can_send now' p"
  by (auto simp: can_send_def split: option.splits)

lemma can_send_after_wait: "can_send (now + duration_until_can_send now p) p"
  by (auto simp: can_send_def duration_until_can_send_def split: option.splits)

text \<open>The wire time of a packet, in bits per second against nanoseconds.\<close>

lemma can_send_spacing:
  assumes "0 < n" and "n * 8000 < 2 ^ 51" and "0 < bw" and "bw < 2 ^ 53"
    and "pp_bandwidth_bps p = f64_round (of_nat bw)" and "can_send t (track_send now n p)"
  shows "now \<le> t" and "n * 8 * 1000000000 \<le> (t - now) * bw"
proof -
  have bits: "saturating_mul64 n 8 = n * 8"
    using assms(2) by (simp add: wrap_simps)
  let ?ms = "send_duration_ms (n * 8) (f64_round (of_nat bw))"
  have t: "now + ?ms * 1000000 \<le> t"
    using assms(5,6) by (simp add: can_send_def track_send_def bits Let_def millis_def)
  then show "now \<le> t" by simp
  have "n * 8 * 1000 \<le> ?ms * bw" using assms by (intro send_duration_bounds) auto
  then have "n * 8 * 1000 * 1000000 \<le> ?ms * bw * 1000000" by (rule mult_le_mono1)
  also have "\<dots> = ?ms * 1000000 * bw" by simp
  also have "\<dots> \<le> (t - now) * bw" using t by (intro mult_le_mono1) simp
  finally show "n * 8 * 1000000000 \<le> (t - now) * bw" by simp
qed

text \<open>A sequence of sends, each at an instant the pacer allows.\<close>

fun paced :: "packet_pacer \<Rightarrow> (instant \<times> nat) list \<Rightarrow> bool" where
  "paced p [] = True"
| "paced p ((t, n) # sends) = (can_send t p \<and> paced (track_send t n p) sends)"

text \<open>
  C14. However the sends are spread, what a link puts on the wire between the first and the last of
  them (the last one not counted) fits its bandwidth.
\<close>

theorem paced_bandwidth:
  assumes "paced p ((t0, n0) # sends @ [(t1, n1)])" and "pp_bandwidth_bps p = f64_round (of_nat bw)"
    and "0 < bw" and "bw < 2 ^ 53"
    and "\<forall>(t, n) \<in> set ((t0, n0) # sends). 0 < n \<and> n * 8000 < 2 ^ 51"
  shows "t0 \<le> t1 \<and> sum_list (map (\<lambda>(t, n). n * 8) ((t0, n0) # sends)) * 1000000000 \<le> (t1 - t0) * bw"
  using assms
proof (induction sends arbitrary: p t0 n0)
  case Nil
  then show ?case using can_send_spacing [of n0 bw p t1 t0] by auto
next
  case (Cons s sends)
  obtain t n where s: "s = (t, n)" by (cases s)
  have "t0 \<le> t" "n0 * 8 * 1000000000 \<le> (t - t0) * bw"
    using can_send_spacing [of n0 bw p t t0] Cons.prems by (auto simp: s)
  moreover have ih: "t \<le> t1 \<and>
      sum_list (map (\<lambda>(t, n). n * 8) ((t, n) # sends)) * 1000000000 \<le> (t1 - t) * bw"
    using Cons.prems by (intro Cons.IH [of "track_send t0 n0 p"]) (auto simp: s)
  moreover have "(t - t0) * bw + (t1 - t) * bw = (t1 - t0) * bw"
    using \<open>t0 \<le> t\<close> ih by (simp flip: distrib_right)
  ultimately show ?case by (simp add: s distrib_right)
qed

theorem paced_bandwidth_witness:
  "paced (pacer_new 8000) ([(0, 1000)] @ [(1000000000, 5)]) \<and>
   sum_list (map (\<lambda>(t, n). n * 8) [(0, 1000)]) * 1000000000 \<le> (1000000000 - 0) * (8000::nat)"
proof -
  have "paced (pacer_new 8000) ((0, 1000) # [] @ [(1000000000, 5)])" by code_simp
  from paced_bandwidth [OF this, of 8000] this show ?thesis by simp
qed

text \<open>
  C15. The wire time of a packet in whole milliseconds, computed in floating point, is at least the
  exact one and exceeds it by at most a millisecond.
\<close>

theorem wire_time_rounds_up:
  assumes "0 < bits" and "0 < bw" and "bits * 1000 < 2 ^ 51" and "bw < 2 ^ 53"
  shows "bits * 1000 \<le> send_duration_ms bits (pp_bandwidth_bps (pacer_new bw)) * bw \<and>
    (send_duration_ms bits (pp_bandwidth_bps (pacer_new bw)) - 1) * bw \<le> bits * 1000"
  using send_duration_bounds [OF assms] by (simp add: pacer_new_def)

theorem wire_time_rounds_up_witness:
  "1228 * 8 * 1000 \<le> send_duration_ms (1228 * 8) (pp_bandwidth_bps (pacer_new 8000)) * 8000 \<and>
   (send_duration_ms (1228 * 8) (pp_bandwidth_bps (pacer_new 8000)) - 1) * 8000 \<le> 1228 * 8 * 1000"
  by (rule wire_time_rounds_up) simp_all

text \<open>
  It can exceed it by the whole millisecond: 403 bytes take exactly 2015 ms at 1600 bits per second,
  but the quotient is rounded up before it is multiplied.
\<close>

lemma wire_time_extra_millisecond:
  "403 * 8 * 1000 = 2015 * (1600::nat) \<and> send_duration_ms (403 * 8) (pp_bandwidth_bps (pacer_new 1600)) = 2016"
  by code_simp

section \<open>Sending\<close>

lemma mark_congestion_simps [simp]:
  "pkt_id (mark_congestion d) = pkt_id d" "pkt_number (mark_congestion d) = pkt_number d"
  "pkt_size (mark_congestion d) = pkt_size d"
  "tx_destination (pkt_transmit (mark_congestion d)) = tx_destination (pkt_transmit d)"
  "tx_contents (pkt_transmit (mark_congestion d)) = tx_contents (pkt_transmit d)"
  by (simp_all add: mark_congestion_def packet_size_def)

text \<open>A link that has bandwidth available passes both sanity checks of \<open>send\<close>.\<close>

lemma has_bandwidth_available_iff:
  "has_bandwidth_available now l \<longleftrightarrow>
     0 < nl_semaphore l \<and> nl_status l = Up \<and> can_send now (nl_pacer l)"
  by (auto simp: has_bandwidth_available_def)

lemma link_send_InrE:
  assumes "link_send now data an (l, n, t) = Inr (l', n', t')"
  obtains data' where "data' = data \<or> pa_congestion_experienced an \<and> data' = mark_congestion data"
    "can_send now (nl_pacer l)" "nl_status l = Up"
    "l' = l\<lparr>nl_pacer := track_send now (pkt_size data) (nl_pacer l),
            nl_in_transit := fst (queue_send now (nl_in_transit l) data'
                                    (nl_delay l + pa_extra_delay an))\<rparr>"
    "n' = n\<lparr>nd_outbound_buffer := release (nd_outbound_buffer n) (pkt_size data)\<rparr>"
    "t' = track_packet_in_transit now (nd_id n) (nl_id l) data t"
  using assms
  by (auto simp: link_send_def Let_def track_packet_in_transit_def split: if_splits)

lemma link_send_ok:
  assumes "can_send now (nl_pacer l)" and "nl_status l = Up"
    and "pa_congestion_experienced an \<longrightarrow> ecn_capable (tx_ecn (pkt_transmit data))"
  shows "\<exists>r. link_send now data an (l, n, t) = Inr r"
  using assms by (simp add: link_send_def Let_def)

end
