(* ===== verification/Network.thy ===== *)
theory Network
  imports Link
begin

text \<open>
  The in-memory network, \<^verbatim>\<open>in-memory-network/src/network/mod.rs\<close>: initialisation, events, routing,
  forwarding, and the background tasks.

  The \<^verbatim>\<open>Arc\<close>s to nodes and links are indices into two lists; the random generator
  (\<^verbatim>\<open>fastrand::Rng\<close>, outside the repository) is a parameter, a pair of functions on its state. Each
  background task is a function that runs the task from the await point it is suspended at to
  the next one; whatever runs between two await points is atomic, because the executor is
  single-threaded. Awaiting a channel, a timer, a notifier or a yield are the phases of a task.
  \<open>sim_step\<close> runs one task, or lets time pass, or performs a call of the application. Panics are
  error values; a run is followed up to its first panic.
\<close>

section \<open>State\<close>

record 'r rng_ops =
  rng_f64 :: "'r \<Rightarrow> f64 \<times> 'r"
  rng_u128 :: "'r \<Rightarrow> uuid \<times> 'r"

record 'r network =
  nw_nodes :: "node list"
  nw_links :: "network_link list"
  nw_nodes_by_addr :: "ip_addr \<rightharpoonup> nat"
  nw_nodes_by_id :: "id \<rightharpoonup> nat"
  nw_routes_by_addr :: "ip_addr \<rightharpoonup> route list"
  nw_links_by_addr :: "ip_addr \<times> ip_addr \<rightharpoonup> nat"
  nw_links_by_id :: "id \<rightharpoonup> nat"
  nw_tracer :: tracer
  nw_rng :: 'r
  nw_next_transmit_number :: nat

abbreviation put_node :: "nat \<Rightarrow> node \<Rightarrow> 'r network \<Rightarrow> 'r network" where
  "put_node i n nw \<equiv> nw\<lparr>nw_nodes := (nw_nodes nw)[i := n]\<rparr>"

abbreviation put_link :: "nat \<Rightarrow> network_link \<Rightarrow> 'r network \<Rightarrow> 'r network" where
  "put_link i l nw \<equiv> nw\<lparr>nw_links := (nw_links nw)[i := l]\<rparr>"

abbreviation put_tracer :: "tracer \<Rightarrow> 'r network \<Rightarrow> 'r network" where
  "put_tracer t nw \<equiv> nw\<lparr>nw_tracer := t\<rparr>"

section \<open>Initialisation\<close>

definition routes_of_spec :: "network_spec \<Rightarrow> ip_addr \<rightharpoonup> route list" where
  "routes_of_spec spec =
     fold (\<lambda>i m. fold (\<lambda>a m. m(as_ip_addr a \<mapsto> sort_key cost (ni_routes i))) (ni_addresses i) m)
       (concat (map ns_interfaces (spec_nodes spec))) Map.empty"

type_synonym node_table = "node list \<times> (ip_addr \<rightharpoonup> nat) \<times> (id \<rightharpoonup> nat)"

definition add_host :: "node_table \<Rightarrow> network_node_spec \<Rightarrow> init_error + node_table" where
  "add_host tab host =
     (case tab of (nodes, by_addr, by_id) \<Rightarrow>
       bind_ok (node_host host) (\<lambda>(h, endpoint).
         let ip = sa_ip (ue_addr endpoint); i = length nodes
         in if by_addr ip \<noteq> None then Inl (DuplicateEndpointAddress ip)
            else Inr (nodes @ [h], by_addr(ip \<mapsto> i), by_id(nd_id h \<mapsto> i))))"

type_synonym link_table =
  "network_link list \<times> (ip_addr \<times> ip_addr \<rightharpoonup> nat) \<times> (id \<rightharpoonup> nat)"

definition add_network_link :: "link_table \<Rightarrow> network_link_spec \<Rightarrow> init_error + link_table" where
  "add_network_link tab l =
     (case tab of (links, by_addr, by_id) \<Rightarrow>
        case by_addr (ls_source l, ls_target l) of
          Some j \<Rightarrow> Inl (ConflictingLinks (ls_id l) (nl_id (links ! j)) (ls_source l) (ls_target l))
        | None \<Rightarrow>
            if by_id (ls_id l) \<noteq> None then Inl (DuplicateLinkId (ls_id l))
            else Inr (links @ [link_new l], by_addr((ls_source l, ls_target l) \<mapsto> length links),
                      by_id(ls_id l \<mapsto> length links)))"

definition add_router_address ::
  "node list \<Rightarrow> node \<Rightarrow> nat \<Rightarrow> (ip_addr \<rightharpoonup> nat) \<Rightarrow> ip_addr \<Rightarrow> init_error + (ip_addr \<rightharpoonup> nat)" where
  "add_router_address nodes router i by_addr addr =
     (case by_addr addr of
        Some j \<Rightarrow> Inl (ConflictingNodes (nd_id router) (nd_id ((nodes @ [router]) ! j)) addr)
      | None \<Rightarrow> Inr (by_addr(addr \<mapsto> i)))"

definition add_router :: "node_table \<Rightarrow> network_node_spec \<Rightarrow> init_error + node_table" where
  "add_router tab r =
     (case tab of (nodes, by_addr, by_id) \<Rightarrow>
       bind_ok (node_router r) (\<lambda>router.
         let i = length nodes
         in bind_ok (fold_ok (add_router_address nodes router i) by_addr (nd_addresses router))
              (\<lambda>by_addr'. Inr (nodes @ [router], by_addr', by_id(nd_id router \<mapsto> i)))))"

definition build_network ::
  "network_spec \<Rightarrow> tracer \<Rightarrow> 'r \<Rightarrow> init_error + 'r network" where
  "build_network spec t rng =
     (let hosts = filter (\<lambda>n. ns_kind n = Host) (spec_nodes spec);
          routers = filter (\<lambda>n. ns_kind n \<noteq> Host) (spec_nodes spec)
      in if length hosts < 2 then Inl (TooFewHosts (length hosts))
         else bind_ok (fold_ok add_host ([], Map.empty, Map.empty) hosts) (\<lambda>host_tab.
              bind_ok (fold_ok add_network_link ([], Map.empty, Map.empty) (spec_links spec))
                (\<lambda>(links, links_by_addr, links_by_id).
              bind_ok (fold_ok add_router host_tab routers) (\<lambda>(nodes, nodes_by_addr, nodes_by_id).
              Inr \<lparr>nw_nodes = nodes, nw_links = links, nw_nodes_by_addr = nodes_by_addr,
                   nw_nodes_by_id = nodes_by_id, nw_routes_by_addr = routes_of_spec spec,
                   nw_links_by_addr = links_by_addr, nw_links_by_id = links_by_id,
                   nw_tracer = t, nw_rng = rng, nw_next_transmit_number = 0\<rparr>))))"

section \<open>Events\<close>

definition process_node_event :: "instant \<Rightarrow> node_event_payload \<Rightarrow> 'r network \<Rightarrow> 'r network" where
  "process_node_event now event nw =
     (case nw_nodes_by_id nw (nep_node_id event) of
        None \<Rightarrow> nw
      | Some i \<Rightarrow>
          let n = nw_nodes nw ! i;
              n1 = (case nep_status event of None \<Rightarrow> n | Some status \<Rightarrow> node_update_status status n);
              n2 = (if nep_clear_buffer event then clear_buffer now n1 else n1)
          in put_tracer (track_node_event now event (nw_tracer nw)) (put_node i n2 nw))"

definition process_link_event :: "instant \<Rightarrow> link_event_payload \<Rightarrow> 'r network \<Rightarrow> 'r network" where
  "process_link_event now event nw =
     (case nw_links_by_id nw (lep_link_id event) of
        None \<Rightarrow> nw
      | Some i \<Rightarrow>
          let l = nw_links nw ! i;
              l1 = (case lep_status event of None \<Rightarrow> l | Some status \<Rightarrow> link_update_status status now l)
          in put_tracer (track_link_event now event (nw_tracer nw)) (put_link i l1 nw))"

definition process_event :: "instant \<Rightarrow> network_event_kind \<Rightarrow> 'r network \<Rightarrow> 'r network" where
  "process_event now kind nw =
     (case kind of LinkEvent e \<Rightarrow> process_link_event now e nw | NodeEvent e \<Rightarrow> process_node_event now e nw)"

section \<open>Routing\<close>

text \<open>A walk passes its state and the link to \<open>walk_fn\<close>, which may break with a value.\<close>

fun walk :: "('s \<Rightarrow> nat \<Rightarrow> 's \<times> 't option) \<Rightarrow> 's \<Rightarrow> nat list \<Rightarrow> 's \<times> 't option" where
  "walk walk_fn s [] = (s, None)"
| "walk walk_fn s (l # ls) =
     (case walk_fn s l of (s', Some v) \<Rightarrow> (s', Some v) | (s', None) \<Rightarrow> walk walk_fn s' ls)"

definition direct_links :: "'r network \<Rightarrow> node \<Rightarrow> ip_addr \<Rightarrow> nat list" where
  "direct_links nw n dest = List.map_filter (\<lambda>a. nw_links_by_addr nw (a, dest)) (nd_addresses n)"

definition candidate_links :: "'r network \<Rightarrow> ip_addr \<Rightarrow> route list \<Rightarrow> ip_addr \<Rightarrow> nat list" where
  "candidate_links nw node_addr routes dest =
     List.map_filter (\<lambda>next_hop_addr. nw_links_by_addr nw (node_addr, next_hop_addr))
       (List.map_filter (\<lambda>r. next_hop_towards_destination r dest) routes)"

fun walk_routes ::
  "'r network \<Rightarrow> ip_addr \<Rightarrow> ('s \<Rightarrow> nat \<Rightarrow> 's \<times> 't option) \<Rightarrow> 's \<Rightarrow> ip_addr list \<Rightarrow>
   panic + 's \<times> 't option" where
  "walk_routes nw dest walk_fn s [] = Inr (s, None)"
| "walk_routes nw dest walk_fn s (node_addr # addrs) =
     (case nw_routes_by_addr nw node_addr of
        None \<Rightarrow> Inl NoSuchKey
      | Some routes \<Rightarrow>
          (case walk walk_fn s (candidate_links nw node_addr routes dest) of
             (s', Some v) \<Rightarrow> Inr (s', Some v)
           | (s', None) \<Rightarrow> walk_routes nw dest walk_fn s' addrs))"

definition walk_links ::
  "'r network \<Rightarrow> node \<Rightarrow> ip_addr \<Rightarrow> ('s \<Rightarrow> nat \<Rightarrow> 's \<times> 't option) \<Rightarrow> 's \<Rightarrow> panic + 's \<times> 't option"
where
  "walk_links nw n dest walk_fn s =
     (case walk walk_fn s (direct_links nw n dest) of
        (s', Some v) \<Rightarrow> Inr (s', Some v)
      | (s', None) \<Rightarrow> walk_routes nw dest walk_fn s' (nd_addresses n))"

definition has_route_to :: "'r network \<Rightarrow> node \<Rightarrow> ip_addr \<Rightarrow> panic + bool" where
  "has_route_to nw n dest =
     map_sum id (\<lambda>r. case snd r of None \<Rightarrow> False | Some b \<Rightarrow> b)
       (walk_links nw n dest (\<lambda>_ _. ((), Some True)) ())"

definition links_towards :: "'r network \<Rightarrow> node \<Rightarrow> ip_addr \<Rightarrow> panic + nat list" where
  "links_towards nw n dest =
     map_sum id fst
       (walk_links nw n dest (\<lambda>links link. (links @ [link], None :: unit option)) [])"

section \<open>Packets enter and cross the network\<close>

definition new_packet_id :: "'r rng_ops \<Rightarrow> 'r network \<Rightarrow> uuid \<times> 'r network" where
  "new_packet_id ops nw =
     (case rng_u128 ops (nw_rng nw) of (uuid, r) \<Rightarrow> (uuid, nw\<lparr>nw_rng := r\<rparr>))"

definition roll_f64 :: "'r rng_ops \<Rightarrow> 'r network \<Rightarrow> f64 \<times> 'r network" where
  "roll_f64 ops nw = (case rng_f64 ops (nw_rng nw) of (x, r) \<Rightarrow> (x, nw\<lparr>nw_rng := r\<rparr>))"

definition in_transit_data ::
  "'r rng_ops \<Rightarrow> nat \<Rightarrow> owned_transmit \<Rightarrow> 'r network \<Rightarrow> panic + in_transit_data \<times> 'r network" where
  "in_transit_data ops source transmit nw =
     (case new_packet_id ops nw of (uuid, nw1) \<Rightarrow>
       (let n = nw_nodes nw1 ! source in
        case nd_udp_endpoint n of
          None \<Rightarrow> Inl NotAHost
        | Some endpoint \<Rightarrow>
            Inr (\<lparr>pkt_id = uuid, pkt_duplicate = False, pkt_source_endpoint = ue_addr endpoint,
                  pkt_source_id = nd_id n, pkt_transmit = transmit,
                  pkt_number = nw_next_transmit_number nw1\<rparr>,
                 nw1\<lparr>nw_next_transmit_number := add64 (nw_next_transmit_number nw1) 1\<rparr>)))"

definition enqueue_at ::
  "instant \<Rightarrow> nat \<Rightarrow> buffered_packet \<Rightarrow> 'r network \<Rightarrow> panic + 'r network" where
  "enqueue_at now i packet nw =
     map_sum id (\<lambda>(n, t). put_tracer t (put_node i n nw))
       (enqueue_outbound now packet (nw_nodes nw ! i, nw_tracer nw))"

definition deliver_to_endpoint ::
  "instant \<Rightarrow> nat \<Rightarrow> udp_endpoint \<Rightarrow> in_transit_data \<Rightarrow> 'r network \<Rightarrow> 'r network" where
  "deliver_to_endpoint now i endpoint data nw =
     put_node i ((nw_nodes nw ! i)\<lparr>nd_udp_endpoint :=
       Some (endpoint\<lparr>ue_inbound := fst (queue_send now (ue_inbound endpoint) data 0)\<rparr>)\<rparr>) nw"

definition send_to_next_hop ::
  "'r rng_ops \<Rightarrow> instant \<Rightarrow> nat \<Rightarrow> in_transit_data \<Rightarrow> 'r network \<Rightarrow> panic + 'r network" where
  "send_to_next_hop ops now i data nw =
     (case roll_f64 ops nw of (roll, nw1) \<Rightarrow>
       (let n = nw_nodes nw1 ! i;
            loss = nif_packet_loss_ratio (nd_injected_failures n);
            dup = nif_packet_duplication_ratio (nd_injected_failures n);
            randomly_dropped = roll < loss;
            duplicate = (\<not> randomly_dropped \<and> roll < f64_round (loss + dup))
        in if randomly_dropped
           then Inr (put_tracer (track_dropped_randomly now (nd_id n) data (nw_tracer nw1)) nw1)
           else
             let packet = \<lparr>bp_in_node_since = now, bp_data = data\<rparr>
             in if \<not> duplicate then enqueue_at now i packet nw1
                else (case new_packet_id ops nw1 of (uuid, nw2) \<Rightarrow>
                  let duplicate_data = data\<lparr>pkt_id := uuid, pkt_duplicate := True\<rparr>
                  in bind_ok (enqueue_at now i packet nw2) (\<lambda>nw3.
                       enqueue_at now i \<lparr>bp_in_node_since = now, bp_data = duplicate_data\<rparr>
                         (put_tracer (track_injected_failures now (nd_id n) duplicate_data True 0 False
                            (nw_tracer nw3)) nw3)))))"

definition forward ::
  "'r rng_ops \<Rightarrow> instant \<Rightarrow> nat \<Rightarrow> in_transit_data \<Rightarrow> 'r network \<Rightarrow> panic + 'r network" where
  "forward ops now i data nw =
     (let n = nw_nodes nw ! i
      in if node_is_down n
         then Inr (put_tracer (track_dropped_on_arrival now (nd_id n) data (nw_tracer nw)) nw)
         else
           let nw1 = put_tracer (track_packet_in_node now (nd_id n) data (nw_tracer nw)) nw
           in case nd_udp_endpoint n of
                Some endpoint \<Rightarrow>
                  if ue_addr endpoint = tx_destination (pkt_transmit data)
                  then Inr (deliver_to_endpoint now i endpoint data nw1)
                  else send_to_next_hop ops now i data nw1
              | None \<Rightarrow> send_to_next_hop ops now i data nw1)"

definition generate_packet_anomalies ::
  "'r rng_ops \<Rightarrow> nat \<Rightarrow> 'r network \<Rightarrow> packet_anomalies \<times> 'r network" where
  "generate_packet_anomalies ops l nw =
     (let link = nw_links nw ! l in
      case roll_f64 ops nw of (roll1, nw1) \<Rightarrow>
        case roll_f64 ops nw1 of (roll2, nw2) \<Rightarrow>
          (\<lparr>pa_congestion_experienced = roll2 < nl_congestion_event_ratio link,
            pa_extra_delay = (if roll1 < nl_extra_delay_ratio link then nl_extra_delay link else 0)\<rparr>,
           nw2))"

section \<open>The background tasks\<close>

text \<open>
  The task of a link is between packets, or holds a packet while it waits: for the semaphore, for
  the pacer's deadline, for a notifier of the link or of the source node, or after a yield.
\<close>

datatype link_phase =
    Idle
  | Acquiring outgoing_packet
  | SleepBandwidth outgoing_packet instant
  | WaitLink outgoing_packet nat
  | WaitNode outgoing_packet nat
  | Yielded outgoing_packet

record 'r simulation =
  sim_now :: instant
  sim_start :: instant
  sim_network :: "'r network"
  sim_handled :: "bool list"
  sim_link_tasks :: "link_phase list"
  sim_forwarders :: "next_packet_delivery list"
  sim_events :: "network_event list"
  sim_sockets :: "next_packet_delivery option list"

abbreviation sim_link :: "'r simulation \<Rightarrow> nat \<Rightarrow> network_link" where
  "sim_link s l \<equiv> nw_links (sim_network s) ! l"

abbreviation sim_node :: "'r simulation \<Rightarrow> nat \<Rightarrow> node" where
  "sim_node s i \<equiv> nw_nodes (sim_network s) ! i"

definition put_phase :: "nat \<Rightarrow> link_phase \<Rightarrow> 'r simulation \<Rightarrow> 'r simulation" where
  "put_phase l ph s = s\<lparr>sim_link_tasks := (sim_link_tasks s)[l := ph]\<rparr>"

definition set_link :: "nat \<Rightarrow> network_link \<Rightarrow> 'r simulation \<Rightarrow> 'r simulation" where
  "set_link l link s = s\<lparr>sim_network := put_link l link (sim_network s)\<rparr>"

definition already_handled :: "'r simulation \<Rightarrow> outgoing_packet \<Rightarrow> bool" where
  "already_handled s p = sim_handled s ! op_handled p"

definition offer_packet ::
  "'r rng_ops \<Rightarrow> nat \<Rightarrow> buffered_packet \<Rightarrow> nat list \<Rightarrow> nat \<Rightarrow> nat \<Rightarrow> 'r network \<Rightarrow> 'r network" where
  "offer_packet ops i packet links handled l nw =
     (case generate_packet_anomalies ops l nw of (anomalies, nw1) \<Rightarrow>
       (let link = nw_links nw1 ! l;
            out = \<lparr>op_in_node_since = bp_in_node_since packet, op_src_node = i,
                   op_data = bp_data packet, op_anomalies = anomalies,
                   op_preferred_links = links, op_handled = handled\<rparr>
        in put_link l (link\<lparr>nl_outgoing_queue := nl_outgoing_queue link @ [out]\<rparr>) nw1))"

text \<open>
  One iteration of \<^verbatim>\<open>process_buffer_for_node\<close>. Without a route the task returns and drops the
  receiving end of the node's channel with everything in it.
\<close>

definition process_buffer_for_node ::
  "'r rng_ops \<Rightarrow> nat \<Rightarrow> 'r simulation \<Rightarrow> panic + 'r simulation" where
  "process_buffer_for_node ops i s =
     (let nw = sim_network s; n = nw_nodes nw ! i in
      if \<not> nd_receiver n then Inr s
      else case nd_outbound n of
        [] \<Rightarrow> Inr s
      | packet # rest \<Rightarrow>
          let dest = sa_ip (tx_destination (pkt_transmit (bp_data packet)))
          in bind_ok (has_route_to nw n dest) (\<lambda>routed.
               if \<not> routed
               then Inr (s\<lparr>sim_network := put_node i (n\<lparr>nd_outbound := [], nd_receiver := False\<rparr>) nw\<rparr>)
               else bind_ok (links_towards nw n dest) (\<lambda>links.
                 Inr (s\<lparr>sim_handled := sim_handled s @ [False],
                        sim_network := fold (offer_packet ops i packet links (length (sim_handled s)))
                          links (put_node i (n\<lparr>nd_outbound := rest\<rparr>) nw)\<rparr>))))"

text \<open>\<^verbatim>\<open>process_link_queue\<close>, from the end of the wait for bandwidth.\<close>

definition packet_cleared_from_buffer :: "node \<Rightarrow> outgoing_packet \<Rightarrow> bool" where
  "packet_cleared_from_buffer n p =
     (case nd_last_buffer_clear n of Some t \<Rightarrow> op_in_node_since p < t | None \<Rightarrow> False)"

definition ready_to_send :: "nat \<Rightarrow> outgoing_packet \<Rightarrow> 'r simulation \<Rightarrow> panic + 'r simulation" where
  "ready_to_send l p s =
     (if already_handled s p then Inr (put_phase l Idle s)
      else
        let s1 = put_phase l Idle (s\<lparr>sim_handled := (sim_handled s)[op_handled p := True]\<rparr>);
            nw = sim_network s1; n = nw_nodes nw ! op_src_node p
        in if packet_cleared_from_buffer n p
           then Inr (s1\<lparr>sim_network := put_tracer
                  (track_dropped_by_buffer_clear_event (sim_now s1) (nd_id n) (op_data p)
                    (nw_tracer nw)) nw\<rparr>)
           else map_sum id
                  (\<lambda>(link, n', t). s1\<lparr>sim_network :=
                     put_tracer t (put_link l link (put_node (op_src_node p) n' nw))\<rparr>)
                  (link_send (sim_now s1) (op_data p) (op_anomalies p)
                    (nw_links nw ! l, n, nw_tracer nw)))"

definition prefer_other_links :: "nat \<Rightarrow> outgoing_packet \<Rightarrow> 'r simulation \<Rightarrow> panic + 'r simulation" where
  "prefer_other_links l p s =
     (case op_preferred_links p of
        [] \<Rightarrow> ready_to_send l p s
      | preferred_link # rest \<Rightarrow>
          let p' = p\<lparr>op_preferred_links := rest\<rparr>
          in if preferred_link \<noteq> l \<and> \<not> already_handled s p' then Inr (put_phase l (Yielded p') s)
             else ready_to_send l p' s)"

text \<open>\<^verbatim>\<open>sleep_until_ready_to_send\<close>: leaving it drops the permit.\<close>

definition leave_sleep :: "nat \<Rightarrow> outgoing_packet \<Rightarrow> 'r simulation \<Rightarrow> panic + 'r simulation" where
  "leave_sleep l p s =
     (let link = sim_link s l
      in prefer_other_links l p (set_link l (link\<lparr>nl_semaphore := Suc (nl_semaphore link)\<rparr>) s))"

definition await_link_up :: "nat \<Rightarrow> outgoing_packet \<Rightarrow> nat \<Rightarrow> 'r simulation \<Rightarrow> panic + 'r simulation" where
  "await_link_up l p t s =
     (if already_handled s p then leave_sleep l p s else Inr (put_phase l (WaitLink p t) s))"

definition check_link_still_up ::
  "nat \<Rightarrow> outgoing_packet \<Rightarrow> 'r simulation \<Rightarrow> panic + 'r simulation" where
  "check_link_still_up l p s =
     (case notifier (nl_status (sim_link s l)) of
        None \<Rightarrow> leave_sleep l p s
      | Some t \<Rightarrow> await_link_up l p t s)"

definition await_node_up :: "nat \<Rightarrow> outgoing_packet \<Rightarrow> 'r simulation \<Rightarrow> panic + 'r simulation" where
  "await_node_up l p s =
     (case notifier (nd_status (sim_node s (op_src_node p))) of
        Some t \<Rightarrow> if already_handled s p then leave_sleep l p s
                  else Inr (put_phase l (WaitNode p t) s)
      | None \<Rightarrow> check_link_still_up l p s)"

definition wait_until_up :: "nat \<Rightarrow> outgoing_packet \<Rightarrow> 'r simulation \<Rightarrow> panic + 'r simulation" where
  "wait_until_up l p s =
     (case notifier (nl_status (sim_link s l)) of
        Some t \<Rightarrow> await_link_up l p t s
      | None \<Rightarrow> await_node_up l p s)"

definition sleep_for_bandwidth ::
  "nat \<Rightarrow> outgoing_packet \<Rightarrow> instant \<Rightarrow> 'r simulation \<Rightarrow> panic + 'r simulation" where
  "sleep_for_bandwidth l p deadline s =
     (if already_handled s p then leave_sleep l p s
      else if deadline \<le> sim_now s then wait_until_up l p s
      else Inr (put_phase l (SleepBandwidth p deadline) s))"

definition acquire_permit :: "nat \<Rightarrow> outgoing_packet \<Rightarrow> 'r simulation \<Rightarrow> panic + 'r simulation" where
  "acquire_permit l p s =
     (let link = sim_link s l
      in if nl_semaphore link = 0 then Inr (put_phase l (Acquiring p) s)
         else sleep_for_bandwidth l p
                (sim_now s + duration_until_can_send (sim_now s) (nl_pacer link))
                (set_link l (link\<lparr>nl_semaphore := nl_semaphore link - 1\<rparr>) s))"

definition sleep_until_ready_to_send ::
  "nat \<Rightarrow> outgoing_packet \<Rightarrow> 'r simulation \<Rightarrow> panic + 'r simulation" where
  "sleep_until_ready_to_send l p s =
     (if has_bandwidth_available (sim_now s) (sim_link s l) then Inl (HasBandwidth (nl_id (sim_link s l)))
      else acquire_permit l p s)"

definition process_link_queue :: "nat \<Rightarrow> 'r simulation \<Rightarrow> panic + 'r simulation" where
  "process_link_queue l s =
     (case sim_link_tasks s ! l of
        Idle \<Rightarrow>
          (let link = sim_link s l in
           case nl_outgoing_queue link of
             [] \<Rightarrow> Inr s
           | p # rest \<Rightarrow>
               let s1 = set_link l (link\<lparr>nl_outgoing_queue := rest\<rparr>) s
               in if \<not> has_bandwidth_available (sim_now s1) (sim_link s1 l)
                  then sleep_until_ready_to_send l p s1
                  else prefer_other_links l p s1)
      | Acquiring p \<Rightarrow> acquire_permit l p s
      | SleepBandwidth p deadline \<Rightarrow> sleep_for_bandwidth l p deadline s
      | WaitLink p t \<Rightarrow>
          if already_handled s p then leave_sleep l p s
          else if notified t (nl_status (sim_link s l)) then await_node_up l p s
          else Inr s
      | WaitNode p t \<Rightarrow>
          if already_handled s p then leave_sleep l p s
          else if notified t (nd_status (sim_node s (op_src_node p))) then check_link_still_up l p s
          else Inr s
      | Yielded p \<Rightarrow> prefer_other_links l p s)"

text \<open>\<^verbatim>\<open>forward_packets_from_link_to_node\<close>: poll the delivery, then handle what it delivered.\<close>

definition forward_delivered ::
  "'r rng_ops \<Rightarrow> instant \<Rightarrow> nat \<Rightarrow> 'r network \<Rightarrow> delivered_transmit \<Rightarrow> panic + 'r network" where
  "forward_delivered ops now l nw transmit =
     (let link = nw_links nw ! l
      in if was_down_after (dt_sent transmit) link
         then Inr (put_tracer (track_lost_in_transit now (nl_id link) (dt_data transmit) (nw_tracer nw)) nw)
         else case nw_nodes_by_addr nw (nl_target link) of
                None \<Rightarrow> Inl NoSuchKey
              | Some i \<Rightarrow> forward ops now i (dt_data transmit) nw)"

definition forward_packets_from_link_to_node ::
  "'r rng_ops \<Rightarrow> nat \<Rightarrow> 'r simulation \<Rightarrow> panic + 'r simulation" where
  "forward_packets_from_link_to_node ops l s =
     (let link = sim_link s l in
      case poll (sim_now s) l (sim_forwarders s ! l) (nl_in_transit link) of
        (r, f, q) \<Rightarrow>
          let s1 = set_link l (link\<lparr>nl_in_transit := q\<rparr>) s
          in case r of
               Pending \<Rightarrow> Inr (s1\<lparr>sim_forwarders := (sim_forwarders s)[l := f]\<rparr>)
             | Ready delivered \<Rightarrow>
                 map_sum id
                   (\<lambda>nw. s1\<lparr>sim_network := nw,
                            sim_forwarders := (sim_forwarders s)[l := next_delivered_packets u64_max]\<rparr>)
                   (fold_ok (forward_delivered ops (sim_now s) l) (sim_network s1) delivered))"

definition run_events :: "'r simulation \<Rightarrow> 'r simulation" where
  "run_events s =
     (case sim_events s of
        [] \<Rightarrow> s
      | e # es \<Rightarrow>
          if sim_start s + ev_relative_time e \<le> sim_now s
          then s\<lparr>sim_events := es,
                 sim_network := process_event (sim_now s) (ev_kind e) (sim_network s)\<rparr>
          else s)"

definition initialize ::
  "network_spec \<Rightarrow> network_events \<Rightarrow> tracer \<Rightarrow> 'r \<Rightarrow> instant \<Rightarrow> bool \<Rightarrow> instant \<Rightarrow>
   init_error + 'r simulation" where
  "initialize spec events t rng start disable_time_warping now =
     (if \<not> disable_time_warping \<and> \<not> is_fresh now t then Inl OldTracer
      else if \<not> disable_time_warping \<and> now - start \<noteq> 0 then Inl OldStart
      else bind_ok (build_network spec t rng) (\<lambda>nw.
        let nw1 = fold (process_link_event now) (initial_link_events events) nw;
            nw2 = fold (process_node_event now) (initial_node_events events) nw1
        in Inr \<lparr>sim_now = now, sim_start = start, sim_network = nw2, sim_handled = [],
                sim_link_tasks = replicate (length (nw_links nw2)) Idle,
                sim_forwarders = replicate (length (nw_links nw2)) (next_delivered_packets u64_max),
                sim_events = sorted_events events,
                sim_sockets = replicate (length (nw_nodes nw2)) None\<rparr>))"

section \<open>Calls of the application\<close>

text \<open>
  What a socket of node \<open>i\<close> does to the network: a transmit enters at the node, and a read polls
  the delivery the socket keeps and records each packet it hands over (\<^verbatim>\<open>quinn_interop.rs\<close>).
\<close>

definition send_from ::
  "'r rng_ops \<Rightarrow> nat \<Rightarrow> owned_transmit \<Rightarrow> 'r simulation \<Rightarrow> panic + 'r simulation" where
  "send_from ops i transmit s =
     bind_ok (in_transit_data ops i transmit (sim_network s)) (\<lambda>(data, nw).
       map_sum id (\<lambda>nw'. s\<lparr>sim_network := nw'\<rparr>) (forward ops (sim_now s) i data nw))"

definition read_at ::
  "nat \<Rightarrow> waker \<Rightarrow> nat \<Rightarrow> 'r simulation \<Rightarrow> panic + delivered_transmit list \<times> 'r simulation" where
  "read_at i w max_transmits s =
     (let n = sim_node s i in
      case nd_udp_endpoint n of
        None \<Rightarrow> Inl NotAHost
      | Some endpoint \<Rightarrow>
          (let delivery = (case sim_sockets s ! i of
                             Some f \<Rightarrow> f | None \<Rightarrow> next_packet_delivery_new max_transmits)
           in case poll (sim_now s) w delivery (ue_inbound endpoint) of
                (r, f, q) \<Rightarrow>
                  let nw1 = put_node i (n\<lparr>nd_udp_endpoint := Some (endpoint\<lparr>ue_inbound := q\<rparr>)\<rparr>)
                              (sim_network s);
                      s1 = s\<lparr>sim_network := nw1, sim_sockets := (sim_sockets s)[i := Some f]\<rparr>
                  in case r of
                       Pending \<Rightarrow> Inr ([], s1)
                     | Ready delivered \<Rightarrow>
                         Inr (take max_transmits delivered,
                              s1\<lparr>sim_network := put_tracer
                                 (fold (\<lambda>d. track_read_by_host (sim_now s) (nd_id n) (dt_data d))
                                   (take max_transmits delivered) (nw_tracer nw1)) nw1\<rparr>)))"

section \<open>Schedules\<close>

datatype label =
    Tick duration
  | RunNode nat
  | RunLink nat
  | RunForwarder nat
  | RunEvents
  | Transmit nat owned_transmit
  | Receive nat waker nat

definition sim_step :: "'r rng_ops \<Rightarrow> label \<Rightarrow> 'r simulation \<Rightarrow> panic + 'r simulation" where
  "sim_step ops lab s =
     (case lab of
        Tick d \<Rightarrow> Inr (s\<lparr>sim_now := sim_now s + d\<rparr>)
      | RunNode i \<Rightarrow>
          if i < length (nw_nodes (sim_network s)) then process_buffer_for_node ops i s else Inr s
      | RunLink l \<Rightarrow>
          if l < length (nw_links (sim_network s)) then process_link_queue l s else Inr s
      | RunForwarder l \<Rightarrow>
          if l < length (nw_links (sim_network s)) then forward_packets_from_link_to_node ops l s else Inr s
      | RunEvents \<Rightarrow> Inr (run_events s)
      | Transmit i t \<Rightarrow>
          if i < length (nw_nodes (sim_network s)) then send_from ops i t s else Inr s
      | Receive i w m \<Rightarrow>
          if i < length (nw_nodes (sim_network s)) then map_sum id snd (read_at i w m s) else Inr s)"

definition run :: "'r rng_ops \<Rightarrow> label list \<Rightarrow> 'r simulation \<Rightarrow> panic + 'r simulation" where
  "run ops labs s = fold_ok (\<lambda>s lab. sim_step ops lab s) s labs"

definition fresh_tracer :: "instant \<Rightarrow> network_spec \<Rightarrow> tracer \<Rightarrow> bool" where
  "fresh_tracer start spec t \<longleftrightarrow>
     t = tracer_new start spec \<or> t = mute_warnings (tracer_new start spec)"

definition started :: "network_spec \<Rightarrow> 'r simulation \<Rightarrow> bool" where
  "started spec s \<longleftrightarrow>
     (\<exists>evs t0 t rng start disable_time_warping now.
        t0 \<le> now \<and> fresh_tracer t0 spec t \<and>
        initialize spec (network_events_new evs (spec_nodes spec) (spec_links spec)) t rng start
          disable_time_warping now = Inr s)"

end
