(* ===== verification/Network_Inv.thy ===== *)
theory Network_Inv
  imports Network
begin

text \<open>
  Invariants of the network under every schedule. The network provides the transition-system
  interface of the prelude; the theorems about reachable states follow by rule induction. The
  first part says what each operation leaves alone, the second that the log is chronological and
  packets spend at least the link's delay in flight, the third that the pacer's sanity checks
  cannot fail.
\<close>

definition net_step :: "'r rng_ops \<Rightarrow> 'r simulation \<Rightarrow> label \<Rightarrow> 'r simulation \<Rightarrow> bool" where
  "net_step ops s lab t \<longleftrightarrow> sim_step ops lab s = Inr t"

interpretation sim: transition_system "started spec" "net_step ops" for spec ops .

section \<open>Frames\<close>

lemma map_sum_id_Inr: "map_sum id f r = Inr y \<longleftrightarrow> (\<exists>x. r = Inr x \<and> y = f x)"
  by (cases r) auto

lemma map_sum_id_Inl: "map_sum id f r = Inl e \<longleftrightarrow> r = Inl e"
  by (cases r) auto

text \<open>A tracer grows by steps stamped with the current instant.\<close>

definition grows :: "instant \<Rightarrow> tracer \<Rightarrow> tracer \<Rightarrow> bool" where
  "grows now t t' \<longleftrightarrow>
     tr_simulation_start t' = tr_simulation_start t \<and> tr_network_spec t' = tr_network_spec t \<and>
     (\<exists>ks. log_of t' = log_of t @ map (step_at now t) ks)"

lemma grows_refl [simp]: "grows now t t"
  by (auto simp: grows_def intro: exI [of _ "[]"])

lemma step_at_cong: "tr_simulation_start t' = tr_simulation_start t \<Longrightarrow> step_at now t' = step_at now t"
  by (simp add: fun_eq_iff step_at_def)

lemma grows_trans: "grows now t t' \<Longrightarrow> grows now t' t'' \<Longrightarrow> grows now t t''"
  unfolding grows_def by (metis append.assoc map_append step_at_cong)

lemma grows_record: "grows now t (record_step now k t)"
  by (auto simp: grows_def intro: exI [of _ "[k]"])

lemma grows_warn: "grows now t t' \<Longrightarrow> grows now t (warn w t')"
  by (simp add: grows_def)

lemma grows_tracks [simp]:
  "grows now t (track_link_event now le t)" "grows now t (track_node_event now ne t)"
  "grows now t (track_packet_in_node now n d t)" "grows now t (track_packet_in_transit now n l d t)"
  "grows now t (track_dropped_on_arrival now n d t)" "grows now t (track_dropped_randomly now n d t)"
  "grows now t (track_dropped_by_buffer_clear_event now n d t)"
  "grows now t (track_lost_in_transit now l d t)" "grows now t (track_read_by_host now n d t)"
  by (simp_all add: track_defs grows_record grows_warn)

lemma grows_buffer_full [simp]: "grows now t (track_dropped_because_buffer_full now n d t)"
  by (auto simp: grows_def intro: exI [of _ "[_]"])

lemma grows_duplicate [simp]: "grows now t (track_injected_failures now n d True 0 False t)"
  by (auto simp: grows_def intro: exI [of _ "[_]"])

lemma grows_fold_read: "grows now t (fold (\<lambda>d. track_read_by_host now n (f d)) ds t)"
  by (induction ds arbitrary: t) (auto intro: grows_trans [OF grows_tracks(9)])

lemma chronological_grows: "grows now t t' \<Longrightarrow> chronological now t \<Longrightarrow> chronological now t'"
  by (auto simp: grows_def intro: chronological_append)

text \<open>
  The part of the network that never changes, and the operations that touch nodes only.
\<close>

definition node_name :: "node \<Rightarrow> id \<times> ip_addr list" where
  "node_name n = (nd_id n, nd_addresses n)"

lemma node_name_simps [simp]:
  "node_name (n\<lparr>nd_udp_endpoint := e\<rparr>) = node_name n"
  "node_name (n\<lparr>nd_outbound_buffer := b\<rparr>) = node_name n"
  "node_name (n\<lparr>nd_outbound := q\<rparr>) = node_name n" "node_name (n\<lparr>nd_receiver := r\<rparr>) = node_name n"
  "node_name (node_update_status u n) = node_name n" "node_name (clear_buffer now n) = node_name n"
  by (simp_all add: node_name_def)

lemma map_put_same [simp]: "f x = f (xs ! i) \<Longrightarrow> map f (xs[i := x]) = map f xs"
  by (metis list_update_id map_update)

definition same_tables :: "'r network \<Rightarrow> 'r network \<Rightarrow> bool" where
  "same_tables nw nw' \<longleftrightarrow>
     nw_nodes_by_addr nw' = nw_nodes_by_addr nw \<and> nw_nodes_by_id nw' = nw_nodes_by_id nw \<and>
     nw_routes_by_addr nw' = nw_routes_by_addr nw \<and> nw_links_by_addr nw' = nw_links_by_addr nw \<and>
     nw_links_by_id nw' = nw_links_by_id nw \<and>
     length (nw_nodes nw') = length (nw_nodes nw) \<and> length (nw_links nw') = length (nw_links nw) \<and>
     map node_name (nw_nodes nw') = map node_name (nw_nodes nw)"

lemma same_tables_refl [simp]: "same_tables nw nw"
  by (simp add: same_tables_def)

lemma same_tables_trans: "same_tables a b \<Longrightarrow> same_tables b c \<Longrightarrow> same_tables a c"
  by (simp add: same_tables_def)

definition at_nodes :: "instant \<Rightarrow> 'r network \<Rightarrow> 'r network \<Rightarrow> bool" where
  "at_nodes now nw nw' \<longleftrightarrow>
     same_tables nw nw' \<and> nw_links nw' = nw_links nw \<and> grows now (nw_tracer nw) (nw_tracer nw')"

lemma at_nodes_refl [simp]: "at_nodes now nw nw"
  by (simp add: at_nodes_def)

lemma at_nodes_trans: "at_nodes now a b \<Longrightarrow> at_nodes now b c \<Longrightarrow> at_nodes now a c"
  by (auto simp: at_nodes_def intro: same_tables_trans grows_trans)

lemma at_nodes_put:
  "node_name n = node_name (nw_nodes nw ! i) \<Longrightarrow> at_nodes now nw (put_node i n nw)"
  "grows now (nw_tracer nw) t \<Longrightarrow> at_nodes now nw (put_tracer t nw)"
  "at_nodes now nw (nw\<lparr>nw_rng := r\<rparr>)"
  "at_nodes now nw (nw\<lparr>nw_next_transmit_number := k\<rparr>)"
  by (simp_all add: at_nodes_def same_tables_def)

lemma at_nodes_roll: "roll_f64 ops nw = (x, nw') \<Longrightarrow> at_nodes now nw nw'"
  by (auto simp: roll_f64_def at_nodes_put split: prod.splits)

lemma at_nodes_new_packet_id: "new_packet_id ops nw = (u, nw') \<Longrightarrow> at_nodes now nw nw'"
  by (auto simp: new_packet_id_def at_nodes_put split: prod.splits)

lemma at_nodes_in_transit_data:
  "in_transit_data ops i tx nw = Inr (d, nw') \<Longrightarrow> at_nodes now nw nw'"
  by (auto simp: in_transit_data_def Let_def split: prod.splits option.splits
      intro: at_nodes_trans [OF at_nodes_new_packet_id at_nodes_put(4)])

lemma at_nodes_enqueue:
  assumes "enqueue_at now i p nw = Inr nw'"
  shows "at_nodes now nw nw'"
proof -
  obtain n t where e: "enqueue_outbound now p (nw_nodes nw ! i, nw_tracer nw) = Inr (n, t)"
    and nw': "nw' = put_tracer t (put_node i n nw)"
    using assms by (auto simp: enqueue_at_def map_sum_id_Inr)
  have "grows now (nw_tracer nw) t \<and> node_name n = node_name (nw_nodes nw ! i)"
    using e by (auto simp: enqueue_outbound_def Let_def split: prod.splits bool.splits if_splits)
  then show ?thesis by (simp add: nw' at_nodes_def same_tables_def)
qed

lemma at_nodes_send_to_next_hop:
  assumes "send_to_next_hop ops now i d nw = Inr nw'"
  shows "at_nodes now nw nw'"
proof -
  obtain roll nw1 where r: "roll_f64 ops nw = (roll, nw1)" by (cases "roll_f64 ops nw")
  obtain u nw2 where u: "new_packet_id ops nw1 = (u, nw2)" by (cases "new_packet_id ops nw1")
  have dup: "at_nodes now nw1 nw'"
    if "enqueue_at now i p nw2 = Inr nw3"
      and "enqueue_at now i p' (put_tracer
             (track_injected_failures now n d' True 0 False (nw_tracer nw3)) nw3) = Inr nw'"
    for n p p' d' nw3
    using at_nodes_trans [OF at_nodes_new_packet_id [OF u] at_nodes_trans [OF at_nodes_enqueue [OF that(1)]
        at_nodes_trans [OF at_nodes_put(2) [OF grows_duplicate] at_nodes_enqueue [OF that(2)]]]] .
  have "at_nodes now nw1 nw'"
    using assms
    by (auto simp: send_to_next_hop_def r u Let_def bind_ok_Inr_iff split: if_splits
        intro: at_nodes_put at_nodes_enqueue dup)
  then show ?thesis using at_nodes_roll [OF r] at_nodes_trans by blast
qed

lemma at_nodes_deliver: "at_nodes now nw (deliver_to_endpoint now i e d nw)"
  by (simp add: deliver_to_endpoint_def at_nodes_put)

lemma at_nodes_forward:
  assumes "forward ops now i d nw = Inr nw'"
  shows "at_nodes now nw nw'"
proof -
  have "at_nodes now nw (put_tracer (track_packet_in_node now n d (nw_tracer nw)) nw)" for n
    by (simp add: at_nodes_put)
  with assms show ?thesis
    by (auto simp: forward_def Let_def split: if_splits option.splits
        intro: at_nodes_put at_nodes_trans [OF _ at_nodes_deliver]
          at_nodes_trans [OF _ at_nodes_send_to_next_hop])
qed

lemma at_nodes_forward_delivered:
  assumes "forward_delivered ops now l nw d = Inr nw'"
  shows "at_nodes now nw nw'"
  using assms
  by (auto simp: forward_delivered_def Let_def split: if_splits option.splits
      intro: at_nodes_put at_nodes_forward)

lemma at_nodes_forward_all:
  "fold_ok (forward_delivered ops now l) nw ds = Inr nw' \<Longrightarrow> at_nodes now nw nw'"
  by (rule fold_ok_invariant [where P = "at_nodes now nw"])
    (auto intro: at_nodes_trans at_nodes_forward_delivered)

section \<open>How links evolve\<close>

text \<open>
  Packets in flight were sent in the past, will spend at least the delay of the link, and lie in
  the queue in delivery order.
\<close>

definition in_flight_ok :: "instant \<Rightarrow> network_link \<Rightarrow> bool" where
  "in_flight_ok now l \<longleftrightarrow>
     queue_ok (nl_in_transit l) \<and>
     (\<forall>p \<in> set (iq_queue (nl_in_transit l)). pd_sent p \<le> now \<and> nl_delay l \<le> pd_delay p) \<and>
     (\<forall>t. nl_last_down l = Some t \<longrightarrow> t \<le> now)"

definition link_evolves :: "instant \<Rightarrow> network_link \<Rightarrow> network_link \<Rightarrow> bool" where
  "link_evolves now l l' \<longleftrightarrow>
     nl_id l' = nl_id l \<and> nl_target l' = nl_target l \<and> nl_delay l' = nl_delay l \<and>
     nl_bandwidth_bps l' = nl_bandwidth_bps l \<and> (in_flight_ok now l \<longrightarrow> in_flight_ok now l')"

lemma link_evolves_refl [simp]: "link_evolves now l l"
  by (simp add: link_evolves_def)

lemma link_evolves_trans: "link_evolves now a b \<Longrightarrow> link_evolves now b c \<Longrightarrow> link_evolves now a c"
  by (simp add: link_evolves_def)

lemma link_evolves_simps [simp]:
  "link_evolves now l (l\<lparr>nl_semaphore := k\<rparr>)" "link_evolves now l (l\<lparr>nl_outgoing_queue := q\<rparr>)"
  "link_evolves now l (link_update_status u now l)"
  by (auto simp: link_evolves_def in_flight_ok_def link_update_status_def
      split: status.splits update_link_status.splits)

lemma link_evolves_send:
  "link_evolves now l (l\<lparr>nl_pacer := p,
     nl_in_transit := fst (queue_send now (nl_in_transit l) d (nl_delay l + x))\<rparr>)"
  by (auto simp: link_evolves_def in_flight_ok_def queue_send_ok queue_send_def
      intro: queue_send_ok [unfolded queue_send_def fst_conv])

lemma link_evolves_poll:
  assumes "poll now w f (nl_in_transit l) = (r, f', q)" and "0 < np_max_transmits f"
  shows "link_evolves now l (l\<lparr>nl_in_transit := q\<rparr>)"
  using poll_queue_ok [OF assms(2,1)] poll_spec(2) [OF assms(2,1)]
  by (auto simp: link_evolves_def in_flight_ok_def dest: in_set_dropD)

lemma in_flight_ok_later: "in_flight_ok now l \<Longrightarrow> now \<le> now' \<Longrightarrow> in_flight_ok now' l"
  by (auto simp: in_flight_ok_def intro: order_trans)

definition evolves :: "instant \<Rightarrow> 'r network \<Rightarrow> 'r network \<Rightarrow> bool" where
  "evolves now nw nw' \<longleftrightarrow>
     same_tables nw nw' \<and> grows now (nw_tracer nw) (nw_tracer nw') \<and>
     (\<forall>i < length (nw_links nw). link_evolves now (nw_links nw ! i) (nw_links nw' ! i))"

lemma evolves_refl [simp]: "evolves now nw nw"
  by (simp add: evolves_def)

lemma evolves_trans: "evolves now a b \<Longrightarrow> evolves now b c \<Longrightarrow> evolves now a c"
  by (auto simp: evolves_def intro: same_tables_trans grows_trans)
    (metis link_evolves_trans same_tables_def)

lemma at_nodes_evolves: "at_nodes now nw nw' \<Longrightarrow> evolves now nw nw'"
  by (simp add: at_nodes_def evolves_def)

lemma evolves_put_link:
  "link_evolves now (nw_links nw ! l) link \<Longrightarrow> evolves now nw (put_link l link nw)"
  by (simp add: evolves_def same_tables_def)
    (metis link_evolves_refl nth_list_update_eq nth_list_update_neq)

lemma evolves_put_tracer: "grows now (nw_tracer nw) t \<Longrightarrow> evolves now nw (put_tracer t nw)"
  by (intro at_nodes_evolves at_nodes_put)

lemma evolves_put_node: "node_name n = node_name (nw_nodes nw ! i) \<Longrightarrow> evolves now nw (put_node i n nw)"
  by (intro at_nodes_evolves at_nodes_put)

subsection \<open>Events and offers\<close>

lemma evolves_process_link_event: "evolves now nw (process_link_event now e nw)"
proof (cases "nw_links_by_id nw (lep_link_id e)")
  case (Some i)
  have "link_evolves now (nw_links nw ! i)
      (case lep_status e of None \<Rightarrow> nw_links nw ! i
       | Some st \<Rightarrow> link_update_status st now (nw_links nw ! i))"
    by (simp split: option.split)
  from evolves_put_link [OF this] show ?thesis
    using evolves_trans [OF _ evolves_put_tracer] Some
    by (fastforce simp: process_link_event_def Let_def)
qed (simp add: process_link_event_def)

lemma evolves_process_node_event: "evolves now nw (process_node_event now e nw)"
proof -
  have "evolves now nw (put_tracer (track_node_event now e (nw_tracer nw)) (put_node i n nw))"
    if "node_name n = node_name (nw_nodes nw ! i)" for i n
    using evolves_trans [OF evolves_put_node [OF that] evolves_put_tracer] by simp
  then show ?thesis by (simp add: process_node_event_def Let_def split: option.split)
qed

lemma evolves_process_event: "evolves now nw (process_event now k nw)"
  by (simp add: process_event_def evolves_process_link_event evolves_process_node_event
      split: network_event_kind.split)

lemma at_nodes_anomalies: "generate_packet_anomalies ops l nw = (a, nw') \<Longrightarrow> at_nodes now nw nw'"
  by (auto simp: generate_packet_anomalies_def Let_def split: prod.splits
      intro: at_nodes_trans [OF at_nodes_roll at_nodes_roll])

lemma evolves_offer: "evolves now nw (offer_packet ops i p links h l nw)"
proof -
  obtain a nw1 where a: "generate_packet_anomalies ops l nw = (a, nw1)"
    by (cases "generate_packet_anomalies ops l nw")
  show ?thesis
    using evolves_trans [OF at_nodes_evolves [OF at_nodes_anomalies [OF a]] evolves_put_link]
    by (simp add: offer_packet_def a Let_def)
qed

lemma evolves_fold:
  assumes "\<And>x nw. evolves now nw (f x nw)"
  shows "evolves now nw (fold f xs nw)"
  using assms by (induction xs arbitrary: nw) (auto intro: evolves_trans)

subsection \<open>Tasks\<close>

definition forwarders_ok :: "'r simulation \<Rightarrow> bool" where
  "forwarders_ok s \<longleftrightarrow> (\<forall>f \<in> set (sim_forwarders s). np_max_transmits f = u64_max)"

definition sim_evolves :: "'r simulation \<Rightarrow> 'r simulation \<Rightarrow> bool" where
  "sim_evolves s s' \<longleftrightarrow>
     sim_now s' = sim_now s \<and> evolves (sim_now s) (sim_network s) (sim_network s') \<and>
     length (sim_link_tasks s') = length (sim_link_tasks s) \<and>
     length (sim_forwarders s') = length (sim_forwarders s) \<and>
     (forwarders_ok s \<longrightarrow> forwarders_ok s')"

lemma sim_evolves_refl [simp]: "sim_evolves s s"
  by (simp add: sim_evolves_def)

lemma sim_evolves_trans: "sim_evolves a b \<Longrightarrow> sim_evolves b c \<Longrightarrow> sim_evolves a c"
  by (auto simp: sim_evolves_def intro: evolves_trans)

lemma sim_evolves_put_phase [simp]: "sim_evolves s (put_phase l ph s)"
  by (simp add: sim_evolves_def put_phase_def forwarders_ok_def)

lemma sim_evolves_network:
  "evolves (sim_now s) (sim_network s) nw \<Longrightarrow> sim_evolves s (s\<lparr>sim_network := nw\<rparr>)"
  by (simp add: sim_evolves_def forwarders_ok_def)

lemma sim_evolves_set_link:
  "link_evolves (sim_now s) (sim_link s l) link \<Longrightarrow> sim_evolves s (set_link l link s)"
  by (simp add: set_link_def sim_evolves_network evolves_put_link)

lemma sim_evolves_semaphore: "sim_evolves s (set_link l ((sim_link s l)\<lparr>nl_semaphore := k\<rparr>) s)"
  by (simp add: sim_evolves_set_link)

lemma sim_evolves_handled [simp]:
  "sim_evolves s (s\<lparr>sim_handled := h\<rparr>)" "sim_evolves s (s\<lparr>sim_sockets := k\<rparr>)"
  "sim_evolves s (s\<lparr>sim_events := e\<rparr>)"
  by (simp_all add: sim_evolves_def forwarders_ok_def)

lemma evolves_link_send:
  assumes "link_send now d an (nw_links nw ! l, n, nw_tracer nw) = Inr (link, n', t)"
    and "node_name n = node_name (nw_nodes nw ! i)"
  shows "evolves now nw (put_tracer t (put_link l link (put_node i n' nw)))"
  using assms(1)
proof (cases rule: link_send_InrE)
  case (1 d')
  have "link_evolves now (nw_links nw ! l) link"
    unfolding 1(4) by (rule link_evolves_send)
  moreover have "node_name n' = node_name (nw_nodes nw ! i)"
    using assms(2) unfolding 1(5) by simp
  ultimately have "evolves now nw (put_link l link (put_node i n' nw))"
    by (intro evolves_trans [OF evolves_put_node evolves_put_link]) simp_all
  moreover have "grows now (nw_tracer (put_link l link (put_node i n' nw))) t"
    unfolding 1(6) by simp
  ultimately show ?thesis by (rule evolves_trans [OF _ evolves_put_tracer])
qed

text \<open>What \<open>ready_to_send\<close> does, branch by branch.\<close>

lemma ready_to_send_cases:
  assumes "ready_to_send l p s = r"
  obtains (handled) "already_handled s p" "r = Inr (put_phase l Idle s)"
    | (cleared) "\<not> already_handled s p"
        "packet_cleared_from_buffer (sim_node s (op_src_node p)) p"
        "r = Inr ((put_phase l Idle (s\<lparr>sim_handled := (sim_handled s)[op_handled p := True]\<rparr>))
               \<lparr>sim_network := put_tracer (track_dropped_by_buffer_clear_event (sim_now s)
                 (nd_id (sim_node s (op_src_node p))) (op_data p) (nw_tracer (sim_network s)))
                 (sim_network s)\<rparr>)"
    | (sent) link n t where "\<not> already_handled s p"
        "\<not> packet_cleared_from_buffer (sim_node s (op_src_node p)) p"
        "link_send (sim_now s) (op_data p) (op_anomalies p)
           (sim_link s l, sim_node s (op_src_node p), nw_tracer (sim_network s)) = Inr (link, n, t)"
        "r = Inr ((put_phase l Idle (s\<lparr>sim_handled := (sim_handled s)[op_handled p := True]\<rparr>))
               \<lparr>sim_network := put_tracer t (put_link l link
                 (put_node (op_src_node p) n (sim_network s)))\<rparr>)"
    | (panic) e where "\<not> already_handled s p"
        "link_send (sim_now s) (op_data p) (op_anomalies p)
           (sim_link s l, sim_node s (op_src_node p), nw_tracer (sim_network s)) = Inl e" "r = Inl e"
proof -
  note defs = ready_to_send_def put_phase_def Let_def
  consider "already_handled s p"
    | "\<not> already_handled s p" "packet_cleared_from_buffer (sim_node s (op_src_node p)) p"
    | "\<not> already_handled s p" "\<not> packet_cleared_from_buffer (sim_node s (op_src_node p)) p"
    by blast
  then show ?thesis
  proof cases
    case 1
    then show ?thesis using assms by (intro handled) (simp_all add: defs)
  next
    case 2
    then show ?thesis using assms by (intro cleared) (simp_all add: defs)
  next
    case 3
    show ?thesis
    proof (cases "link_send (sim_now s) (op_data p) (op_anomalies p)
        (sim_link s l, sim_node s (op_src_node p), nw_tracer (sim_network s))")
      case (Inl e)
      with 3 show ?thesis using assms by (intro panic [of e]) (simp_all add: defs)
    next
      case (Inr r)
      obtain link n t where "r = (link, n, t)" by (cases r)
      with 3 Inr show ?thesis using assms by (intro sent [of link n t]) (simp_all add: defs)
    qed
  qed
qed

lemma sim_evolves_ready_to_send:
  assumes "ready_to_send l p s = Inr s'"
  shows "sim_evolves s s'"
  using assms
proof (cases rule: ready_to_send_cases)
  case cleared
  have "evolves (sim_now s) (sim_network s) (put_tracer (track_dropped_by_buffer_clear_event (sim_now s)
      n (op_data p) (nw_tracer (sim_network s))) (sim_network s))" for n
    by (intro evolves_put_tracer) simp
  with cleared show ?thesis
    by (auto simp: sim_evolves_def put_phase_def forwarders_ok_def)
next
  case (sent link n t)
  from evolves_link_send [OF sent(3)] sent(4) show ?thesis
    by (auto simp: sim_evolves_def put_phase_def forwarders_ok_def)
qed auto

lemma sim_evolves_prefer:
  "prefer_other_links l p s = Inr s' \<Longrightarrow> sim_evolves s s'"
  by (auto simp: prefer_other_links_def Let_def split: list.splits if_splits
      intro: sim_evolves_ready_to_send)

lemma sim_evolves_leave_sleep: "leave_sleep l p s = Inr s' \<Longrightarrow> sim_evolves s s'"
  by (auto simp: leave_sleep_def Let_def
      intro: sim_evolves_trans [OF sim_evolves_semaphore sim_evolves_prefer])

lemma sim_evolves_await_link_up: "await_link_up l p t s = Inr s' \<Longrightarrow> sim_evolves s s'"
  by (auto simp: await_link_up_def split: if_splits intro: sim_evolves_leave_sleep)

lemma sim_evolves_check: "check_link_still_up l p s = Inr s' \<Longrightarrow> sim_evolves s s'"
  by (auto simp: check_link_still_up_def split: option.splits
      intro: sim_evolves_leave_sleep sim_evolves_await_link_up)

lemma sim_evolves_await_node_up: "await_node_up l p s = Inr s' \<Longrightarrow> sim_evolves s s'"
  by (auto simp: await_node_up_def split: option.splits if_splits
      intro: sim_evolves_leave_sleep sim_evolves_check)

lemma sim_evolves_sleep: "sleep_for_bandwidth l p d s = Inr s' \<Longrightarrow> sim_evolves s s'"
  by (auto simp: sleep_for_bandwidth_def wait_until_up_def split: option.splits if_splits
      intro: sim_evolves_leave_sleep sim_evolves_await_link_up sim_evolves_await_node_up)

lemma sim_evolves_acquire: "acquire_permit l p s = Inr s' \<Longrightarrow> sim_evolves s s'"
  by (auto simp: acquire_permit_def Let_def split: if_splits
      intro: sim_evolves_trans [OF sim_evolves_semaphore sim_evolves_sleep])

lemma sim_evolves_link_queue:
  assumes "process_link_queue l s = Inr s'"
  shows "sim_evolves s s'"
proof -
  have start: "sim_evolves s (set_link l ((sim_link s l)\<lparr>nl_outgoing_queue := q\<rparr>) s)" for q
    by (simp add: sim_evolves_set_link)
  show ?thesis
    using assms
    by (auto simp: process_link_queue_def sleep_until_ready_to_send_def Let_def
        split: link_phase.splits list.splits if_splits
        intro: sim_evolves_prefer sim_evolves_acquire sim_evolves_sleep sim_evolves_leave_sleep
          sim_evolves_await_node_up sim_evolves_check
          sim_evolves_trans [OF start sim_evolves_prefer] sim_evolves_trans [OF start sim_evolves_acquire])
qed

lemma sim_evolves_node_buffer:
  assumes "process_buffer_for_node ops i s = Inr s'"
  shows "sim_evolves s s'"
proof -
  have offers: "evolves now nw (fold (offer_packet ops i p links h) ls (put_node i n nw))"
    if "node_name n = node_name (nw_nodes nw ! i)" for now p links h ls n and nw :: "'a network"
    by (rule evolves_trans [OF evolves_put_node [OF that] evolves_fold]) (rule evolves_offer)
  have offered: "sim_evolves s (s\<lparr>sim_handled := h, sim_network := nw\<rparr>)"
    if "evolves (sim_now s) (sim_network s) nw" for h nw
    using that by (simp add: sim_evolves_def forwarders_ok_def)
  show ?thesis
    using assms
    by (auto simp: process_buffer_for_node_def Let_def bind_ok_Inr_iff
        split: if_splits list.splits
        intro!: sim_evolves_network evolves_put_node offered offers)
qed

lemma sim_evolves_forwarder:
  assumes "forward_packets_from_link_to_node ops l s = Inr s'"
    and "forwarders_ok s" and "l < length (sim_forwarders s)"
  shows "sim_evolves s s'"
proof -
  obtain r f q where p: "poll (sim_now s) l (sim_forwarders s ! l) (nl_in_transit (sim_link s l)) = (r, f, q)"
    by (cases "poll (sim_now s) l (sim_forwarders s ! l) (nl_in_transit (sim_link s l))")
  have m: "np_max_transmits (sim_forwarders s ! l) = u64_max"
    using assms(2,3) by (simp add: forwarders_ok_def)
  then have max: "0 < np_max_transmits (sim_forwarders s ! l)" by (simp add: u64_max_def)
  define nw1 where "nw1 = put_link l ((sim_link s l)\<lparr>nl_in_transit := q\<rparr>) (sim_network s)"
  have ev: "evolves (sim_now s) (sim_network s) nw1"
    unfolding nw1_def by (rule evolves_put_link [OF link_evolves_poll [OF p max]])
  have fok: "forwarders_ok (s\<lparr>sim_network := nw, sim_forwarders := (sim_forwarders s)[l := g]\<rparr>)"
    if "np_max_transmits g = u64_max" for nw g
    using assms(2) that set_update_subset_insert [of "sim_forwarders s" l g]
    by (auto simp: forwarders_ok_def)
  have f: "np_max_transmits f = u64_max" using poll_spec(3) [OF max p] m by simp
  show ?thesis
  proof (cases r)
    case Pending
    with assms(1) p have "s' = s\<lparr>sim_network := nw1, sim_forwarders := (sim_forwarders s)[l := f]\<rparr>"
      by (simp add: forward_packets_from_link_to_node_def Let_def set_link_def nw1_def)
    with ev fok [OF f] show ?thesis by (simp add: sim_evolves_def)
  next
    case (Ready ds)
    with assms(1) p obtain nw where nw: "fold_ok (forward_delivered ops (sim_now s) l) nw1 ds = Inr nw"
      and s': "s' = s\<lparr>sim_network := nw,
                sim_forwarders := (sim_forwarders s)[l := next_delivered_packets u64_max]\<rparr>"
      by (auto simp: forward_packets_from_link_to_node_def Let_def set_link_def nw1_def map_sum_id_Inr)
    have "np_max_transmits (next_delivered_packets u64_max) = u64_max"
      by (simp add: next_delivered_packets_def next_packet_delivery_new_def)
    from fok [OF this] evolves_trans [OF ev at_nodes_evolves [OF at_nodes_forward_all [OF nw]]]
    show ?thesis by (simp add: s' sim_evolves_def)
  qed
qed

lemma sim_evolves_events: "sim_evolves s (run_events s)"
proof (cases "sim_events s")
  case (Cons e es)
  then show ?thesis
    by (simp add: run_events_def sim_evolves_def forwarders_ok_def evolves_process_event)
qed (simp add: run_events_def)

lemma sim_evolves_send_from:
  assumes "send_from ops i t s = Inr s'"
  shows "sim_evolves s s'"
proof -
  obtain d nw nw' where d: "in_transit_data ops i t (sim_network s) = Inr (d, nw)"
    and nw': "forward ops (sim_now s) i d nw = Inr nw'" and s': "s' = s\<lparr>sim_network := nw'\<rparr>"
    using assms by (auto simp: send_from_def bind_ok_Inr_iff map_sum_id_Inr)
  from at_nodes_trans [OF at_nodes_in_transit_data [OF d] at_nodes_forward [OF nw']]
  show ?thesis by (simp add: s' sim_evolves_network at_nodes_evolves)
qed

lemma sim_evolves_read_at:
  assumes "read_at i w m s = Inr (ds, s')"
  shows "sim_evolves s s'"
proof -
  have ev: "evolves (sim_now s) (sim_network s) (put_node i n (sim_network s))"
    if "node_name n = node_name (sim_node s i)" for n
    by (rule evolves_put_node [OF that])
  have read: "evolves (sim_now s) (sim_network s)
      (put_tracer (fold (\<lambda>d. track_read_by_host (sim_now s) k (dt_data d)) xs
         (nw_tracer (sim_network s))) (put_node i n (sim_network s)))"
    if "node_name n = node_name (sim_node s i)" for n k xs
    using evolves_trans [OF ev [OF that] evolves_put_tracer] grows_fold_read by fastforce
  show ?thesis
    using assms
    by (auto simp: read_at_def Let_def sim_evolves_def forwarders_ok_def
        split: option.splits prod.splits poll_result.splits intro!: ev read)
qed

section \<open>Time\<close>

text \<open>
  The log is in time order and never ahead of the clock; every link is well formed; the tasks of
  the links are as many as the links.
\<close>

definition clock_ok :: "'r simulation \<Rightarrow> bool" where
  "clock_ok s \<longleftrightarrow>
     chronological (sim_now s) (nw_tracer (sim_network s)) \<and>
     (\<forall>i < length (nw_links (sim_network s)). in_flight_ok (sim_now s) (sim_link s i)) \<and>
     forwarders_ok s \<and> length (sim_forwarders s) = length (nw_links (sim_network s)) \<and>
     length (sim_link_tasks s) = length (nw_links (sim_network s))"

lemma clock_ok_evolves: "clock_ok s \<Longrightarrow> sim_evolves s s' \<Longrightarrow> clock_ok s'"
  by (auto simp: clock_ok_def sim_evolves_def evolves_def same_tables_def link_evolves_def
      intro: chronological_grows)

lemma sim_step_evolves:
  assumes "sim_step ops lab s = Inr s'" and "clock_ok s" and "\<forall>d. lab \<noteq> Tick d"
  shows "sim_evolves s s'"
proof (cases lab)
  case (RunForwarder l)
  with assms show ?thesis
    by (auto simp: sim_step_def clock_ok_def split: if_splits intro: sim_evolves_forwarder)
qed (use assms in \<open>auto simp: sim_step_def sim_evolves_events map_sum_id_Inr split: if_splits
       intro: sim_evolves_node_buffer sim_evolves_link_queue sim_evolves_send_from
         sim_evolves_read_at\<close>)

lemma clock_ok_step:
  assumes "clock_ok s" and "net_step ops s lab t"
  shows "clock_ok t"
proof (cases "\<exists>d. lab = Tick d")
  case True
  then obtain d where "t = s\<lparr>sim_now := sim_now s + d\<rparr>"
    using assms(2) by (auto simp: net_step_def sim_step_def)
  with assms(1) show ?thesis
    by (auto simp: clock_ok_def forwarders_ok_def intro: chronological_later in_flight_ok_later)
next
  case False
  with assms(2) have "sim_evolves s t"
    by (intro sim_step_evolves [OF _ assms(1)]) (auto simp: net_step_def)
  with assms(1) show ?thesis by (rule clock_ok_evolves)
qed

section \<open>Initial states\<close>

definition initial_node :: "network_node_spec \<Rightarrow> node" where
  "initial_node spec =
     node_of_spec spec
       (if ns_kind spec = Host
        then Some \<lparr>ue_addr = \<lparr>sa_ip = hd (spec_addresses spec), sa_port = host_port\<rparr>,
                   ue_inbound = inbound_queue_new\<rparr>
        else None)"

definition initial_nodes :: "network_spec \<Rightarrow> network_node_spec list" where
  "initial_nodes spec =
     filter (\<lambda>n. ns_kind n = Host) (spec_nodes spec) @ filter (\<lambda>n. ns_kind n \<noteq> Host) (spec_nodes spec)"

definition tables_ok :: "'r network \<Rightarrow> bool" where
  "tables_ok nw \<longleftrightarrow>
     in_bounds (nw_nodes_by_addr nw) (length (nw_nodes nw)) \<and>
     in_bounds (nw_nodes_by_id nw) (length (nw_nodes nw)) \<and>
     in_bounds (nw_links_by_addr nw) (length (nw_links nw)) \<and>
     in_bounds (nw_links_by_id nw) (length (nw_links nw))"

lemma tables_ok_same: "same_tables nw nw' \<Longrightarrow> tables_ok nw \<longleftrightarrow> tables_ok nw'"
  by (simp add: tables_ok_def same_tables_def)

text \<open>Each step of the construction appends one element and keeps the tables in bounds.\<close>

definition table_ok :: "'a list \<times> ('k \<rightharpoonup> nat) \<times> ('i \<rightharpoonup> nat) \<Rightarrow> bool" where
  "table_ok tab =
     (case tab of (xs, m1, m2) \<Rightarrow> in_bounds m1 (length xs) \<and> in_bounds m2 (length xs))"

lemma table_ok_empty [simp]: "table_ok ([], Map.empty, Map.empty)"
  by (simp add: table_ok_def)

definition table_grows ::
  "'a list \<times> ('k \<rightharpoonup> nat) \<times> ('i \<rightharpoonup> nat) \<Rightarrow> 'a \<Rightarrow> 'a list \<times> ('k \<rightharpoonup> nat) \<times> ('i \<rightharpoonup> nat) \<Rightarrow> bool" where
  "table_grows tab y tab' \<longleftrightarrow> fst tab' = fst tab @ [y] \<and> (table_ok tab \<longrightarrow> table_ok tab')"

lemma node_host_Inr: "node_host spec = Inr (n, e) \<Longrightarrow> n = initial_node spec"
  by (auto simp: node_host_def initial_node_def Let_def split: list.splits if_splits)

lemma add_host_Inr:
  assumes "add_host tab h = Inr tab'"
  shows "table_grows tab (initial_node h) tab'"
  using assms
  by (cases tab) (auto simp: add_host_def bind_ok_Inr_iff Let_def table_grows_def table_ok_def split: if_splits
      dest: node_host_Inr)

lemma add_network_link_Inr:
  assumes "add_network_link tab l = Inr tab'"
  shows "table_grows tab (link_new l) tab'"
  using assms
  by (cases tab) (auto simp: add_network_link_def table_grows_def table_ok_def split: if_splits option.splits)

lemma add_router_address_Inr:
  assumes "fold_ok (add_router_address nodes r (length nodes)) m addrs = Inr m'"
    and "in_bounds m (length nodes)"
  shows "in_bounds m' (Suc (length nodes))"
  using assms(1)
proof (rule fold_ok_invariant [where P = "\<lambda>m. in_bounds m (Suc (length nodes))"])
  show "in_bounds m (Suc (length nodes))" by (rule in_bounds_mono [OF assms(2)]) simp
qed (auto simp: add_router_address_def split: option.splits)

lemma add_router_Inr:
  assumes "add_router tab r = Inr tab'" and "ns_kind r \<noteq> Host"
  shows "table_grows tab (initial_node r) tab'"
  using assms add_router_address_Inr
  by (cases tab)
    (fastforce simp: add_router_def bind_ok_Inr_iff Let_def table_grows_def table_ok_def node_router_def
      initial_node_def split: if_splits)

lemma fold_ok_table:
  assumes "fold_ok f tab xs = Inr tab'"
    and "\<And>tab x tab'. x \<in> set xs \<Longrightarrow> f tab x = Inr tab' \<Longrightarrow> table_grows tab (g x) tab'"
  shows "fst tab' = fst tab @ map g xs \<and> (table_ok tab \<longrightarrow> table_ok tab')"
  using assms
proof (induction xs arbitrary: tab)
  case (Cons x xs)
  then obtain t where t: "f tab x = Inr t" "fold_ok f t xs = Inr tab'"
    by (auto simp: bind_ok_Inr_iff)
  have "table_grows tab (g x) t" using t(1) by (rule Cons.prems(2) [rotated]) simp
  moreover have "fst tab' = fst t @ map g xs \<and> (table_ok t \<longrightarrow> table_ok tab')"
    using t(2) by (rule Cons.IH) (rule Cons.prems(2), simp)
  ultimately show ?case by (simp add: table_grows_def)
qed simp

lemma build_network_Inr:
  assumes "build_network spec t rng = Inr nw"
  shows "nw_nodes nw = map initial_node (initial_nodes spec)"
    and "nw_links nw = map link_new (spec_links spec)"
    and "nw_tracer nw = t" and "tables_ok nw" and "nw_routes_by_addr nw = routes_of_spec spec"
proof -
  let ?hosts = "filter (\<lambda>n. ns_kind n = Host) (spec_nodes spec)"
  let ?routers = "filter (\<lambda>n. ns_kind n \<noteq> Host) (spec_nodes spec)"
  obtain hs ls ns where hs: "fold_ok add_host ([], Map.empty, Map.empty) ?hosts = Inr hs"
    and ls: "fold_ok add_network_link ([], Map.empty, Map.empty) (spec_links spec) = Inr ls"
    and ns: "fold_ok add_router hs ?routers = Inr ns"
    and nw: "nw_nodes nw = fst ns" "nw_nodes_by_addr nw = fst (snd ns)"
      "nw_nodes_by_id nw = snd (snd ns)" "nw_links nw = fst ls"
      "nw_links_by_addr nw = fst (snd ls)" "nw_links_by_id nw = snd (snd ls)" "nw_tracer nw = t"
      "nw_routes_by_addr nw = routes_of_spec spec"
    using assms
    by (auto simp: build_network_def Let_def bind_ok_Inr_iff split: if_splits prod.splits)
  note h = fold_ok_table [OF hs, of initial_node, OF add_host_Inr]
  note l = fold_ok_table [OF ls, of link_new, OF add_network_link_Inr]
  have n: "fst ns = fst hs @ map initial_node ?routers \<and> (table_ok hs \<longrightarrow> table_ok ns)"
    by (rule fold_ok_table [OF ns], rule add_router_Inr) auto
  show "nw_nodes nw = map initial_node (initial_nodes spec)"
    using h n by (simp add: nw initial_nodes_def)
  show "nw_links nw = map link_new (spec_links spec)" using l by (simp add: nw)
  show "nw_tracer nw = t" by (fact nw(7))
  show "nw_routes_by_addr nw = routes_of_spec spec" by (fact nw(8))
  have "table_ok ns" "table_ok ls" using h n l by auto
  then show "tables_ok nw" by (cases ns; cases ls) (simp add: tables_ok_def table_ok_def nw)
qed

lemma started_network:
  assumes "started spec s"
  obtains nw t0 where "t0 \<le> sim_now s" "tr_simulation_start (nw_tracer nw) = t0"
    "log_of (nw_tracer nw) = []"
    "nw_nodes nw = map initial_node (initial_nodes spec)"
    "nw_links nw = map link_new (spec_links spec)" "tables_ok nw"
    "nw_routes_by_addr nw = routes_of_spec spec"
    "evolves (sim_now s) nw (sim_network s)" "sim_handled s = []"
    "sim_link_tasks s = replicate (length (nw_links (sim_network s))) Idle"
    "sim_forwarders s = replicate (length (nw_links (sim_network s))) (next_delivered_packets u64_max)"
    "\<exists>es1 es2. sim_network s =
       fold (process_node_event (sim_now s)) es2 (fold (process_link_event (sim_now s)) es1 nw)"
    "tr_network_spec (nw_tracer nw) = spec" "build_network spec (nw_tracer nw) (nw_rng nw) = Inr nw"
proof -
  obtain evs t0 t rng start w now where t0: "t0 \<le> now" and t: "fresh_tracer t0 spec t"
    and i: "initialize spec (network_events_new evs (spec_nodes spec) (spec_links spec)) t rng start w now = Inr s"
    using assms by (auto simp: started_def)
  define e where "e = network_events_new evs (spec_nodes spec) (spec_links spec)"
  from i obtain nw where b: "build_network spec t rng = Inr nw"
    and n: "sim_network s = fold (process_node_event now) (initial_node_events e)
        (fold (process_link_event now) (initial_link_events e) nw)"
    and s: "sim_now s = now" "sim_handled s = []"
      "sim_link_tasks s = replicate (length (nw_links (sim_network s))) Idle"
      "sim_forwarders s = replicate (length (nw_links (sim_network s))) (next_delivered_packets u64_max)"
    by (auto simp: initialize_def bind_ok_Inr_iff Let_def e_def split: if_splits)
  have "evolves now nw (fold (process_link_event now) es1 nw)" for es1
    by (rule evolves_fold) (rule evolves_process_link_event)
  moreover have "evolves now nw1 (fold (process_node_event now) es2 nw1)" for es2 and nw1 :: "'a network"
    by (rule evolves_fold) (rule evolves_process_node_event)
  ultimately have "evolves now nw (sim_network s)" unfolding n by (blast intro: evolves_trans)
  moreover have "tr_simulation_start t = t0" "log_of t = []" "tr_network_spec t = spec"
    using t by (auto simp: fresh_tracer_def tracer_new_def mute_warnings_def log_of_def)
  moreover have "nw_rng nw = rng"
    using b by (auto simp: build_network_def Let_def bind_ok_Inr_iff split: if_splits prod.splits)
  ultimately show ?thesis
    using that [of t0 nw] build_network_Inr(1,2,3,4,5) [OF b] b t0 s n by metis
qed

lemma in_flight_ok_new: "in_flight_ok now (link_new l)"
  by (simp add: in_flight_ok_def link_new_def queue_new_ok) (simp add: inbound_queue_new_def)

lemma clock_ok_started: "started spec s \<Longrightarrow> clock_ok s"
proof (erule started_network)
  fix nw t0
  assume a: "t0 \<le> sim_now s" "tr_simulation_start (nw_tracer nw) = t0" "log_of (nw_tracer nw) = []"
    "nw_links nw = map link_new (spec_links spec)" "evolves (sim_now s) nw (sim_network s)"
    "sim_link_tasks s = replicate (length (nw_links (sim_network s))) Idle"
    "sim_forwarders s = replicate (length (nw_links (sim_network s))) (next_delivered_packets u64_max)"
  have "chronological (sim_now s) (nw_tracer nw)"
    using a(1-3) by (simp add: chronological_def)
  then have "chronological (sim_now s) (nw_tracer (sim_network s))"
    using a(5) chronological_grows by (auto simp: evolves_def)
  moreover have "in_flight_ok (sim_now s) (sim_link s i)" if "i < length (nw_links (sim_network s))" for i
    using that a(4,5) in_flight_ok_new by (auto simp: evolves_def same_tables_def link_evolves_def)
  moreover have "forwarders_ok s"
    by (simp add: forwarders_ok_def a(7) next_delivered_packets_def next_packet_delivery_new_def)
  ultimately show "clock_ok s" using a(6,7) by (simp add: clock_ok_def)
qed

lemma clock_ok_reach: "sim.reach spec ops s \<Longrightarrow> clock_ok s"
  by (erule sim.reach_invariant) (auto intro: clock_ok_started clock_ok_step)

end
