(* ===== verification/Network_Pacing.thy ===== *)
theory Network_Pacing
  imports Network_Inv
begin

text \<open>
  The sanity checks of a link. The invariant ties the phase of a link's task to the semaphore and
  the pacer: while a packet waits the permit is taken, and once the wait for bandwidth is over the
  pacer stays ready until the packet is sent, because only this task sends on the link. The checks
  that the pacer is ready and that waiting was necessary therefore never fail, on any schedule;
  the check that the link is up can fail only after the task has yielded to other links.
\<close>

section \<open>The invariant of a link task\<close>

fun phase_packets :: "link_phase \<Rightarrow> outgoing_packet list" where
  "phase_packets Idle = []"
| "phase_packets (Acquiring p) = [p]"
| "phase_packets (SleepBandwidth p d) = [p]"
| "phase_packets (WaitLink p t) = [p]"
| "phase_packets (WaitNode p t) = [p]"
| "phase_packets (Yielded p) = [p]"

definition link_packets :: "'r simulation \<Rightarrow> nat \<Rightarrow> outgoing_packet list" where
  "link_packets s l = nl_outgoing_queue (sim_link s l) @ phase_packets (sim_link_tasks s ! l)"

fun link_task_ok :: "instant \<Rightarrow> bool list \<Rightarrow> network_link \<Rightarrow> link_phase \<Rightarrow> bool" where
  "link_task_ok now handled l Idle \<longleftrightarrow> nl_semaphore l = 1"
| "link_task_ok now handled l (Acquiring p) \<longleftrightarrow> False"
| "link_task_ok now handled l (SleepBandwidth p d) \<longleftrightarrow> nl_semaphore l = 0 \<and> can_send d (nl_pacer l)"
| "link_task_ok now handled l (WaitLink p t) \<longleftrightarrow> nl_semaphore l = 0 \<and> can_send now (nl_pacer l)"
| "link_task_ok now handled l (WaitNode p t) \<longleftrightarrow> nl_semaphore l = 0 \<and> can_send now (nl_pacer l)"
| "link_task_ok now handled l (Yielded p) \<longleftrightarrow>
     nl_semaphore l = 1 \<and> (handled ! op_handled p \<or> can_send now (nl_pacer l))"

definition packet_ok :: "'r simulation \<Rightarrow> outgoing_packet \<Rightarrow> bool" where
  "packet_ok s p \<longleftrightarrow>
     op_handled p < length (sim_handled s) \<and> op_src_node p < length (nw_nodes (sim_network s))"

definition tasks_ok :: "'r simulation \<Rightarrow> bool" where
  "tasks_ok s \<longleftrightarrow>
     length (sim_link_tasks s) = length (nw_links (sim_network s)) \<and> tables_ok (sim_network s) \<and>
     (\<forall>l < length (nw_links (sim_network s)).
        link_task_ok (sim_now s) (sim_handled s) (sim_link s l) (sim_link_tasks s ! l) \<and>
        (\<forall>p \<in> set (link_packets s l). packet_ok s p))"

text \<open>
  What a step of the task of link \<open>l\<close> may do: it changes link \<open>l\<close> and its phase only, handles
  packets but never un-handles one, and keeps or drops the packets it has.
\<close>

definition handled_mono :: "bool list \<Rightarrow> bool list \<Rightarrow> bool" where
  "handled_mono h h' \<longleftrightarrow> length h \<le> length h' \<and> (\<forall>i < length h. h ! i \<longrightarrow> h' ! i)"

lemma handled_mono_refl [simp]: "handled_mono h h"
  by (simp add: handled_mono_def)

lemma handled_mono_trans: "handled_mono a b \<Longrightarrow> handled_mono b c \<Longrightarrow> handled_mono a c"
  by (auto simp: handled_mono_def)

lemma handled_mono_set [simp]: "handled_mono h (h[i := True])"
  by (auto simp: handled_mono_def) (metis nth_list_update_eq nth_list_update_neq)

lemma handled_mono_snoc [simp]: "handled_mono h (h @ [b])"
  by (auto simp: handled_mono_def nth_append)

lemma link_task_ok_mono:
  assumes "link_task_ok now h l ph" and "handled_mono h h'" and "now \<le> now'"
    and "\<forall>p \<in> set (phase_packets ph). op_handled p < length h"
  shows "link_task_ok now' h' l ph"
  using assms by (cases ph) (auto simp: handled_mono_def intro: can_send_mono)

definition only_link :: "nat \<Rightarrow> 'r simulation \<Rightarrow> 'r simulation \<Rightarrow> bool" where
  "only_link l s s' \<longleftrightarrow>
     sim_now s' = sim_now s \<and> handled_mono (sim_handled s) (sim_handled s') \<and>
     length (sim_handled s') = length (sim_handled s) \<and>
     length (sim_link_tasks s') = length (sim_link_tasks s) \<and>
     same_tables (sim_network s) (sim_network s') \<and>
     (\<forall>k. k \<noteq> l \<longrightarrow> sim_link s' k = sim_link s k \<and> sim_link_tasks s' ! k = sim_link_tasks s ! k)"

lemma only_link_refl [simp]: "only_link l s s"
  by (simp add: only_link_def)

lemma only_link_trans: "only_link l a b \<Longrightarrow> only_link l b c \<Longrightarrow> only_link l a c"
  by (auto simp: only_link_def intro: same_tables_trans handled_mono_trans)

lemma only_link_simps [simp]:
  "only_link l s (put_phase l ph s)" "only_link l s (set_link l link s)"
  by (simp_all add: only_link_def put_phase_def set_link_def same_tables_def)

text \<open>The result of a piece of the task that works on packet \<open>p\<close>.\<close>

definition piece_ok :: "nat \<Rightarrow> outgoing_packet \<Rightarrow> bool \<Rightarrow> 'r simulation \<Rightarrow> panic + 'r simulation \<Rightarrow> bool" where
  "piece_ok l p up s r \<longleftrightarrow>
     (case r of
        Inl e \<Rightarrow> (\<exists>i. e = EcnUnsupported i) \<or> \<not> up \<and> (\<exists>i. e = LinkIsDown i)
      | Inr s' \<Rightarrow>
          only_link l s s' \<and>
          link_task_ok (sim_now s') (sim_handled s') (sim_link s' l) (sim_link_tasks s' ! l) \<and>
          nl_outgoing_queue (sim_link s' l) = nl_outgoing_queue (sim_link s l) \<and>
          (\<forall>q \<in> set (phase_packets (sim_link_tasks s' ! l)).
             op_handled q = op_handled p \<and> op_src_node q = op_src_node p \<and> op_data q = op_data p))"

lemma piece_ok_trans:
  assumes "only_link l s s1" and "piece_ok l p up s1 r"
    and "nl_outgoing_queue (sim_link s1 l) = nl_outgoing_queue (sim_link s l)"
  shows "piece_ok l p up s r"
  using assms by (auto simp: piece_ok_def split: sum.splits intro: only_link_trans)

lemma piece_ok_weaken: "piece_ok l p True s r \<Longrightarrow> piece_ok l p up s r"
  by (auto simp: piece_ok_def split: sum.splits)

text \<open>The situation in which the task holds packet \<open>p\<close>.\<close>

definition holds :: "nat \<Rightarrow> outgoing_packet \<Rightarrow> nat \<Rightarrow> 'r simulation \<Rightarrow> bool" where
  "holds l p permits s \<longleftrightarrow>
     l < length (nw_links (sim_network s)) \<and> l < length (sim_link_tasks s) \<and> packet_ok s p \<and>
     nl_semaphore (sim_link s l) = permits"

abbreviation can_go :: "nat \<Rightarrow> outgoing_packet \<Rightarrow> 'r simulation \<Rightarrow> bool" where
  "can_go l p s \<equiv> already_handled s p \<or> can_send (sim_now s) (nl_pacer (sim_link s l))"

abbreviation is_up :: "nat \<Rightarrow> outgoing_packet \<Rightarrow> 'r simulation \<Rightarrow> bool" where
  "is_up l p s \<equiv> already_handled s p \<or> nl_status (sim_link s l) = Up"

lemma link_send_Inl:
  assumes "link_send now d an (l, n, t) = Inl e" and "can_send now (nl_pacer l)"
  shows "(\<exists>i. e = EcnUnsupported i) \<or> nl_status l \<noteq> Up \<and> (\<exists>i. e = LinkIsDown i)"
  using assms by (auto simp: link_send_def Let_def split: if_splits)

lemma only_link_node:
  "node_name n = node_name (sim_node s i) \<Longrightarrow>
    only_link l s (s\<lparr>sim_network := put_tracer t (put_link l link (put_node i n (sim_network s)))\<rparr>)"
  "only_link l s (s\<lparr>sim_network := put_tracer t (sim_network s)\<rparr>)"
  "only_link l s (s\<lparr>sim_handled := (sim_handled s)[h := True]\<rparr>)"
  by (simp_all add: only_link_def same_tables_def)

lemma ready_to_send_piece:
  assumes "holds l p 1 s" and "can_go l p s"
  shows "piece_ok l p (is_up l p s) s (ready_to_send l p s)"
  using refl [of "ready_to_send l p s"]
proof (cases rule: ready_to_send_cases)
  case handled
  with assms show ?thesis
    by (simp add: piece_ok_def holds_def) (simp add: put_phase_def)
next
  case cleared
  with assms show ?thesis
    by (auto simp: piece_ok_def holds_def only_link_def put_phase_def same_tables_def)
next
  case (sent link n t)
  from sent(3) show ?thesis
  proof (cases rule: link_send_InrE)
    case (1 d)
    with sent(4) assms show ?thesis
      by (auto simp: piece_ok_def holds_def only_link_def put_phase_def same_tables_def)
  qed
next
  case (panic e)
  with assms(2) link_send_Inl [OF panic(2)] show ?thesis
    by (auto simp: piece_ok_def)
qed

lemma prefer_piece:
  assumes "holds l p 1 s" and "can_go l p s"
  shows "piece_ok l p (is_up l p s) s (prefer_other_links l p s)"
proof (cases "op_preferred_links p")
  case Nil
  with ready_to_send_piece [OF assms] show ?thesis by (simp add: prefer_other_links_def)
next
  case (Cons k ks)
  let ?p = "p\<lparr>op_preferred_links := ks\<rparr>"
  have p: "holds l ?p 1 s" "can_go l ?p s"
    using assms by (simp_all add: holds_def packet_ok_def already_handled_def)
  have "piece_ok l p (is_up l p s) s (ready_to_send l ?p s)"
    using ready_to_send_piece [OF p] by (simp add: piece_ok_def already_handled_def split: sum.splits)
  moreover have "piece_ok l p up s (Inr (put_phase l (Yielded ?p) s))" for up
    using assms by (simp add: piece_ok_def holds_def) (simp add: put_phase_def already_handled_def)
  ultimately show ?thesis by (simp add: prefer_other_links_def Cons Let_def)
qed

lemma set_link_simps [simp]:
  "sim_handled (set_link l k s) = sim_handled s" "sim_now (set_link l k s) = sim_now s"
  "sim_link_tasks (set_link l k s) = sim_link_tasks s"
  "l < length (nw_links (sim_network s)) \<Longrightarrow> sim_link (set_link l k s) l = k"
  "nw_nodes (sim_network (set_link l k s)) = nw_nodes (sim_network s)"
  "length (nw_links (sim_network (set_link l k s))) = length (nw_links (sim_network s))"
  by (simp_all add: set_link_def)

lemma holds_set_link:
  "holds l p k s \<Longrightarrow> nl_semaphore link = k' \<Longrightarrow> holds l p k' (set_link l link s)"
  by (simp add: holds_def packet_ok_def)

lemma leave_sleep_piece:
  assumes "holds l p 0 s" and "can_go l p s"
  shows "piece_ok l p (is_up l p s) s (leave_sleep l p s)"
proof -
  let ?s = "set_link l ((sim_link s l)\<lparr>nl_semaphore := Suc (nl_semaphore (sim_link s l))\<rparr>) s"
  have l: "l < length (nw_links (sim_network s))" using assms(1) by (simp add: holds_def)
  have "holds l p 1 ?s" using assms(1) by (intro holds_set_link [of l p 0]) (auto simp: holds_def)
  moreover have "can_go l p ?s" using assms(2) l by (simp add: already_handled_def)
  ultimately have "piece_ok l p (is_up l p ?s) ?s (prefer_other_links l p ?s)"
    by (rule prefer_piece)
  moreover have "is_up l p ?s = is_up l p s" using l by (simp add: already_handled_def)
  ultimately show ?thesis
    using l by (intro piece_ok_trans [of l s ?s]) (simp_all add: leave_sleep_def Let_def)
qed

lemma wait_phase_piece:
  assumes "holds l p 0 s" and "can_send (sim_now s) (nl_pacer (sim_link s l))"
  shows "piece_ok l p up s (Inr (put_phase l (WaitLink p t) s))"
    and "piece_ok l p up s (Inr (put_phase l (WaitNode p t) s))"
  using assms by (simp_all add: piece_ok_def holds_def) (simp_all add: put_phase_def)

lemma await_link_up_piece:
  assumes "holds l p 0 s" and "can_go l p s"
  shows "piece_ok l p True s (await_link_up l p t s)"
  using leave_sleep_piece [OF assms] wait_phase_piece(1) [OF assms(1)] assms(2)
  by (auto simp: await_link_up_def)

lemma check_piece:
  assumes "holds l p 0 s" and "can_go l p s"
  shows "piece_ok l p True s (check_link_still_up l p s)"
  using leave_sleep_piece [OF assms] await_link_up_piece [OF assms]
  by (auto simp: check_link_still_up_def notifier_def split: status.splits)

lemma await_node_up_piece:
  assumes "holds l p 0 s" and "can_go l p s"
  shows "piece_ok l p True s (await_node_up l p s)"
  using leave_sleep_piece [OF assms] check_piece [OF assms] wait_phase_piece(2) [OF assms(1)] assms(2)
  by (auto simp: await_node_up_def split: option.splits)

lemma sleep_piece:
  assumes "holds l p 0 s" and "can_send d (nl_pacer (sim_link s l))"
  shows "piece_ok l p True s (sleep_for_bandwidth l p d s)"
proof -
  consider "already_handled s p" | "\<not> already_handled s p" "d \<le> sim_now s"
    | "\<not> already_handled s p" "sim_now s < d" by fastforce
  then show ?thesis
  proof cases
    case 1
    with leave_sleep_piece [OF assms(1)] show ?thesis by (simp add: sleep_for_bandwidth_def)
  next
    case 2
    then have "can_go l p s" using assms(2) can_send_mono by blast
    with 2 await_link_up_piece [OF assms(1)] await_node_up_piece [OF assms(1)] show ?thesis
      by (auto simp: sleep_for_bandwidth_def wait_until_up_def split: option.splits)
  next
    case 3
    with assms show ?thesis
      by (simp add: sleep_for_bandwidth_def piece_ok_def holds_def) (simp add: put_phase_def)
  qed
qed

lemma acquire_piece:
  assumes "holds l p 1 s"
  shows "piece_ok l p True s (acquire_permit l p s)"
proof -
  let ?link = "sim_link s l"
  let ?s = "set_link l (?link\<lparr>nl_semaphore := nl_semaphore ?link - 1\<rparr>) s"
  let ?d = "sim_now s + duration_until_can_send (sim_now s) (nl_pacer ?link)"
  have l: "l < length (nw_links (sim_network s))" and sem: "nl_semaphore ?link = 1"
    using assms by (simp_all add: holds_def)
  have "holds l p 0 ?s" using assms sem by (intro holds_set_link [of l p 1]) auto
  moreover have "can_send ?d (nl_pacer (sim_link ?s l))" using l can_send_after_wait by simp
  ultimately have "piece_ok l p True ?s (sleep_for_bandwidth l p ?d ?s)" by (rule sleep_piece)
  then show ?thesis
    using l sem by (intro piece_ok_trans [of l s ?s]) (simp_all add: acquire_permit_def Let_def)
qed

section \<open>One step of a link task\<close>

lemma packet_ok_only_link:
  "only_link l s s' \<Longrightarrow> op_handled q = op_handled p \<Longrightarrow> op_src_node q = op_src_node p \<Longrightarrow>
    packet_ok s p \<Longrightarrow> packet_ok s' q"
  by (simp add: packet_ok_def only_link_def same_tables_def)

text \<open>A piece that starts with a packet of the link keeps the invariant.\<close>

lemma tasks_ok_piece:
  assumes "tasks_ok s" and "l < length (nw_links (sim_network s))" and "piece_ok l p up s (Inr s')"
    and "packet_ok s p"
  shows "tasks_ok s'"
proof -
  note piece = assms(3) [unfolded piece_ok_def sum.case]
  then have ol: "only_link l s s'" by blast
  have now: "sim_now s' = sim_now s" and mono: "handled_mono (sim_handled s) (sim_handled s')"
    and st: "same_tables (sim_network s) (sim_network s')"
    and len: "length (sim_link_tasks s') = length (sim_link_tasks s)"
    using ol by (simp_all add: only_link_def)
  have lens: "length (nw_links (sim_network s')) = length (nw_links (sim_network s))"
    using st by (simp add: same_tables_def)
  have each: "link_task_ok (sim_now s') (sim_handled s') (sim_link s' k) (sim_link_tasks s' ! k) \<and>
      (\<forall>q \<in> set (link_packets s' k). packet_ok s' q)"
    if k: "k < length (nw_links (sim_network s))" for k
  proof (cases "k = l")
    case False
    then have same: "sim_link s' k = sim_link s k" "sim_link_tasks s' ! k = sim_link_tasks s ! k"
      using ol by (simp_all add: only_link_def)
    have old: "link_task_ok (sim_now s) (sim_handled s) (sim_link s k) (sim_link_tasks s ! k)"
      "\<forall>q \<in> set (link_packets s k). packet_ok s q"
      using assms(1) k by (simp_all add: tasks_ok_def)
    then have "\<forall>q \<in> set (phase_packets (sim_link_tasks s ! k)). op_handled q < length (sim_handled s)"
      by (simp add: link_packets_def packet_ok_def)
    then have "link_task_ok (sim_now s') (sim_handled s') (sim_link s k) (sim_link_tasks s ! k)"
      using link_task_ok_mono [OF old(1) mono, of "sim_now s'"] by (simp add: now)
    with old(2) same show ?thesis
      by (auto simp: link_packets_def intro: packet_ok_only_link [OF ol])
  next
    case True
    have "packet_ok s q" if "q \<in> set (nl_outgoing_queue (sim_link s l))" for q
      using assms(1,2) that by (simp add: tasks_ok_def link_packets_def)
    then show ?thesis
      using True piece assms(4)
      by (auto simp: link_packets_def intro: packet_ok_only_link [OF ol])
  qed
  with assms(1) len lens tables_ok_same [OF st] show ?thesis
    by (simp add: tasks_ok_def)
qed

definition task_panic :: "link_phase \<Rightarrow> panic \<Rightarrow> bool" where
  "task_panic ph e \<longleftrightarrow>
     (\<exists>i. e = EcnUnsupported i) \<or> (\<exists>p. ph = Yielded p) \<and> (\<exists>i. e = LinkIsDown i)"

lemma tasks_ok_pop:
  assumes "tasks_ok s" and "l < length (nw_links (sim_network s))"
    and "nl_outgoing_queue (sim_link s l) = p # rest"
  shows "tasks_ok (set_link l ((sim_link s l)\<lparr>nl_outgoing_queue := rest\<rparr>) s)" (is "tasks_ok ?s")
proof -
  have st: "same_tables (sim_network s) (sim_network ?s)" by (simp add: set_link_def same_tables_def)
  have "link_task_ok (sim_now s) (sim_handled s) (sim_link ?s k) (sim_link_tasks s ! k) \<and>
      (\<forall>q \<in> set (link_packets ?s k). packet_ok s q)"
    if "k < length (nw_links (sim_network s))" for k
  proof (cases "k = l")
    case True
    have "link_task_ok (sim_now s) (sim_handled s) (sim_link s l) (sim_link_tasks s ! l)"
      "\<forall>q \<in> set (link_packets s l). packet_ok s q"
      using assms(1,2) by (simp_all add: tasks_ok_def)
    with True assms(2,3) show ?thesis
      by (cases "sim_link_tasks s ! l") (simp_all add: link_packets_def)
  next
    case False
    with assms(1) that show ?thesis by (simp add: tasks_ok_def link_packets_def set_link_def)
  qed
  with assms(1) tables_ok_same [OF st] show ?thesis
    by (auto simp: tasks_ok_def packet_ok_def)
qed

lemma piece_result:
  assumes "piece_ok l p up s r" and "tasks_ok s" and "packet_ok s p"
    and "l < length (nw_links (sim_network s))" and "up \<or> (\<exists>q. ph = Yielded q)"
  shows "case r of Inl e \<Rightarrow> task_panic ph e | Inr s' \<Rightarrow> tasks_ok s'"
proof (cases r)
  case (Inl e)
  with assms(1,5) show ?thesis by (auto simp: piece_ok_def task_panic_def)
next
  case (Inr s')
  with tasks_ok_piece [OF assms(2,4)] assms(1,3) show ?thesis by auto
qed

lemma process_link_queue_piece:
  assumes "tasks_ok s" and "l < length (nw_links (sim_network s))"
  shows "case process_link_queue l s of
      Inl e \<Rightarrow> task_panic (sim_link_tasks s ! l) e | Inr s' \<Rightarrow> tasks_ok s'"
proof -
  have ok: "link_task_ok (sim_now s) (sim_handled s) (sim_link s l) (sim_link_tasks s ! l)"
    and pk: "\<forall>q \<in> set (link_packets s l). packet_ok s q"
    and len: "l < length (sim_link_tasks s)"
    using assms by (simp_all add: tasks_ok_def)
  have holdsI: "holds l p k s" if "packet_ok s p" "nl_semaphore (sim_link s l) = k" for p k
    using that assms(2) len by (simp add: holds_def)
  show ?thesis
  proof (cases "sim_link_tasks s ! l")
    case Idle
    show ?thesis
    proof (cases "nl_outgoing_queue (sim_link s l)")
      case Nil
      with Idle assms(1) show ?thesis by (simp add: process_link_queue_def Let_def)
    next
      case (Cons p rest)
      let ?s = "set_link l ((sim_link s l)\<lparr>nl_outgoing_queue := rest\<rparr>) s"
      have p: "packet_ok s p" using pk Cons by (simp add: link_packets_def)
      then have p1: "packet_ok ?s p" by (simp add: packet_ok_def)
      have l1: "l < length (nw_links (sim_network ?s))" using assms(2) by simp
      have h: "holds l p 1 ?s"
        using p1 assms(2) len ok Idle by (simp add: holds_def)
      show ?thesis
      proof (cases "has_bandwidth_available (sim_now s) (sim_link ?s l)")
        case True
        then have "can_go l p ?s" "is_up l p ?s" by (simp_all add: has_bandwidth_available_iff)
        with prefer_piece [OF h] have "piece_ok l p True ?s (prefer_other_links l p ?s)" by simp
        from piece_result [OF this tasks_ok_pop [OF assms Cons] p1 l1] True show ?thesis
          by (simp add: process_link_queue_def Idle Cons Let_def)
      next
        case False
        from piece_result [OF acquire_piece [OF h] tasks_ok_pop [OF assms Cons] p1 l1] False show ?thesis
          by (simp add: process_link_queue_def Idle Cons Let_def sleep_until_ready_to_send_def)
      qed
    qed
  next
    case (Acquiring p)
    with ok show ?thesis by simp
  next
    case (SleepBandwidth p d)
    then have p: "packet_ok s p" using pk by (simp add: link_packets_def)
    have "piece_ok l p True s (sleep_for_bandwidth l p d s)"
      using ok SleepBandwidth holdsI [OF p] by (intro sleep_piece) simp_all
    from piece_result [OF this assms(1) p assms(2)] SleepBandwidth show ?thesis
      by (simp add: process_link_queue_def)
  next
    case (WaitLink p t)
    then have p: "packet_ok s p" using pk by (simp add: link_packets_def)
    have h: "holds l p 0 s" and go: "can_go l p s" using ok WaitLink holdsI [OF p] by simp_all
    from piece_result [OF leave_sleep_piece [OF h go] assms(1) p assms(2)]
      piece_result [OF await_node_up_piece [OF h go] assms(1) p assms(2)] assms(1) WaitLink
    show ?thesis by (simp add: process_link_queue_def)
  next
    case (WaitNode p t)
    then have p: "packet_ok s p" using pk by (simp add: link_packets_def)
    have h: "holds l p 0 s" and go: "can_go l p s" using ok WaitNode holdsI [OF p] by simp_all
    from piece_result [OF leave_sleep_piece [OF h go] assms(1) p assms(2)]
      piece_result [OF check_piece [OF h go] assms(1) p assms(2)] assms(1) WaitNode
    show ?thesis by (simp add: process_link_queue_def)
  next
    case (Yielded p)
    then have p: "packet_ok s p" using pk by (simp add: link_packets_def)
    have h: "holds l p 1 s" and go: "can_go l p s"
      using ok Yielded holdsI [OF p] by (auto simp: already_handled_def)
    from piece_result [OF prefer_piece [OF h go] assms(1) p assms(2)] Yielded show ?thesis
      by (simp add: process_link_queue_def)
  qed
qed

section \<open>The other steps\<close>

text \<open>
  The steps of nodes, forwarders, events and the application leave the pacers, semaphores and
  phases alone; at most they offer new packets to links.
\<close>

definition links_keep :: "(outgoing_packet \<Rightarrow> bool) \<Rightarrow> 'r network \<Rightarrow> 'r network \<Rightarrow> bool" where
  "links_keep new nw nw' \<longleftrightarrow>
     same_tables nw nw' \<and>
     (\<forall>l < length (nw_links nw).
        nl_semaphore (nw_links nw' ! l) = nl_semaphore (nw_links nw ! l) \<and>
        nl_pacer (nw_links nw' ! l) = nl_pacer (nw_links nw ! l) \<and>
        (\<forall>p \<in> set (nl_outgoing_queue (nw_links nw' ! l)).
           p \<in> set (nl_outgoing_queue (nw_links nw ! l)) \<or> new p))"

abbreviation nothing_new :: "outgoing_packet \<Rightarrow> bool" where
  "nothing_new \<equiv> \<lambda>_. False"

lemma links_keep_refl [simp]: "links_keep new nw nw"
  by (simp add: links_keep_def)

lemma links_keep_trans: "links_keep new a b \<Longrightarrow> links_keep new b c \<Longrightarrow> links_keep new a c"
  unfolding links_keep_def same_tables_def by (simp, blast)

lemma links_keep_at_nodes: "at_nodes now nw nw' \<Longrightarrow> links_keep new nw nw'"
  by (simp add: at_nodes_def links_keep_def)

lemma links_keep_put_link:
  assumes "nl_semaphore link = nl_semaphore (nw_links nw ! l)"
    and "nl_pacer link = nl_pacer (nw_links nw ! l)"
    and "\<forall>p \<in> set (nl_outgoing_queue link). p \<in> set (nl_outgoing_queue (nw_links nw ! l)) \<or> new p"
  shows "links_keep new nw (put_link l link nw)"
  using assms by (auto simp: links_keep_def same_tables_def nth_list_update_if)

lemma links_keep_fold:
  assumes "\<And>x nw. links_keep new nw (f x nw)"
  shows "links_keep new nw (fold f xs nw)"
  using assms by (induction xs arbitrary: nw) (auto intro: links_keep_trans)

lemma links_keep_offer:
  "links_keep (\<lambda>p. op_handled p = h \<and> op_src_node p = i) nw (offer_packet ops i p links h l nw)"
proof -
  obtain a nw1 where a: "generate_packet_anomalies ops l nw = (a, nw1)"
    by (cases "generate_packet_anomalies ops l nw")
  show ?thesis
    unfolding offer_packet_def a prod.case Let_def
    by (rule links_keep_trans [OF links_keep_at_nodes [OF at_nodes_anomalies [OF a]]],
        rule links_keep_put_link) auto
qed

lemma links_keep_process_event: "links_keep new nw (process_event now k nw)"
proof -
  have tracer: "links_keep new nw (put_tracer t nw)" for t and nw :: "'a network"
    by (simp add: links_keep_def same_tables_def)
  have node: "links_keep new nw (put_node i n nw)" if "node_name n = node_name (nw_nodes nw ! i)" for i n and nw :: "'a network"
    using that by (simp add: links_keep_def same_tables_def)
  have link: "links_keep new nw (put_link i (case st of None \<Rightarrow> nw_links nw ! i
      | Some st \<Rightarrow> link_update_status st now (nw_links nw ! i)) nw)" for i st
    by (rule links_keep_put_link) (auto split: option.splits)
  show ?thesis
    using links_keep_trans [OF node tracer] links_keep_trans [OF link tracer]
    by (auto simp: process_event_def process_link_event_def process_node_event_def Let_def
        split: network_event_kind.split option.split)
qed

lemma tasks_ok_keep:
  assumes "tasks_ok s" and "links_keep new (sim_network s) (sim_network s')"
    and "sim_link_tasks s' = sim_link_tasks s" and "sim_now s \<le> sim_now s'"
    and "handled_mono (sim_handled s) (sim_handled s')" and "\<And>p. new p \<Longrightarrow> packet_ok s' p"
  shows "tasks_ok s'"
proof -
  have st: "same_tables (sim_network s) (sim_network s')" using assms(2) by (simp add: links_keep_def)
  have mono: "packet_ok s p \<Longrightarrow> packet_ok s' p" for p
    using st assms(5) by (auto simp: packet_ok_def same_tables_def handled_mono_def)
  have "link_task_ok (sim_now s') (sim_handled s') (sim_link s' l) (sim_link_tasks s ! l) \<and>
      (\<forall>p \<in> set (link_packets s' l). packet_ok s' p)"
    if l: "l < length (nw_links (sim_network s))" for l
  proof -
    have old: "link_task_ok (sim_now s) (sim_handled s) (sim_link s l) (sim_link_tasks s ! l)"
      "\<forall>p \<in> set (link_packets s l). packet_ok s p"
      using assms(1) l by (simp_all add: tasks_ok_def)
    then have "\<forall>p \<in> set (phase_packets (sim_link_tasks s ! l)). op_handled p < length (sim_handled s)"
      by (simp add: link_packets_def packet_ok_def)
    then have "link_task_ok (sim_now s') (sim_handled s') (sim_link s l) (sim_link_tasks s ! l)"
      by (rule link_task_ok_mono [OF old(1) assms(5,4)])
    moreover have "nl_semaphore (sim_link s' l) = nl_semaphore (sim_link s l)"
      "nl_pacer (sim_link s' l) = nl_pacer (sim_link s l)"
      using assms(2) l by (simp_all add: links_keep_def)
    ultimately have "link_task_ok (sim_now s') (sim_handled s') (sim_link s' l) (sim_link_tasks s ! l)"
      by (cases "sim_link_tasks s ! l") simp_all
    moreover have "\<forall>p \<in> set (link_packets s' l). packet_ok s' p"
      using old(2) assms(2,3,6) mono l by (fastforce simp: link_packets_def links_keep_def)
    ultimately show ?thesis by blast
  qed
  with assms(1,3) tables_ok_same [OF st] st show ?thesis
    by (simp add: tasks_ok_def same_tables_def)
qed

lemma tasks_ok_quiet:
  assumes "tasks_ok s" and "links_keep nothing_new (sim_network s) (sim_network s')"
    and "sim_link_tasks s' = sim_link_tasks s" and "sim_now s \<le> sim_now s'"
    and "sim_handled s' = sim_handled s"
  shows "tasks_ok s'"
  using assms by (intro tasks_ok_keep [of s nothing_new s']) auto

lemma tasks_ok_node_buffer:
  assumes "process_buffer_for_node ops i s = Inr s'" and "tasks_ok s"
    and "i < length (nw_nodes (sim_network s))"
  shows "tasks_ok s'"
proof -
  let ?h = "length (sim_handled s)"
  let ?new = "\<lambda>p. op_handled p = ?h \<and> op_src_node p = i"
  have node: "links_keep new nw (put_node i n nw)" if "node_name n = node_name (nw_nodes nw ! i)" for new n and nw :: "'a network"
    using that by (simp add: links_keep_def same_tables_def)
  have offers: "links_keep ?new nw (fold (offer_packet ops i p links ?h) ls (put_node i n nw))"
    if "node_name n = node_name (nw_nodes nw ! i)" for p links ls n and nw :: "'a network"
    by (rule links_keep_trans [OF node [OF that] links_keep_fold]) (rule links_keep_offer)
  consider "s' = s"
    | n where "s' = s\<lparr>sim_network := put_node i n (sim_network s)\<rparr>" "node_name n = node_name (sim_node s i)"
    | p links n where "s' = s\<lparr>sim_handled := sim_handled s @ [False], sim_network :=
        fold (offer_packet ops i p links ?h) links (put_node i n (sim_network s))\<rparr>"
        "node_name n = node_name (sim_node s i)"
    using assms(1)
    by (fastforce simp: process_buffer_for_node_def Let_def bind_ok_Inr_iff
        split: if_splits list.splits)
  then show ?thesis
  proof cases
    case (2 n)
    then show ?thesis using node by (intro tasks_ok_quiet [OF assms(2)]) simp_all
  next
    case (3 p links n)
    have st: "same_tables (sim_network s) (sim_network s')"
      using offers [OF 3(2), of p links links] by (simp add: 3(1) links_keep_def)
    show ?thesis
      using offers [OF 3(2), of p links links] assms(3) st
      by (intro tasks_ok_keep [OF assms(2), of ?new]) (simp_all add: 3(1) packet_ok_def same_tables_def)
  qed (use assms(2) in simp)
qed

lemma tasks_ok_forwarder:
  assumes "forward_packets_from_link_to_node ops l s = Inr s'" and "tasks_ok s"
  shows "tasks_ok s'"
proof -
  obtain r f q where p: "poll (sim_now s) l (sim_forwarders s ! l) (nl_in_transit (sim_link s l)) = (r, f, q)"
    by (cases "poll (sim_now s) l (sim_forwarders s ! l) (nl_in_transit (sim_link s l))")
  define nw1 where "nw1 = put_link l ((sim_link s l)\<lparr>nl_in_transit := q\<rparr>) (sim_network s)"
  have k: "links_keep nothing_new (sim_network s) nw1"
    unfolding nw1_def by (rule links_keep_put_link) auto
  have s: "sim_now s' = sim_now s" "sim_link_tasks s' = sim_link_tasks s" "sim_handled s' = sim_handled s"
    and n: "sim_network s' = nw1 \<or>
      (\<exists>ds. fold_ok (forward_delivered ops (sim_now s) l) nw1 ds = Inr (sim_network s'))"
    using assms(1) p
    by (auto simp: forward_packets_from_link_to_node_def Let_def set_link_def nw1_def map_sum_id_Inr
        split: poll_result.splits)
  from n have "links_keep nothing_new nw1 (sim_network s')"
    using links_keep_at_nodes [OF at_nodes_forward_all] by auto
  with k show ?thesis
    by (intro tasks_ok_quiet [OF assms(2)]) (auto simp: s intro: links_keep_trans)
qed

lemma tasks_ok_app:
  assumes "tasks_ok s"
  shows "send_from ops i t s = Inr s' \<Longrightarrow> tasks_ok s'"
    and "read_at i w m s = Inr (ds, s') \<Longrightarrow> tasks_ok s'"
proof -
  assume "send_from ops i t s = Inr s'"
  then obtain d nw nw' where d: "in_transit_data ops i t (sim_network s) = Inr (d, nw)"
    and nw': "forward ops (sim_now s) i d nw = Inr nw'" and s': "s' = s\<lparr>sim_network := nw'\<rparr>"
    by (auto simp: send_from_def bind_ok_Inr_iff map_sum_id_Inr)
  from links_keep_at_nodes [OF at_nodes_trans [OF at_nodes_in_transit_data [OF d] at_nodes_forward [OF nw']]]
  show "tasks_ok s'" by (intro tasks_ok_quiet [OF assms]) (simp_all add: s')
next
  assume "read_at i w m s = Inr (ds, s')"
  then show "tasks_ok s'"
    by (intro tasks_ok_quiet [OF assms])
      (auto simp: read_at_def Let_def links_keep_def same_tables_def
        split: option.splits prod.splits poll_result.splits)
qed

lemma tasks_ok_step:
  assumes "tasks_ok s" and "net_step ops s lab t"
  shows "tasks_ok t"
proof (cases lab)
  case (RunLink l)
  with assms process_link_queue_piece [OF assms(1), of l] show ?thesis
    by (auto simp: net_step_def sim_step_def split: if_splits)
next
  case RunEvents
  with assms show ?thesis
    by (auto simp: net_step_def sim_step_def run_events_def links_keep_process_event
        intro: tasks_ok_quiet split: list.splits if_splits)
next
  case (Tick d)
  with assms show ?thesis
    by (auto simp: net_step_def sim_step_def intro: tasks_ok_quiet)
qed (use assms in \<open>auto simp: net_step_def sim_step_def map_sum_id_Inr split: if_splits
    intro: tasks_ok_node_buffer tasks_ok_forwarder tasks_ok_app\<close>)

text \<open>A simulation that just started is the built network after its initial events.\<close>

lemma started_links:
  assumes "started spec s"
  obtains nw where "nw_nodes nw = map initial_node (initial_nodes spec)"
    "links_keep nothing_new nw (sim_network s)" "tables_ok (sim_network s)"
    "\<forall>l < length (nw_links (sim_network s)). nl_semaphore (sim_link s l) = 1 \<and> link_packets s l = []"
    "build_network spec (nw_tracer nw) (nw_rng nw) = Inr nw"
    "\<exists>es1 es2. sim_network s =
       fold (process_node_event (sim_now s)) es2 (fold (process_link_event (sim_now s)) es1 nw)"
  using assms
proof (rule started_network)
  fix nw t0
  assume a: "nw_nodes nw = map initial_node (initial_nodes spec)"
    "nw_links nw = map link_new (spec_links spec)" "tables_ok nw"
    "sim_link_tasks s = replicate (length (nw_links (sim_network s))) Idle"
    "build_network spec (nw_tracer nw) (nw_rng nw) = Inr nw"
    "\<exists>es1 es2. sim_network s =
       fold (process_node_event (sim_now s)) es2 (fold (process_link_event (sim_now s)) es1 nw)"
  then obtain es1 es2 where n: "sim_network s =
      fold (process_node_event (sim_now s)) es2 (fold (process_link_event (sim_now s)) es1 nw)" by blast
  have ev: "links_keep nothing_new nw (process_node_event now e nw)"
    "links_keep nothing_new nw (process_link_event now e' nw)" for now e e' and nw :: "'a network"
    using links_keep_process_event [of nothing_new nw now "NodeEvent e"]
      links_keep_process_event [of nothing_new nw now "LinkEvent e'"]
    by (simp_all add: process_event_def)
  have keep: "links_keep nothing_new nw (sim_network s)"
    unfolding n by (rule links_keep_trans; rule links_keep_fold; rule ev)
  have "nl_semaphore (sim_link s l) = 1 \<and> link_packets s l = []" if "l < length (nw_links (sim_network s))" for l
    using keep that a(2,4) by (fastforce simp: links_keep_def same_tables_def link_new_def link_packets_def)
  moreover have "tables_ok (sim_network s)" using keep a(3) tables_ok_same by (auto simp: links_keep_def)
  ultimately show thesis using that [OF a(1) keep] a(5,6) by blast
qed

lemma tasks_ok_started:
  assumes "started spec s"
  shows "tasks_ok s"
proof -
  have "sim_link_tasks s = replicate (length (nw_links (sim_network s))) Idle"
    using assms by (rule started_network)
  with assms show ?thesis by (elim started_links) (simp add: tasks_ok_def)
qed

lemma tasks_ok_reach: "sim.reach spec ops s \<Longrightarrow> tasks_ok s"
  by (erule sim.reach_invariant) (auto intro: tasks_ok_started tasks_ok_step)

section \<open>Invariants through the task of a link\<close>

text \<open>
  A rule for the whole task: \<open>H p\<close> holds while the task works on packet \<open>p\<close>, \<open>G\<close> whenever it
  suspends. It is enough to look at the moment a packet is handled and at changes of the phase, the
  semaphore and the queue.
\<close>

lemma link_task_rule:
  fixes H :: "outgoing_packet \<Rightarrow> 'r simulation \<Rightarrow> bool" and G :: "'r simulation \<Rightarrow> bool"
  assumes ready: "\<And>p s s'. H p s \<Longrightarrow> ready_to_send l p s = Inr s' \<Longrightarrow> G s'"
    and phase: "\<And>p s ph. H p s \<Longrightarrow> (\<forall>q \<in> set (phase_packets ph). op_handled q = op_handled p \<and>
      op_src_node q = op_src_node p \<and> op_data q = op_data p) \<Longrightarrow> G (put_phase l ph s)"
    and permit: "\<And>p s k. H p s \<Longrightarrow> H p (set_link l ((sim_link s l)\<lparr>nl_semaphore := k\<rparr>) s)"
    and links: "\<And>p s ks. H p s \<Longrightarrow> H (p\<lparr>op_preferred_links := ks\<rparr>) s"
    and pop: "\<And>p rest. nl_outgoing_queue (sim_link s l) = p # rest \<Longrightarrow> H p s \<Longrightarrow>
      H p (set_link l ((sim_link s l)\<lparr>nl_outgoing_queue := rest\<rparr>) s)"
    and hand: "\<And>p. p \<in> set (link_packets s l) \<Longrightarrow> H p s"
    and start: "G s" and result: "process_link_queue l s = Inr s'"
  shows "G s'"
proof -
  have prefer': "G u'" if "H p u" "prefer_other_links l p u = Inr u'" for p u u'
    using that phase [OF that(1)] ready [OF that(1)] ready [OF links [OF that(1)]]
    by (auto simp: prefer_other_links_def Let_def split: list.splits if_splits)
  have leave: "G u'" if "H p u" "leave_sleep l p u = Inr u'" for p u u'
    using that prefer' [OF permit] by (auto simp: leave_sleep_def Let_def)
  have link_up: "G u'" if "H p u" "await_link_up l p t u = Inr u'" for p t u u'
    using that phase [OF that(1)] leave by (auto simp: await_link_up_def split: if_splits)
  have check: "G u'" if "H p u" "check_link_still_up l p u = Inr u'" for p u u'
    using that leave link_up by (auto simp: check_link_still_up_def split: option.splits)
  have node_up: "G u'" if "H p u" "await_node_up l p u = Inr u'" for p u u'
    using that phase [OF that(1)] leave check by (auto simp: await_node_up_def split: option.splits if_splits)
  have sleep: "G u'" if "H p u" "sleep_for_bandwidth l p d u = Inr u'" for p d u u'
    using that phase [OF that(1)] leave link_up node_up
    by (auto simp: sleep_for_bandwidth_def wait_until_up_def split: option.splits if_splits)
  have acquire: "G u'" if "H p u" "acquire_permit l p u = Inr u'" for p u u'
    using that phase [OF that(1)] sleep [OF permit [OF that(1)]]
    by (auto simp: acquire_permit_def Let_def split: if_splits)
  show ?thesis
  proof (cases "sim_link_tasks s ! l = Idle")
    case True
    show ?thesis
    proof (cases "nl_outgoing_queue (sim_link s l)")
      case Nil
      with True start result show ?thesis by (simp add: process_link_queue_def Let_def)
    next
      case (Cons p rest)
      have "H p (set_link l ((sim_link s l)\<lparr>nl_outgoing_queue := rest\<rparr>) s)"
        using Cons by (intro pop hand) (simp_all add: link_packets_def)
      with result True Cons prefer' acquire show ?thesis
        by (auto simp: process_link_queue_def sleep_until_ready_to_send_def Let_def split: if_splits)
    qed
  next
    case False
    then obtain p where p: "phase_packets (sim_link_tasks s ! l) = [p]"
      by (cases "sim_link_tasks s ! l") auto
    then have h: "H p s" by (intro hand) (simp add: link_packets_def)
    show ?thesis
      using result start p False acquire [OF h] sleep [OF h] leave [OF h] node_up [OF h] check [OF h]
        prefer' [OF h]
      by (cases "sim_link_tasks s ! l") (auto simp: process_link_queue_def split: if_splits)
  qed
qed

end
