(* ===== verification/Network_Buffers.thy ===== *)
theory Network_Buffers
  imports Network_Pacing
begin

text \<open>
  The byte budget of a node over a whole run. Every byte a node reserved is either in the node's
  channel or belongs to a packet that was offered to links and is not handled yet; a byte returns
  to the budget when the packet is sent. The invariant is an equation as long as the node's buffer
  was never cleared and its task is alive; otherwise an inequality, because packets dropped by a
  buffer clear and packets dropped with the channel are never released.
\<close>

section \<open>Nodes keep their accounts\<close>

definition node_bytes :: "node \<Rightarrow> nat" where
  "node_bytes n = available_capacity_bytes (nd_outbound_buffer n) + channel_bytes n"

definition node_keeps :: "node \<Rightarrow> node \<Rightarrow> bool" where
  "node_keeps n n' \<longleftrightarrow>
     node_bytes n' = node_bytes n \<and> nd_receiver n' = nd_receiver n \<and>
     (nd_last_buffer_clear n' = None \<longrightarrow> nd_last_buffer_clear n = None)"

lemma node_keeps_refl [simp]: "node_keeps n n"
  by (simp add: node_keeps_def)

lemma node_keeps_trans: "node_keeps a b \<Longrightarrow> node_keeps b c \<Longrightarrow> node_keeps a c"
  by (auto simp: node_keeps_def)

lemma node_keeps_simps [simp]:
  "node_keeps n (n\<lparr>nd_udp_endpoint := e\<rparr>)" "node_keeps n (node_update_status u n)"
  "node_keeps n (clear_buffer now n)"
  by (simp_all add: node_keeps_def node_bytes_def channel_bytes_def) (simp add: clear_buffer_def)

lemma node_keeps_enqueue:
  assumes "enqueue_outbound now p (n, t) = Inr (n', t')"
  shows "node_keeps n n'"
proof (cases "fst (reserve (nd_outbound_buffer n) (pkt_size (bp_data p)))")
  case True
  then show ?thesis
    using assms
    by (auto simp: enqueue_outbound_def Let_def node_keeps_def node_bytes_def channel_bytes_def
        reserve_def wrap_simps split: if_splits)
next
  case False
  with assms show ?thesis
    by (auto simp: enqueue_outbound_def Let_def reserve_def split: if_splits)
qed

definition nodes_keep :: "'r network \<Rightarrow> 'r network \<Rightarrow> bool" where
  "nodes_keep nw nw' \<longleftrightarrow>
     length (nw_nodes nw') = length (nw_nodes nw) \<and>
     (\<forall>i < length (nw_nodes nw). node_keeps (nw_nodes nw ! i) (nw_nodes nw' ! i))"

lemma nodes_keep_refl [simp]: "nodes_keep nw nw"
  by (simp add: nodes_keep_def)

lemma nodes_keep_trans: "nodes_keep a b \<Longrightarrow> nodes_keep b c \<Longrightarrow> nodes_keep a c"
  by (auto simp: nodes_keep_def intro: node_keeps_trans)

lemma nodes_keep_put:
  "node_keeps (nw_nodes nw ! i) n \<Longrightarrow> nodes_keep nw (put_node i n nw)"
  "nodes_keep nw (put_tracer t nw)" "nodes_keep nw (put_link l k nw)"
  "nodes_keep nw (nw\<lparr>nw_rng := r\<rparr>)" "nodes_keep nw (nw\<lparr>nw_next_transmit_number := m\<rparr>)"
  by (auto simp: nodes_keep_def nth_list_update_if)

lemma nodes_keep_tracer: "nodes_keep nw nw' \<Longrightarrow> nodes_keep nw (put_tracer t nw')"
  by (simp add: nodes_keep_def)

lemma nodes_keep_rng:
  "roll_f64 ops nw = (x, nw') \<Longrightarrow> nodes_keep nw nw'"
  "new_packet_id ops nw = (u, nw') \<Longrightarrow> nodes_keep nw nw'"
  by (auto simp: roll_f64_def new_packet_id_def nodes_keep_put split: prod.splits)

lemma nodes_keep_in_transit_data:
  "in_transit_data ops i tx nw = Inr (d, nw') \<Longrightarrow> nodes_keep nw nw'"
  by (auto simp: in_transit_data_def Let_def split: prod.splits option.splits
      intro: nodes_keep_trans [OF nodes_keep_rng(2) nodes_keep_put(5)])

lemma nodes_keep_enqueue: "enqueue_at now i p nw = Inr nw' \<Longrightarrow> nodes_keep nw nw'"
  by (auto simp: enqueue_at_def map_sum_id_Inr
      intro!: nodes_keep_tracer nodes_keep_put(1) node_keeps_enqueue)

lemma nodes_keep_send_to_next_hop:
  assumes "send_to_next_hop ops now i d nw = Inr nw'"
  shows "nodes_keep nw nw'"
proof -
  obtain roll nw1 where r: "roll_f64 ops nw = (roll, nw1)" by (cases "roll_f64 ops nw")
  obtain u nw2 where u: "new_packet_id ops nw1 = (u, nw2)" by (cases "new_packet_id ops nw1")
  have dup: "nodes_keep nw1 nw'"
    if "enqueue_at now i p nw2 = Inr nw3" and "enqueue_at now i p' (put_tracer t nw3) = Inr nw'"
    for p p' t nw3
    using nodes_keep_rng(2) [OF u] nodes_keep_enqueue [OF that(1)] nodes_keep_enqueue [OF that(2)]
      nodes_keep_put(2) [of nw3 t] by (blast intro: nodes_keep_trans)
  have "nodes_keep nw1 nw'"
    using assms
    by (auto simp: send_to_next_hop_def r u Let_def bind_ok_Inr_iff split: if_splits
        intro: nodes_keep_put(2) nodes_keep_enqueue dup)
  then show ?thesis using nodes_keep_rng(1) [OF r] nodes_keep_trans by blast
qed

lemma nodes_keep_forward:
  assumes "forward ops now i d nw = Inr nw'"
  shows "nodes_keep nw nw'"
proof -
  have "nodes_keep nw (deliver_to_endpoint now i e d (put_tracer t nw))" for e t
    unfolding deliver_to_endpoint_def
    by (rule nodes_keep_trans [OF nodes_keep_put(2) nodes_keep_put(1)]) simp
  then show ?thesis
    using assms nodes_keep_trans [OF nodes_keep_put(2) nodes_keep_send_to_next_hop]
    by (auto simp: forward_def Let_def nodes_keep_put split: if_splits option.splits)
qed

lemma nodes_keep_forward_delivered:
  "forward_delivered ops now l nw d = Inr nw' \<Longrightarrow> nodes_keep nw nw'"
  by (auto simp: forward_delivered_def Let_def nodes_keep_put(2) split: if_splits option.splits
      intro: nodes_keep_forward)

lemma nodes_keep_forward_all:
  "fold_ok (forward_delivered ops now l) nw ds = Inr nw' \<Longrightarrow> nodes_keep nw nw'"
  by (rule fold_ok_invariant [where P = "nodes_keep nw"])
    (auto intro: nodes_keep_trans nodes_keep_forward_delivered)

lemma nodes_keep_fold:
  assumes "\<And>x nw. nodes_keep nw (f x nw)"
  shows "nodes_keep nw (fold f xs nw)"
  using assms by (induction xs arbitrary: nw) (auto intro: nodes_keep_trans)

lemma nodes_keep_offer: "nodes_keep nw (offer_packet ops i p links h l nw)"
proof -
  obtain a nw1 where a: "generate_packet_anomalies ops l nw = (a, nw1)"
    by (cases "generate_packet_anomalies ops l nw")
  then have "nodes_keep nw nw1"
    by (auto simp: generate_packet_anomalies_def Let_def split: prod.splits
        intro: nodes_keep_trans [OF nodes_keep_rng(1) nodes_keep_rng(1)])
  then show ?thesis
    unfolding offer_packet_def a prod.case Let_def by (rule nodes_keep_trans [OF _ nodes_keep_put(3)])
qed

lemma nodes_keep_process_event: "nodes_keep nw (process_event now k nw)"
proof -
  have node: "nodes_keep nw (put_node i (if b then clear_buffer now m else m) nw)"
    if "node_keeps (nw_nodes nw ! i) m" for i b m
    using that by (intro nodes_keep_put(1)) (auto intro: node_keeps_trans)
  have status: "node_keeps n (case st of None \<Rightarrow> n | Some u \<Rightarrow> node_update_status u n)" for n st
    by (simp split: option.split)
  show ?thesis
    using nodes_keep_tracer [OF node [OF status]] nodes_keep_tracer [OF nodes_keep_put(3)]
    by (auto simp: process_event_def process_link_event_def process_node_event_def Let_def
        nodes_keep_put(2) split: network_event_kind.split option.split)
qed

section \<open>The account of a run\<close>

text \<open>
  \<open>owner h\<close> is the node and the size of the packet behind the watch channel \<open>h\<close>; \<open>pending\<close> are the
  bytes of node \<open>i\<close> that were offered to links and are not handled yet.
\<close>

definition pending :: "bool list \<Rightarrow> (nat \<Rightarrow> nat \<times> nat) \<Rightarrow> nat \<Rightarrow> nat" where
  "pending handled owner i =
     (\<Sum>h | h < length handled \<and> \<not> handled ! h \<and> fst (owner h) = i. snd (owner h))"

lemma pending_snoc:
  "pending (hs @ [False]) (owner(length hs := (i, n))) k = pending hs owner k + (if k = i then n else 0)"
proof -
  let ?S = "{h. h < length hs \<and> \<not> hs ! h \<and> fst (owner h) = k}"
  have "{h. h < length (hs @ [False]) \<and> \<not> (hs @ [False]) ! h \<and> fst ((owner(length hs := (i, n))) h) = k} =
      ?S \<union> (if k = i then {length hs} else {})"
    by (auto simp: nth_append less_Suc_eq split: if_splits)
  moreover have "(\<Sum>h \<in> ?S. snd ((owner(length hs := (i, n))) h)) = (\<Sum>h \<in> ?S. snd (owner h))"
    by (rule sum.cong) auto
  ultimately show ?thesis by (simp add: pending_def sum.union_disjoint)
qed

lemma pending_handle:
  assumes "h < length hs" and "\<not> hs ! h"
  shows "pending hs owner k =
    pending (hs[h := True]) owner k + (if k = fst (owner h) then snd (owner h) else 0)"
proof -
  let ?S = "{j. j < length hs \<and> \<not> hs ! j \<and> fst (owner j) = k}"
  have s: "{j. j < length (hs[h := True]) \<and> \<not> hs[h := True] ! j \<and> fst (owner j) = k} = ?S - {h}"
    by (auto simp: nth_list_update_if split: if_splits)
  show ?thesis
  proof (cases "k = fst (owner h)")
    case True
    then have "h \<in> ?S" using assms by simp
    then show ?thesis
      using sum.remove [of ?S h "\<lambda>j. snd (owner j)"] True unfolding pending_def s by simp
  next
    case False
    then have "?S - {h} = ?S" by auto
    with False show ?thesis unfolding pending_def s by simp
  qed
qed

definition account_ok :: "nat \<Rightarrow> node \<Rightarrow> nat \<Rightarrow> bool" where
  "account_ok cap n unsent \<longleftrightarrow>
     node_bytes n + unsent \<le> cap \<and> cap < 2 ^ 64 \<and>
     (nd_last_buffer_clear n = None \<and> nd_receiver n \<longrightarrow> node_bytes n + unsent = cap)"

definition owned :: "'r simulation \<Rightarrow> (nat \<Rightarrow> nat \<times> nat) \<Rightarrow> bool" where
  "owned s owner \<longleftrightarrow>
     (\<forall>l < length (nw_links (sim_network s)). \<forall>p \<in> set (link_packets s l).
        owner (op_handled p) = (op_src_node p, pkt_size (op_data p)))"

definition accounts_ok :: "nat list \<Rightarrow> (nat \<Rightarrow> nat \<times> nat) \<Rightarrow> 'r simulation \<Rightarrow> bool" where
  "accounts_ok caps owner s \<longleftrightarrow>
     length (nw_nodes (sim_network s)) = length caps \<and> owned s owner \<and>
     (\<forall>i < length caps. account_ok (caps ! i) (sim_node s i) (pending (sim_handled s) owner i))"

lemma account_ok_keep: "account_ok cap n k \<Longrightarrow> node_keeps n n' \<Longrightarrow> account_ok cap n' k"
  by (auto simp: account_ok_def node_keeps_def)

lemma accounts_ok_keep:
  assumes "accounts_ok caps owner s" and "nodes_keep (sim_network s) (sim_network s')"
    and "sim_handled s' = sim_handled s" and "owned s' owner"
  shows "accounts_ok caps owner s'"
  using assms by (auto simp: accounts_ok_def nodes_keep_def intro: account_ok_keep)

lemma owned_keep:
  assumes "owned s owner" and "links_keep nothing_new (sim_network s) (sim_network s')"
    and "sim_link_tasks s' = sim_link_tasks s"
  shows "owned s' owner"
  using assms by (fastforce simp: owned_def links_keep_def same_tables_def link_packets_def)

section \<open>The account through the task of a link\<close>

definition in_hand :: "nat list \<Rightarrow> (nat \<Rightarrow> nat \<times> nat) \<Rightarrow> outgoing_packet \<Rightarrow> 'r simulation \<Rightarrow> bool" where
  "in_hand caps owner p s \<longleftrightarrow>
     accounts_ok caps owner s \<and> packet_ok s p \<and>
     owner (op_handled p) = (op_src_node p, pkt_size (op_data p)) \<and>
     length (sim_link_tasks s) = length (nw_links (sim_network s))"

lemma account_put_phase:
  assumes "in_hand caps owner p s"
    and "\<forall>q \<in> set (phase_packets ph). op_handled q = op_handled p \<and> op_src_node q = op_src_node p \<and>
      op_data q = op_data p"
  shows "accounts_ok caps owner (put_phase l ph s)"
proof -
  have "owned (put_phase l ph s) owner"
    using assms
    by (auto simp: in_hand_def accounts_ok_def owned_def link_packets_def put_phase_def
        nth_list_update_if split: if_splits)
  moreover have "nodes_keep (sim_network s) (sim_network (put_phase l ph s))"
    "sim_handled (put_phase l ph s) = sim_handled s" by (simp_all add: put_phase_def)
  ultimately show ?thesis using assms(1) accounts_ok_keep by (auto simp: in_hand_def)
qed

lemma in_hand_set_link:
  assumes "in_hand caps owner p s" and "set (nl_outgoing_queue link) \<subseteq> set (nl_outgoing_queue (sim_link s l))"
  shows "in_hand caps owner p (set_link l link s)"
proof -
  have "owned (set_link l link s) owner"
    using assms
    by (auto simp: in_hand_def accounts_ok_def owned_def link_packets_def set_link_def
        nth_list_update_if split: if_splits)
  moreover have "nodes_keep (sim_network s) (sim_network (set_link l link s))"
    by (simp add: set_link_def nodes_keep_put)
  ultimately show ?thesis
    using assms(1) accounts_ok_keep [of caps owner s "set_link l link s"]
    by (simp add: in_hand_def packet_ok_def)
qed

lemma account_ok_cleared:
  assumes "account_ok cap n (k + d)" and "nd_last_buffer_clear n \<noteq> None"
  shows "account_ok cap n k"
  using assms by (auto simp: account_ok_def)

lemma account_ok_released:
  assumes "account_ok cap n (k + d)"
  shows "account_ok cap (n\<lparr>nd_outbound_buffer := release (nd_outbound_buffer n) d\<rparr>) k"
proof -
  have "available_capacity_bytes (nd_outbound_buffer n) + d < 2 ^ 64"
    using assms by (auto simp: account_ok_def node_bytes_def)
  then have "node_bytes (n\<lparr>nd_outbound_buffer := release (nd_outbound_buffer n) d\<rparr>) = node_bytes n + d"
    by (simp add: node_bytes_def channel_bytes_def release_def wrap_simps)
  with assms show ?thesis by (auto simp: account_ok_def)
qed

text \<open>Handling a packet moves its bytes out of the pending ones of its node.\<close>

lemma account_handle:
  assumes "in_hand caps owner p s" and "\<not> already_handled s p"
    and "sim_handled s' = (sim_handled s)[op_handled p := True]"
    and "length (nw_nodes (sim_network s')) = length (nw_nodes (sim_network s))"
    and "\<forall>i < length (nw_nodes (sim_network s)). i \<noteq> op_src_node p \<longrightarrow> sim_node s' i = sim_node s i"
    and "owned s' owner"
    and "\<And>cap k. account_ok cap (sim_node s (op_src_node p)) (k + pkt_size (op_data p)) \<Longrightarrow>
      account_ok cap (sim_node s' (op_src_node p)) k"
  shows "accounts_ok caps owner s'"
proof -
  have h: "op_handled p < length (sim_handled s)" "\<not> sim_handled s ! op_handled p"
    and o: "owner (op_handled p) = (op_src_node p, pkt_size (op_data p))"
    using assms(1,2) by (simp_all add: in_hand_def packet_ok_def already_handled_def)
  have "account_ok (caps ! i) (sim_node s' i) (pending (sim_handled s') owner i)"
    if i: "i < length caps" for i
  proof -
    have "account_ok (caps ! i) (sim_node s i) (pending (sim_handled s) owner i)"
      and len: "length (nw_nodes (sim_network s)) = length caps"
      using assms(1) i by (simp_all add: in_hand_def accounts_ok_def)
    then show ?thesis
      using assms(5,7) i unfolding assms(3) pending_handle [OF h, of owner i]
      by (cases "i = op_src_node p") (simp_all add: o)
  qed
  with assms(1,4,6) show ?thesis by (simp add: in_hand_def accounts_ok_def)
qed

lemma account_ready_to_send:
  assumes "in_hand caps owner p s" and "ready_to_send l p s = Inr s'"
  shows "accounts_ok caps owner s'"
proof -
  have len: "length (nw_nodes (sim_network s)) = length caps" "op_src_node p < length caps"
    using assms(1) by (simp_all add: in_hand_def accounts_ok_def packet_ok_def)
  have owned: "owned s1 owner"
    if "\<forall>k < length (nw_links (sim_network s)). nl_outgoing_queue (sim_link s1 k) = nl_outgoing_queue (sim_link s k)"
      and "length (nw_links (sim_network s1)) = length (nw_links (sim_network s))"
      and "sim_link_tasks s1 = (sim_link_tasks s)[l := Idle]" for s1 :: "'a simulation"
    using assms(1) that
    by (auto simp: in_hand_def accounts_ok_def owned_def link_packets_def nth_list_update_if
        split: if_splits)
  from assms(2) show ?thesis
  proof (cases rule: ready_to_send_cases)
    case handled
    with account_put_phase [OF assms(1), of Idle l] show ?thesis by simp
  next
    case cleared
    show ?thesis
    proof (rule account_handle [OF assms(1) cleared(1)])
      show "account_ok cap (sim_node s' (op_src_node p)) k"
        if "account_ok cap (sim_node s (op_src_node p)) (k + pkt_size (op_data p))" for cap k
        using account_ok_cleared [OF that] cleared(2,3)
        by (auto simp: packet_cleared_from_buffer_def put_phase_def split: option.splits)
    qed (use cleared(3) in \<open>auto simp: put_phase_def intro!: owned\<close>)
  next
    case (sent link n t)
    from sent(3) obtain q pacer where n: "n = (sim_node s (op_src_node p))\<lparr>nd_outbound_buffer :=
        release (nd_outbound_buffer (sim_node s (op_src_node p))) (pkt_size (op_data p))\<rparr>"
      and link: "link = (sim_link s l)\<lparr>nl_pacer := pacer, nl_in_transit := q\<rparr>"
      by (elim link_send_InrE) blast
    show ?thesis
    proof (rule account_handle [OF assms(1) sent(1)])
      show "account_ok cap (sim_node s' (op_src_node p)) k"
        if "account_ok cap (sim_node s (op_src_node p)) (k + pkt_size (op_data p))" for cap k
        using account_ok_released [OF that] sent(4) len by (simp add: put_phase_def n)
    qed (use sent(4) link in \<open>auto simp: put_phase_def nth_list_update_if intro!: owned\<close>)
  qed simp
qed

lemma account_link_queue:
  assumes "accounts_ok caps owner s" and "tasks_ok s" and "l < length (nw_links (sim_network s))"
    and "process_link_queue l s = Inr s'"
  shows "accounts_ok caps owner s'"
proof (rule link_task_rule [where H = "in_hand caps owner" and G = "accounts_ok caps owner"])
  show "in_hand caps owner p s" if "p \<in> set (link_packets s l)" for p
    using assms(1-3) that by (auto simp: in_hand_def tasks_ok_def accounts_ok_def owned_def)
  show "in_hand caps owner p (set_link l ((sim_link s l)\<lparr>nl_outgoing_queue := rest\<rparr>) s)"
    if "nl_outgoing_queue (sim_link s l) = p # rest" "in_hand caps owner p s" for p rest
    using that by (auto intro: in_hand_set_link)
  show "in_hand caps owner (p\<lparr>op_preferred_links := ks\<rparr>) s" if "in_hand caps owner p s" for p ks and s :: "'a simulation"
    using that by (simp add: in_hand_def packet_ok_def)
qed (use assms in \<open>auto intro: account_ready_to_send account_put_phase in_hand_set_link\<close>)

section \<open>The other steps\<close>

lemma accounts_ok_quiet:
  assumes "accounts_ok caps owner s" and "links_keep nothing_new (sim_network s) (sim_network s')"
    and "nodes_keep (sim_network s) (sim_network s')"
    and "sim_link_tasks s' = sim_link_tasks s" and "sim_handled s' = sim_handled s"
  shows "accounts_ok caps owner s'"
proof -
  have "owned s' owner" using assms(1) owned_keep [OF _ assms(2,4)] by (simp add: accounts_ok_def)
  then show ?thesis by (rule accounts_ok_keep [OF assms(1,3,5)])
qed

lemma channel_bytes_Cons:
  "nd_outbound n = p # ps \<Longrightarrow>
    node_bytes n = node_bytes (n\<lparr>nd_outbound := ps\<rparr>) + pkt_size (bp_data p)"
  by (simp add: node_bytes_def channel_bytes_def)

text \<open>Without a route the packets of the channel leave the account without being released.\<close>

lemma account_no_route:
  assumes "accounts_ok caps owner s" and "tasks_ok s"
    and "s' = s\<lparr>sim_network := put_node i ((sim_node s i)\<lparr>nd_outbound := [], nd_receiver := False\<rparr>)
           (sim_network s)\<rparr>"
  shows "accounts_ok caps owner s'"
proof -
  let ?n = "(sim_node s i)\<lparr>nd_outbound := [], nd_receiver := False\<rparr>"
  have "node_bytes ?n \<le> node_bytes (sim_node s i)" by (simp add: node_bytes_def channel_bytes_def)
  then have "account_ok cap (sim_node s i) k \<Longrightarrow> account_ok cap ?n k" for cap k
    by (auto simp: account_ok_def)
  then show ?thesis
    using assms(1)
    by (auto simp: assms(3) accounts_ok_def owned_def link_packets_def nth_list_update_if)
qed

text \<open>What \<open>process_buffer_for_node\<close> does, branch by branch, and what it offers.\<close>

lemma process_buffer_cases:
  assumes "process_buffer_for_node ops i s = Inr s'"
  obtains (idle) "s' = s"
    | (no_route) "s' = s\<lparr>sim_network := put_node i ((sim_node s i)\<lparr>nd_outbound := [], nd_receiver := False\<rparr>)
        (sim_network s)\<rparr>"
    | (offered) p rest ls where "nd_outbound (sim_node s i) = p # rest"
        "s' = s\<lparr>sim_handled := sim_handled s @ [False],
           sim_network := fold (offer_packet ops i p ls (length (sim_handled s))) ls
             (put_node i ((sim_node s i)\<lparr>nd_outbound := rest\<rparr>) (sim_network s))\<rparr>"
  using assms
  by (fastforce simp: process_buffer_for_node_def Let_def bind_ok_Inr_iff split: if_splits list.splits)

lemma links_keep_offers:
  "links_keep (\<lambda>q. op_handled q = h \<and> op_src_node q = i \<and> op_data q = bp_data p) nw
     (fold (offer_packet ops i p links h) ls nw)"
proof (rule links_keep_fold)
  fix l and nw :: "'a network"
  obtain a nw1 where a: "generate_packet_anomalies ops l nw = (a, nw1)"
    by (cases "generate_packet_anomalies ops l nw")
  show "links_keep (\<lambda>q. op_handled q = h \<and> op_src_node q = i \<and> op_data q = bp_data p) nw
      (offer_packet ops i p links h l nw)"
    unfolding offer_packet_def a prod.case Let_def
    by (rule links_keep_trans [OF links_keep_at_nodes [OF at_nodes_anomalies [OF a]]],
        rule links_keep_put_link) auto
qed

lemma account_offered:
  fixes s :: "'r simulation"
  assumes "accounts_ok caps owner s" and "tasks_ok s" and "i < length (nw_nodes (sim_network s))"
    and "nd_outbound (sim_node s i) = p # rest" and "h = length (sim_handled s)"
    and "s' = s\<lparr>sim_handled := sim_handled s @ [False],
               sim_network := fold (offer_packet ops i p links h) ls
                 (put_node i ((sim_node s i)\<lparr>nd_outbound := rest\<rparr>) (sim_network s))\<rparr>"
  shows "accounts_ok caps (owner(h := (i, pkt_size (bp_data p)))) s'"
proof -
  let ?owner = "owner(h := (i, pkt_size (bp_data p)))"
  let ?nw = "put_node i ((sim_node s i)\<lparr>nd_outbound := rest\<rparr>) (sim_network s)"
  let ?new = "\<lambda>q. op_handled q = h \<and> op_src_node q = i \<and> op_data q = bp_data p"
  have keep: "links_keep ?new ?nw (sim_network s')" by (simp add: assms(6) links_keep_offers)
  have nodes: "nodes_keep ?nw (sim_network s')" by (simp add: assms(6) nodes_keep_fold nodes_keep_offer)
  have "owned s' ?owner"
    unfolding owned_def
  proof (intro allI impI ballI)
    fix l q
    assume l: "l < length (nw_links (sim_network s'))" and q: "q \<in> set (link_packets s' l)"
    have l': "l < length (nw_links (sim_network s))" using l keep by (simp add: links_keep_def same_tables_def)
    have "q \<in> set (link_packets s l) \<or> ?new q"
      using q keep l' by (auto simp: link_packets_def links_keep_def assms(6))
    then show "?owner (op_handled q) = (op_src_node q, pkt_size (op_data q))"
    proof
      assume old: "q \<in> set (link_packets s l)"
      with assms(2) l' have "op_handled q < h" by (auto simp: tasks_ok_def packet_ok_def assms(5))
      with assms(1) old l' show ?thesis by (auto simp: accounts_ok_def owned_def)
    qed simp
  qed
  moreover have "account_ok (caps ! j) (sim_node s' j) (pending (sim_handled s') ?owner j)"
    if j: "j < length caps" for j
  proof -
    have len: "length (nw_nodes (sim_network s)) = length caps"
      and old: "account_ok (caps ! j) (sim_node s j) (pending (sim_handled s) owner j)"
      using assms(1) j by (simp_all add: accounts_ok_def)
    have "account_ok (caps ! j) (nw_nodes ?nw ! j) (pending (sim_handled s') ?owner j)"
      using old channel_bytes_Cons [OF assms(4)] j len
      by (auto simp: assms(5,6) pending_snoc account_ok_def nth_list_update_if)
    moreover have "node_keeps (nw_nodes ?nw ! j) (sim_node s' j)"
      using nodes j len by (simp add: nodes_keep_def)
    ultimately show ?thesis by (rule account_ok_keep)
  qed
  moreover have "length (nw_nodes (sim_network s')) = length caps"
    using nodes assms(1) by (simp add: nodes_keep_def accounts_ok_def)
  ultimately show ?thesis by (simp add: accounts_ok_def)
qed

lemma account_node_buffer:
  assumes "accounts_ok caps owner s" and "tasks_ok s" and "i < length (nw_nodes (sim_network s))"
    and "process_buffer_for_node ops i s = Inr s'"
  shows "\<exists>owner'. accounts_ok caps owner' s'"
  using assms(4)
proof (cases rule: process_buffer_cases)
  case no_route
  with account_no_route [OF assms(1,2)] show ?thesis by blast
next
  case (offered p rest ls)
  with account_offered [OF assms(1-3) offered(1) refl offered(2)] show ?thesis by blast
qed (use assms(1) in blast)

lemma account_forwarder:
  assumes "forward_packets_from_link_to_node ops l s = Inr s'" and "accounts_ok caps owner s"
  shows "accounts_ok caps owner s'"
proof -
  obtain r f q where p: "poll (sim_now s) l (sim_forwarders s ! l) (nl_in_transit (sim_link s l)) = (r, f, q)"
    by (cases "poll (sim_now s) l (sim_forwarders s ! l) (nl_in_transit (sim_link s l))")
  define nw1 where "nw1 = put_link l ((sim_link s l)\<lparr>nl_in_transit := q\<rparr>) (sim_network s)"
  have k: "links_keep nothing_new (sim_network s) nw1" "nodes_keep (sim_network s) nw1"
    unfolding nw1_def by (rule links_keep_put_link, auto intro: nodes_keep_put)
  have s: "sim_link_tasks s' = sim_link_tasks s" "sim_handled s' = sim_handled s"
    and n: "sim_network s' = nw1 \<or>
      (\<exists>ds. fold_ok (forward_delivered ops (sim_now s) l) nw1 ds = Inr (sim_network s'))"
    using assms(1) p
    by (auto simp: forward_packets_from_link_to_node_def Let_def set_link_def nw1_def map_sum_id_Inr
        split: poll_result.splits)
  from n have "links_keep nothing_new nw1 (sim_network s')" "nodes_keep nw1 (sim_network s')"
    using links_keep_at_nodes [OF at_nodes_forward_all] nodes_keep_forward_all by auto
  with k show ?thesis
    by (intro accounts_ok_quiet [OF assms(2)])
      (auto simp: s intro: links_keep_trans nodes_keep_trans)
qed

lemma account_app:
  assumes "accounts_ok caps owner s"
  shows "send_from ops i t s = Inr s' \<Longrightarrow> accounts_ok caps owner s'"
    and "read_at i w m s = Inr (ds, s') \<Longrightarrow> accounts_ok caps owner s'"
proof -
  assume "send_from ops i t s = Inr s'"
  then obtain d nw nw' where d: "in_transit_data ops i t (sim_network s) = Inr (d, nw)"
    and nw': "forward ops (sim_now s) i d nw = Inr nw'" and s': "s' = s\<lparr>sim_network := nw'\<rparr>"
    by (auto simp: send_from_def bind_ok_Inr_iff map_sum_id_Inr)
  from links_keep_at_nodes [OF at_nodes_trans [OF at_nodes_in_transit_data [OF d] at_nodes_forward [OF nw']]]
    nodes_keep_trans [OF nodes_keep_in_transit_data [OF d] nodes_keep_forward [OF nw']]
  show "accounts_ok caps owner s'" by (intro accounts_ok_quiet [OF assms]) (simp_all add: s')
next
  assume r: "read_at i w m s = Inr (ds, s')"
  then have "nodes_keep (sim_network s) (sim_network s')"
    by (auto simp: read_at_def Let_def nodes_keep_put nodes_keep_tracer
        split: option.splits prod.splits poll_result.splits)
  moreover have "links_keep nothing_new (sim_network s) (sim_network s')"
    "sim_link_tasks s' = sim_link_tasks s" "sim_handled s' = sim_handled s"
    using r by (auto simp: read_at_def Let_def links_keep_def same_tables_def
        split: option.splits prod.splits poll_result.splits)
  ultimately show "accounts_ok caps owner s'" by (intro accounts_ok_quiet [OF assms])
qed

lemma accounts_step:
  assumes "\<exists>owner. accounts_ok caps owner s" and "tasks_ok s" and "net_step ops s lab t"
  shows "\<exists>owner. accounts_ok caps owner t"
proof -
  obtain owner where a: "accounts_ok caps owner s" using assms(1) by blast
  show ?thesis
  proof (cases lab)
    case (RunNode i)
    with assms(3) account_node_buffer [OF a assms(2)] a show ?thesis
      by (auto simp: net_step_def sim_step_def split: if_splits)
  next
    case (RunLink l)
    with assms(3) account_link_queue [OF a assms(2)] a show ?thesis
      by (auto simp: net_step_def sim_step_def split: if_splits)
  next
    case RunEvents
    with assms(3) show ?thesis
      by (auto simp: net_step_def sim_step_def run_events_def links_keep_process_event
          nodes_keep_process_event a intro!: exI [of _ owner] accounts_ok_quiet [OF a]
          split: list.splits if_splits)
  next
    case (Tick d)
    with assms(3) show ?thesis
      by (auto simp: net_step_def sim_step_def intro!: exI [of _ owner] accounts_ok_quiet [OF a])
  qed (use assms(3) a in \<open>auto simp: net_step_def sim_step_def map_sum_id_Inr split: if_splits
      intro: account_forwarder account_app\<close>)
qed

definition node_capacities :: "network_spec \<Rightarrow> nat list" where
  "node_capacities spec = map ns_buffer_size_bytes (initial_nodes spec)"

lemma accounts_started:
  assumes "started spec s" and "\<forall>n \<in> set (spec_nodes spec). ns_buffer_size_bytes n < 2 ^ 64"
  shows "\<exists>owner. accounts_ok (node_capacities spec) owner s"
  using assms(1)
proof (rule started_links)
  fix nw
  assume n: "nw_nodes nw = map initial_node (initial_nodes spec)"
    and idle: "\<forall>l < length (nw_links (sim_network s)). nl_semaphore (sim_link s l) = 1 \<and> link_packets s l = []"
    and "\<exists>es1 es2. sim_network s =
       fold (process_node_event (sim_now s)) es2 (fold (process_link_event (sim_now s)) es1 nw)"
  then obtain es1 es2 where e: "sim_network s =
      fold (process_node_event (sim_now s)) es2 (fold (process_link_event (sim_now s)) es1 nw)" by blast
  have handled: "sim_handled s = []" using assms(1) by (rule started_network)
  have ev: "nodes_keep nw (process_node_event now e nw)" "nodes_keep nw (process_link_event now e' nw)"
    for now e e' and nw :: "'a network"
    using nodes_keep_process_event [of nw now "NodeEvent e"] nodes_keep_process_event [of nw now "LinkEvent e'"]
    by (simp_all add: process_event_def)
  have keep: "nodes_keep nw (sim_network s)"
    unfolding e by (rule nodes_keep_trans; rule nodes_keep_fold; rule ev)
  have own: "owned s (\<lambda>_. (0, 0))" using idle by (simp add: owned_def)
  have acc: "account_ok (node_capacities spec ! i) (sim_node s i) (pending (sim_handled s) (\<lambda>_. (0, 0)) i)"
    if i: "i < length (node_capacities spec)" for i
  proof -
    have "initial_nodes spec ! i \<in> set (spec_nodes spec)"
      using i nth_mem [of i "initial_nodes spec"] by (auto simp: node_capacities_def initial_nodes_def)
    with assms(2) have "account_ok (node_capacities spec ! i) (nw_nodes nw ! i) 0"
      using i by (simp add: n node_capacities_def account_ok_def initial_node_def node_of_spec_def
          node_bytes_def channel_bytes_def outbound_buffer_new_def)
    then have "account_ok (node_capacities spec ! i) (sim_node s i) 0"
      by (rule account_ok_keep) (use keep i n in \<open>simp add: nodes_keep_def node_capacities_def\<close>)
    with handled show ?thesis by (simp add: pending_def)
  qed
  have "length (nw_nodes (sim_network s)) = length (node_capacities spec)"
    using keep n by (simp add: nodes_keep_def node_capacities_def)
  with own acc have "accounts_ok (node_capacities spec) (\<lambda>_. (0, 0)) s"
    by (simp add: accounts_ok_def)
  then show ?thesis by blast
qed

lemma accounts_reach:
  assumes "sim.reach spec ops s" and "\<forall>n \<in> set (spec_nodes spec). ns_buffer_size_bytes n < 2 ^ 64"
  shows "\<exists>owner. accounts_ok (node_capacities spec) owner s"
  using assms(1)
proof (rule sim.reach_invariant)
  show "\<exists>owner. accounts_ok (node_capacities spec) owner s" if "started spec s" for s :: "'a simulation"
    using accounts_started [OF that assms(2)] .
  show "\<exists>owner. accounts_ok (node_capacities spec) owner t"
    if "sim.reach spec ops s" "\<exists>owner. accounts_ok (node_capacities spec) owner s" "net_step ops s lab t"
    for s t lab
    using accounts_step [OF that(2) tasks_ok_reach [OF that(1)] that(3)] .
qed

end
