(* ===== verification/Sliding_Window.thy ===== *)
theory Sliding_Window
  imports Net_Prelude
begin

text \<open>
  The window over recent packets that the replay verifier keeps per link and the throughput
  simulation keeps for its receiver: a queue of times and weights and their running total. Before a
  packet is added, packets older than the width of the window are removed from the front and
  subtracted. The locale states what one addition does; its lemmas say what the queue and the total
  are after any sequence of additions in time order.
\<close>

definition weight :: "('t \<times> nat) list \<Rightarrow> nat" where
  "weight ps = sum_list (map snd ps)"

lemma weight_simps [simp]:
  "weight [] = 0" "weight (p # ps) = snd p + weight ps" "weight (ps @ qs) = weight ps + weight qs"
  by (simp_all add: weight_def)

lemma weight_filter_le: "weight (filter P ps) \<le> weight ps"
  by (induction ps) auto

lemma weight_filter_map:
  "weight (filter (\<lambda>p. P (fst p)) (map (\<lambda>(u, n). (u, f n)) ps)) = (\<Sum>(u, n) \<leftarrow> ps. if P u then f n else 0)"
  by (induction ps) auto

lemma weight_dropWhile_le: "weight (dropWhile P ps) \<le> weight ps"
  by (induction ps) auto

lemma dropWhile_sorted_filter:
  fixes width :: nat
  assumes "sorted (map fst ps)"
  shows "dropWhile (\<lambda>p. fst p + width < t) ps = filter (\<lambda>p. t \<le> fst p + width) ps"
  using assms
proof (induction ps)
  case (Cons p ps)
  show ?case
  proof (cases "fst p + width < t")
    case False
    then have "\<forall>q \<in> set ps. t \<le> fst q + width" using Cons.prems by fastforce
    with False show ?thesis by (simp add: filter_id_conv)
  qed (use Cons in auto)
qed simp

locale sliding_window =
  fixes width :: nat
    and weigh :: "nat \<Rightarrow> nat"
    and push :: "nat \<Rightarrow> nat \<Rightarrow> 's \<Rightarrow> 's"
    and contents :: "'s \<Rightarrow> (nat \<times> nat) list"
    and total :: "'s \<Rightarrow> nat"
  assumes contents_push:
      "weigh n < 2 ^ 64 \<Longrightarrow>
       contents (push t n s) = dropWhile (\<lambda>p. fst p + width < t) (contents s) @ [(t, weigh n)]"
    and total_push:
      "total s = weight (contents s) \<Longrightarrow> total s + weigh n < 2 ^ 64 \<Longrightarrow>
       total (push t n s) = weight (contents (push t n s))"
begin

definition pushes :: "(nat \<times> nat) list \<Rightarrow> 's \<Rightarrow> 's" where
  "pushes ps s = fold (\<lambda>(t, n). push t n) ps s"

definition recent :: "nat \<Rightarrow> (nat \<times> nat) list \<Rightarrow> (nat \<times> nat) list" where
  "recent t ps = filter (\<lambda>p. t \<le> fst p + width) (map (\<lambda>(u, n). (u, weigh n)) ps)"

lemma recent_recent: "u \<le> t \<Longrightarrow> filter (\<lambda>p. t \<le> fst p + width) (recent u ps) = recent t ps"
  by (auto simp: recent_def intro!: filter_cong)

lemma sorted_recent: "sorted (map fst ps) \<Longrightarrow> sorted (map fst (recent t ps))"
  unfolding recent_def
  by (rule sorted_filter) (simp add: comp_def case_prod_unfold)

lemma weight_recent_le: "weight (recent t ps) \<le> weight (map (\<lambda>(u, n). (u, weigh n)) ps)"
  unfolding recent_def by (rule weight_filter_le)

lemma pushes_snoc: "pushes (ps @ [(t, n)]) s = push t n (pushes ps s)"
  by (simp add: pushes_def)

lemma window_after:
  assumes "contents s = []" and "total s = 0" and "sorted (map fst (ps @ [(t, n)]))"
    and "weight (map (\<lambda>(u, n). (u, weigh n)) (ps @ [(t, n)])) < 2 ^ 64"
  shows "contents (pushes (ps @ [(t, n)]) s) = recent t (ps @ [(t, n)]) \<and>
    total (pushes (ps @ [(t, n)]) s) = weight (recent t (ps @ [(t, n)]))"
  using assms(3,4)
proof (induction ps arbitrary: t n rule: rev_induct)
  case Nil
  then show ?case
    using assms(1,2) contents_push [of n t s] total_push [of s n t]
    by (simp add: pushes_def recent_def)
next
  case (snoc p ps)
  obtain u m where p: "p = (u, m)" by (cases p)
  let ?ps = "ps @ [(u, m)]"
  have sorted: "sorted (map fst ?ps)" "u \<le> t" using snoc.prems(1) by (auto simp: p sorted_append)
  have small: "weight (map (\<lambda>(u, n). (u, weigh n)) ?ps) + weigh n < 2 ^ 64"
    using snoc.prems(2) by (simp add: p)
  then have IH: "contents (pushes ?ps s) = recent u ?ps" "total (pushes ?ps s) = weight (recent u ?ps)"
    using snoc.IH [OF sorted(1)] by auto
  have n: "weigh n < 2 ^ 64" using small by linarith
  have "contents (pushes (?ps @ [(t, n)]) s) =
      dropWhile (\<lambda>p. fst p + width < t) (recent u ?ps) @ [(t, weigh n)]"
    by (simp only: pushes_snoc [of ?ps] contents_push [OF n] IH(1))
  also have "dropWhile (\<lambda>p. fst p + width < t) (recent u ?ps) = filter (\<lambda>p. t \<le> fst p + width) (recent u ?ps)"
    by (rule dropWhile_sorted_filter [OF sorted_recent [OF sorted(1)]])
  also have "\<dots> = recent t ?ps" by (rule recent_recent [OF sorted(2)])
  finally have c: "contents (pushes (?ps @ [(t, n)]) s) = recent t (?ps @ [(t, n)])"
    by (simp add: recent_def)
  have "total (pushes ?ps s) + weigh n < 2 ^ 64"
    using small weight_recent_le [of u ?ps] by (simp add: IH(2))
  then have "total (pushes (?ps @ [(t, n)]) s) = weight (contents (pushes (?ps @ [(t, n)]) s))"
    unfolding pushes_snoc [of ?ps] by (intro total_push) (simp_all add: IH)
  with c show ?case unfolding p by simp
qed

end

end
