(* ===== verification/Verifier.thy ===== *)
theory Verifier
  imports Tracing Sliding_Window
begin

text \<open>
  The replay verifier, \<^verbatim>\<open>in-memory-network/src/tracing/simulation_verifier.rs\<close>: the error values,
  the replayed nodes and links, and the loop that replays a log step by step. The shared
  \<^verbatim>\<open>Rc<ErrorTracker>\<close> is the list of non-fatal errors that every operation returns beside its
  result; a fatal error or a panic ends the replay. \<^verbatim>\<open>HashMap\<close>s are partial maps; where the code
  iterates over one, the order of iteration is an argument.
\<close>

section \<open>Errors\<close>

datatype non_fatal_error =
    NodeExceedsBufferSize id nat nat
  | NodeDownPacketSend id uuid
  | NodeDownPacketReceive id uuid
  | NodeUpPacketDroppedOnArrival id uuid
  | PacketSurvivedBufferCorruption id uuid
  | PacketCreatedByRouterNode id uuid
  | MissingLostPacket uuid
  | OfflinePacketSend id id
  | DisconnectedPacketSend id id
  | DisconnectedPacketReceive id id
  | TooFastPacketReceive id id
  | OfflinePacketReceive id id duration duration
  | LinkBandwidthExceeded id id uuid nat nat

datatype fatal_error =
    MissingNode id
  | MissingLink id
  | MissingPacket uuid
  | PacketAlreadyReceived uuid

text \<open>\<open>Panic\<close> marks the places where the Rust code would unwind: an \<^verbatim>\<open>unwrap\<close> on \<^verbatim>\<open>None\<close>, a
  \<^verbatim>\<open>Duration\<close> subtraction that underflows, a missing \<^verbatim>\<open>HashMap\<close> index.\<close>

datatype abort = Fatal fatal_error | Panic

type_synonym 'a tracked = "non_fatal_error list \<times> (abort + 'a)"

section \<open>Replayed nodes\<close>

record replayed_packet =
  rp_arrived_at :: duration
  rp_size_bytes :: nat
  rp_extra_delay :: duration

record replayed_node =
  rn_status :: update_node_status
  rn_last_down :: "duration option"
  rn_last_buffer_clear :: "duration option"
  rn_id :: id
  rn_packets :: "uuid \<rightharpoonup> replayed_packet"
  rn_highest_received :: nat
  rn_sent_packets :: packet_stats
  rn_received_packets :: packet_stats
  rn_reordered_packets_received :: packet_stats
  rn_ecn_packets :: packet_stats
  rn_duplicated_packets :: packet_stats
  rn_dropped_packets_injected :: packet_stats
  rn_dropped_packets_buffer_full :: packet_stats
  rn_dropped_packets_buffer_cleared :: packet_stats
  rn_dropped_packets_down :: packet_stats
  rn_buffer_usage :: nat
  rn_max_buffer_usage :: nat

definition replayed_node_new :: "id \<Rightarrow> replayed_node" where
  "replayed_node_new i =
     \<lparr>rn_status = NodeUp, rn_last_down = None, rn_last_buffer_clear = None, rn_id = i,
      rn_packets = Map.empty, rn_highest_received = 0, rn_sent_packets = no_packets,
      rn_received_packets = no_packets, rn_reordered_packets_received = no_packets,
      rn_ecn_packets = no_packets, rn_duplicated_packets = no_packets,
      rn_dropped_packets_injected = no_packets, rn_dropped_packets_buffer_full = no_packets,
      rn_dropped_packets_buffer_cleared = no_packets, rn_dropped_packets_down = no_packets,
      rn_buffer_usage = 0, rn_max_buffer_usage = 0\<rparr>"

definition handle_event :: "node_event_payload \<Rightarrow> duration \<Rightarrow> replayed_node \<Rightarrow> replayed_node" where
  "handle_event event now n =
     (let n1 = (case nep_status event of
                  None \<Rightarrow> n
                | Some status \<Rightarrow>
                    (if status = NodeDown then n\<lparr>rn_last_down := Some now\<rparr> else n)\<lparr>rn_status := status\<rparr>)
      in if nep_clear_buffer event then n1\<lparr>rn_last_buffer_clear := Some now\<rparr> else n1)"

definition add_packet_to_buffer ::
  "uuid \<Rightarrow> nat \<Rightarrow> duration \<Rightarrow> replayed_node \<Rightarrow> replayed_node tracked" where
  "add_packet_to_buffer packet_id size_bytes now n =
     ((if rn_status n = NodeDown then [NodeDownPacketReceive (rn_id n) packet_id] else []),
      if rn_packets n packet_id \<noteq> None then Inl (Fatal (PacketAlreadyReceived packet_id))
      else Inr (n\<lparr>rn_packets := (rn_packets n)(packet_id \<mapsto>
                    \<lparr>rp_arrived_at = now, rp_size_bytes = size_bytes, rp_extra_delay = 0\<rparr>),
                 rn_buffer_usage := add64 (rn_buffer_usage n) size_bytes\<rparr>))"

definition remove_packet_from_buffer ::
  "uuid \<Rightarrow> replayed_node \<Rightarrow> abort + replayed_packet \<times> replayed_node" where
  "remove_packet_from_buffer packet_id n =
     (case rn_packets n packet_id of
        None \<Rightarrow> Inl (Fatal (MissingPacket packet_id))
      | Some packet \<Rightarrow>
          if rn_buffer_usage n < rp_size_bytes packet then Inl Panic
          else Inr (packet, n\<lparr>rn_packets := (rn_packets n)(packet_id := None),
                              rn_buffer_usage := rn_buffer_usage n - rp_size_bytes packet\<rparr>))"

definition packet_created :: "packet_in_node \<Rightarrow> duration \<Rightarrow> replayed_node \<Rightarrow> replayed_node tracked" where
  "packet_created s now n = add_packet_to_buffer (pin_packet_id s) (pin_packet_size_bytes s) now n"

definition count_received :: "packet_in_node \<Rightarrow> replayed_node \<Rightarrow> replayed_node" where
  "count_received s n =
     (let nbytes = pin_packet_size_bytes s;
          n1 = n\<lparr>rn_received_packets := track_one nbytes (rn_received_packets n)\<rparr>;
          n2 = (if pin_packet_number s < rn_highest_received n1
                then n1\<lparr>rn_reordered_packets_received :=
                          track_one nbytes (rn_reordered_packets_received n1)\<rparr>
                else n1)
      in n2\<lparr>rn_highest_received := max (rn_highest_received n2) (pin_packet_number s)\<rparr>)"

definition packet_received :: "packet_in_node \<Rightarrow> duration \<Rightarrow> replayed_node \<Rightarrow> replayed_node tracked" where
  "packet_received s now n =
     (let n3 = count_received s n
      in if pin_dropped_on_arrival s
         then (if rn_status n3 = NodeUp
               then [NodeUpPacketDroppedOnArrival (rn_id n3) (pin_packet_id s)] else [],
               Inr (n3\<lparr>rn_dropped_packets_down :=
                      track_one (pin_packet_size_bytes s) (rn_dropped_packets_down n3)\<rparr>))
         else add_packet_to_buffer (pin_packet_id s) (pin_packet_size_bytes s) now n3)"

definition packet_duplicated ::
  "generic_packet_event \<Rightarrow> duration \<Rightarrow> replayed_node \<Rightarrow> replayed_node tracked" where
  "packet_duplicated s now n =
     add_packet_to_buffer (gpe_packet_id s) (gpe_packet_size_bytes s) now
       (n\<lparr>rn_duplicated_packets :=
            track_one (gpe_packet_size_bytes s) (rn_duplicated_packets n)\<rparr>)"

definition node_packet_sent ::
  "uuid \<Rightarrow> replayed_node \<Rightarrow> (replayed_packet \<times> replayed_node) tracked" where
  "node_packet_sent packet_id n =
     (let down = (if rn_status n = NodeDown then [NodeDownPacketSend (rn_id n) packet_id] else [])
      in case remove_packet_from_buffer packet_id n of
           Inl a \<Rightarrow> (down, Inl a)
         | Inr (packet, n1) \<Rightarrow>
             (down @
                (case rn_last_buffer_clear n1 of
                   Some t \<Rightarrow> if rp_arrived_at packet < t
                              then [PacketSurvivedBufferCorruption (rn_id n1) packet_id] else []
                 | None \<Rightarrow> []),
              Inr (packet,
                   n1\<lparr>rn_sent_packets := track_one (rp_size_bytes packet) (rn_sent_packets n1)\<rparr>)))"

definition packet_delivered_to_app_layer :: "uuid \<Rightarrow> replayed_node \<Rightarrow> replayed_node tracked" where
  "packet_delivered_to_app_layer packet_id n =
     ([], map_sum id snd (remove_packet_from_buffer packet_id n))"

definition count_dropped :: "drop_reason \<Rightarrow> nat \<Rightarrow> replayed_node \<Rightarrow> replayed_node" where
  "count_dropped reason nbytes n =
     (case reason of
        Random \<Rightarrow> n\<lparr>rn_dropped_packets_injected := track_one nbytes (rn_dropped_packets_injected n)\<rparr>
      | BufferFull \<Rightarrow>
          n\<lparr>rn_dropped_packets_buffer_full := track_one nbytes (rn_dropped_packets_buffer_full n)\<rparr>
      | BufferCleared \<Rightarrow>
          n\<lparr>rn_dropped_packets_buffer_cleared :=
              track_one nbytes (rn_dropped_packets_buffer_cleared n)\<rparr>)"

definition node_packet_dropped :: "packet_dropped \<Rightarrow> replayed_node \<Rightarrow> replayed_node tracked" where
  "node_packet_dropped s n =
     ([], map_sum id (\<lambda>(packet, n1). count_dropped (pdr_reason s) (rp_size_bytes packet) n1)
            (remove_packet_from_buffer (pdr_packet_id s) n))"

definition packet_ecn :: "generic_packet_event \<Rightarrow> replayed_node \<Rightarrow> replayed_node tracked" where
  "packet_ecn s n =
     ([], Inr (n\<lparr>rn_ecn_packets := track_one (gpe_packet_size_bytes s) (rn_ecn_packets n)\<rparr>))"

definition packet_has_extra_delay_event ::
  "uuid \<Rightarrow> duration \<Rightarrow> replayed_node \<Rightarrow> replayed_node tracked" where
  "packet_has_extra_delay_event packet_id delay n =
     ([], case rn_packets n packet_id of
            None \<Rightarrow> Inl (Fatal (MissingPacket packet_id))
          | Some packet \<Rightarrow>
              Inr (n\<lparr>rn_packets := (rn_packets n)(packet_id \<mapsto> packet\<lparr>rp_extra_delay := delay\<rparr>)\<rparr>))"

definition node_update_max_buffer_usage :: "replayed_node \<Rightarrow> replayed_node" where
  "node_update_max_buffer_usage n =
     n\<lparr>rn_max_buffer_usage := max (rn_buffer_usage n) (rn_max_buffer_usage n)\<rparr>"

section \<open>Replayed links\<close>

record replayed_link =
  rl_status :: update_link_status
  rl_last_down :: "duration option"
  rl_bandwidth_usage_bps :: nat
  rl_window :: "(duration \<times> nat) list"
  rl_max_bandwidth_usage_bps :: nat

definition replayed_link_default :: replayed_link where
  "replayed_link_default =
     \<lparr>rl_status = LinkUp, rl_last_down = None, rl_bandwidth_usage_bps = 0, rl_window = [],
      rl_max_bandwidth_usage_bps = 0\<rparr>"

definition link_is_up :: "replayed_link \<Rightarrow> bool" where
  "link_is_up l \<longleftrightarrow> rl_status l = LinkUp"

definition set_status :: "update_link_status \<Rightarrow> duration \<Rightarrow> replayed_link \<Rightarrow> replayed_link" where
  "set_status status now l =
     (if status = LinkDown then l\<lparr>rl_last_down := Some now\<rparr> else l)\<lparr>rl_status := status\<rparr>"

fun expire_packets :: "duration \<Rightarrow> duration \<Rightarrow> nat \<Rightarrow> (duration \<times> nat) list \<Rightarrow> nat \<times> (duration \<times> nat) list"
where
  "expire_packets window now usage [] = (usage, [])"
| "expire_packets window now usage ((t, bits) # rest) =
     (if t + window < now then expire_packets window now (sub64 usage bits) rest
      else (usage, (t, bits) # rest))"

definition window_seconds :: "nat \<Rightarrow> nat" where
  "window_seconds link_bandwidth_bps = (if link_bandwidth_bps < 9984 then 10 else 1)"

definition nanos_per_second :: nat where "nanos_per_second = 1000000000"

definition link_packet_sent ::
  "duration \<Rightarrow> nat \<Rightarrow> nat \<Rightarrow> replayed_link \<Rightarrow> nat \<times> replayed_link" where
  "link_packet_sent packet_sent_time packet_size_bytes link_bandwidth_bps l =
     (let secs = window_seconds link_bandwidth_bps
      in case expire_packets (secs * nanos_per_second) packet_sent_time
                (rl_bandwidth_usage_bps l) (rl_window l) of
           (usage, window) \<Rightarrow>
             let packet_size_bits = mul64 packet_size_bytes 8;
                 usage' = add64 usage packet_size_bits;
                 bandwidth_usage = usage' div secs
             in (bandwidth_usage,
                 l\<lparr>rl_window := window @ [(packet_sent_time, packet_size_bits)],
                   rl_bandwidth_usage_bps := usage',
                   rl_max_bandwidth_usage_bps :=
                     max (rl_max_bandwidth_usage_bps l) bandwidth_usage\<rparr>))"

section \<open>The bandwidth a link is seen to use\<close>

lemma expire_packets_window: "snd (expire_packets w now usage ps) = dropWhile (\<lambda>p. fst p + w < now) ps"
  by (induction w now usage ps rule: expire_packets.induct) auto

lemma expire_packets_usage:
  "usage = weight ps \<Longrightarrow>
   fst (expire_packets w now usage ps) = weight (dropWhile (\<lambda>p. fst p + w < now) ps)"
  by (induction w now usage ps rule: expire_packets.induct) (auto simp: sub64_def)

definition link_sends :: "nat \<Rightarrow> duration \<Rightarrow> nat \<Rightarrow> replayed_link \<Rightarrow> replayed_link" where
  "link_sends link_bandwidth_bps t n l = snd (link_packet_sent t n link_bandwidth_bps l)"

lemma link_sends_window:
  "rl_window (link_sends bw t n l) =
     dropWhile (\<lambda>p. fst p + window_seconds bw * nanos_per_second < t) (rl_window l) @ [(t, mul64 n 8)]"
  using expire_packets_window [of "window_seconds bw * nanos_per_second" t "rl_bandwidth_usage_bps l" "rl_window l"]
  by (auto simp: link_sends_def link_packet_sent_def Let_def split: prod.splits)

lemma link_sends_usage:
  assumes "rl_bandwidth_usage_bps l = weight (rl_window l)"
  shows "rl_bandwidth_usage_bps (link_sends bw t n l) =
    add64 (weight (dropWhile (\<lambda>p. fst p + window_seconds bw * nanos_per_second < t) (rl_window l))) (mul64 n 8)"
  using expire_packets_usage [OF assms, of "window_seconds bw * nanos_per_second" t]
  by (auto simp: link_sends_def link_packet_sent_def Let_def split: prod.splits)

interpretation bw: sliding_window "window_seconds link_bandwidth_bps * nanos_per_second" "\<lambda>n. mul64 n 8"
  "link_sends link_bandwidth_bps" rl_window rl_bandwidth_usage_bps for link_bandwidth_bps
proof unfold_locales
  show "rl_window (link_sends bw t n l) =
      dropWhile (\<lambda>p. fst p + window_seconds bw * nanos_per_second < t) (rl_window l) @ [(t, mul64 n 8)]"
    for n bw t l by (rule link_sends_window)
  fix bw t n and l :: replayed_link
  assume a: "rl_bandwidth_usage_bps l = weight (rl_window l)" "rl_bandwidth_usage_bps l + mul64 n 8 < 2 ^ 64"
  have "weight (dropWhile (\<lambda>p. fst p + window_seconds bw * nanos_per_second < t) (rl_window l)) + mul64 n 8 < 2 ^ 64"
    using weight_dropWhile_le [of _ "rl_window l"] a by (metis add_le_mono1 le_less_trans)
  then show "rl_bandwidth_usage_bps (link_sends bw t n l) = weight (rl_window (link_sends bw t n l))"
    by (simp add: link_sends_usage [OF a(1)] link_sends_window add64_id)
qed

text \<open>
  C27. For packets replayed in time order, the bandwidth the verifier attributes to a link when a
  packet is sent is the number of bits sent over it in the window that ends at that moment, divided
  by the length of the window: ten seconds for slow links, one second for the others.
\<close>

theorem bandwidth_of_window:
  assumes "sorted (map fst (sent @ [(t, n)]))"
    and "(\<Sum>(u, m) \<leftarrow> sent @ [(t, n)]. m * 8) < 2 ^ 64"
  shows "fst (link_packet_sent t n bw (fold (\<lambda>(u, m). link_sends bw u m) sent replayed_link_default)) =
    (\<Sum>(u, m) \<leftarrow> sent @ [(t, n)]. if t \<le> u + window_seconds bw * nanos_per_second then m * 8 else 0)
      div window_seconds bw"
proof -
  let ?ps = "sent @ [(t, n)]"
  have m: "mul64 m 8 = m * 8" if "(u, m) \<in> set ?ps" for u m
  proof -
    have "m * 8 \<le> (\<Sum>(u, m) \<leftarrow> ?ps. m * 8)"
      using that by (intro member_le_sum_list) (force simp: image_iff, simp)
    with assms(2) show ?thesis by (intro mul64_id) linarith
  qed
  then have bits: "map (\<lambda>(u, m). (u, mul64 m 8)) ?ps = map (\<lambda>(u, m). (u, m * 8)) ?ps" by auto
  have "weight (map (\<lambda>(u, m). (u, mul64 m 8)) ?ps) = (\<Sum>(u, m) \<leftarrow> ?ps. m * 8)"
    unfolding bits weight_def by (simp add: comp_def case_prod_unfold)
  then have small: "weight (map (\<lambda>(u, m). (u, mul64 m 8)) ?ps) < 2 ^ 64" using assms(2) by simp
  let ?l = "fold (\<lambda>(u, m). link_sends bw u m) sent replayed_link_default"
  have "fst (link_packet_sent t n bw ?l) = rl_bandwidth_usage_bps (link_sends bw t n ?l) div window_seconds bw"
    by (simp add: link_packet_sent_def link_sends_def Let_def split: prod.splits)
  also have "link_sends bw t n ?l = bw.pushes bw ?ps replayed_link_default"
    by (simp add: bw.pushes_def)
  also have "rl_bandwidth_usage_bps \<dots> = weight (bw.recent bw t ?ps)"
    using bw.window_after [of replayed_link_default, OF _ _ assms(1) small]
    by (simp add: replayed_link_default_def)
  also have "\<dots> = (\<Sum>(u, m) \<leftarrow> ?ps. if t \<le> u + window_seconds bw * nanos_per_second then m * 8 else 0)"
    unfolding bw.recent_def bits by (rule weight_filter_map)
  finally show ?thesis .
qed

theorem bandwidth_of_window_witness:
  "fst (link_packet_sent 1500000000 10 10000
      (fold (\<lambda>(u, m). link_sends 10000 u m) [(0, 100), (600000000, 20)] replayed_link_default)) = 240"
  using bandwidth_of_window [of "[(0, 100), (600000000, 20)]" 1500000000 10 10000]
  by (simp add: window_seconds_def nanos_per_second_def)

section \<open>The verifier\<close>

record in_flight_packet =
  if_size_bytes :: nat
  if_sent_at_relative :: duration
  if_extra_delay :: duration
  if_link_id :: id

record link_metadata =
  lm_source_node_id :: id
  lm_target_node_id :: id
  lm_delay :: duration
  lm_bandwidth_bps :: nat

record simulation_verifier =
  sv_steps :: "simulation_step list"
  sv_nodes :: "id \<rightharpoonup> replayed_node"
  sv_links :: "id \<rightharpoonup> replayed_link"
  sv_in_flight_packets :: "uuid \<rightharpoonup> in_flight_packet"
  sv_host_nodes :: "id set"
  sv_node_metadata :: "id \<rightharpoonup> nat"
  sv_link_metadata :: "id \<rightharpoonup> link_metadata"
  sv_errors :: "non_fatal_error list"

datatype new_error =
    AddressOfTwoNodes ip_addr id id
  | NoNodeForLinkSource id ip_addr
  | NoNodeForLinkTarget id ip_addr

record node_tables =
  nt_node_metadata :: "id \<rightharpoonup> nat"
  nt_replayed_nodes :: "id \<rightharpoonup> replayed_node"
  nt_host_nodes :: "id set"
  nt_ip_to_node :: "ip_addr \<rightharpoonup> id"

definition add_address :: "id \<Rightarrow> (ip_addr \<rightharpoonup> id) \<Rightarrow> ip_addr \<Rightarrow> new_error + (ip_addr \<rightharpoonup> id)" where
  "add_address node_id m addr =
     (case m addr of
        Some existing \<Rightarrow>
          if existing \<noteq> node_id then Inl (AddressOfTwoNodes addr node_id existing)
          else Inr (m(addr \<mapsto> node_id))
      | None \<Rightarrow> Inr (m(addr \<mapsto> node_id)))"

definition add_node :: "node_tables \<Rightarrow> network_node_spec \<Rightarrow> new_error + node_tables" where
  "add_node nt node =
     bind_ok (fold_ok (add_address (ns_id node)) (nt_ip_to_node nt) (spec_addresses node)) (\<lambda>ips.
       Inr \<lparr>nt_node_metadata = (nt_node_metadata nt)(ns_id node \<mapsto> ns_buffer_size_bytes node),
            nt_replayed_nodes =
              (nt_replayed_nodes nt)(ns_id node \<mapsto> replayed_node_new (ns_id node)),
            nt_host_nodes =
              (if ns_kind node = Host then insert (ns_id node) (nt_host_nodes nt)
               else nt_host_nodes nt),
            nt_ip_to_node = ips\<rparr>)"

definition add_link ::
  "(ip_addr \<rightharpoonup> id) \<Rightarrow> (id \<rightharpoonup> replayed_link) \<times> (id \<rightharpoonup> link_metadata) \<Rightarrow> network_link_spec \<Rightarrow>
   new_error + (id \<rightharpoonup> replayed_link) \<times> (id \<rightharpoonup> link_metadata)" where
  "add_link ips tables link =
     (case ips (ls_source link) of
        None \<Rightarrow> Inl (NoNodeForLinkSource (ls_id link) (ls_source link))
      | Some source_id \<Rightarrow>
          (case ips (ls_target link) of
             None \<Rightarrow> Inl (NoNodeForLinkTarget (ls_id link) (ls_target link))
           | Some target_id \<Rightarrow>
               Inr ((fst tables)(ls_id link \<mapsto> replayed_link_default),
                    (snd tables)(ls_id link \<mapsto>
                      \<lparr>lm_source_node_id = source_id, lm_target_node_id = target_id,
                       lm_delay = ls_delay link, lm_bandwidth_bps = ls_bandwidth_bps link\<rparr>))))"

definition verifier_new ::
  "simulation_step list \<Rightarrow> network_spec \<Rightarrow> new_error + simulation_verifier" where
  "verifier_new steps spec =
     (let sorted_steps =
            (if sorted (map st_relative_time steps) then steps else sort_key st_relative_time steps)
      in bind_ok (fold_ok add_node
             \<lparr>nt_node_metadata = Map.empty, nt_replayed_nodes = Map.empty, nt_host_nodes = {},
              nt_ip_to_node = Map.empty\<rparr> (spec_nodes spec)) (\<lambda>nt.
         bind_ok (fold_ok (add_link (nt_ip_to_node nt)) (Map.empty, Map.empty) (spec_links spec))
           (\<lambda>(links, link_metadata).
             Inr \<lparr>sv_steps = sorted_steps, sv_nodes = nt_replayed_nodes nt, sv_links = links,
                  sv_in_flight_packets = Map.empty, sv_host_nodes = nt_host_nodes nt,
                  sv_node_metadata = nt_node_metadata nt, sv_link_metadata = link_metadata,
                  sv_errors = []\<rparr>)))"

definition tracer_verifier :: "tracer \<Rightarrow> new_error + simulation_verifier" where
  "tracer_verifier t = verifier_new (tr_recorded_steps t) (tr_network_spec t)"

text \<open>An aborted replay keeps the non-fatal errors seen so far, as \<^verbatim>\<open>try_fatal!\<close> does.\<close>

type_synonym 'a replay = "(non_fatal_error list \<times> abort) + 'a"

definition track_errors :: "non_fatal_error list \<Rightarrow> simulation_verifier \<Rightarrow> simulation_verifier" where
  "track_errors es v = v\<lparr>sv_errors := sv_errors v @ es\<rparr>"

definition with_node ::
  "id \<Rightarrow> (replayed_node \<Rightarrow> replayed_node tracked) \<Rightarrow> simulation_verifier \<Rightarrow> simulation_verifier replay"
where
  "with_node node_id f v =
     (case sv_nodes v node_id of
        None \<Rightarrow> Inl (sv_errors v, Fatal (MissingNode node_id))
      | Some n \<Rightarrow>
          (case f n of
             (es, Inl a) \<Rightarrow> Inl (sv_errors v @ es, a)
           | (es, Inr n') \<Rightarrow> Inr (track_errors es (v\<lparr>sv_nodes := (sv_nodes v)(node_id \<mapsto> n')\<rparr>))))"

definition replay_packet_in_node ::
  "duration \<Rightarrow> packet_in_node \<Rightarrow> simulation_verifier \<Rightarrow> simulation_verifier replay" where
  "replay_packet_in_node now s v =
     (case sv_in_flight_packets v (pin_packet_id s) of
        Some in_flight \<Rightarrow>
          (let v1 = v\<lparr>sv_in_flight_packets := (sv_in_flight_packets v)(pin_packet_id s := None)\<rparr>;
               link_id = if_link_id in_flight
           in case sv_link_metadata v1 link_id of
                None \<Rightarrow> Inl (sv_errors v1, Panic)
              | Some md \<Rightarrow>
                  let v2 = track_errors
                        (if pin_node_id s \<noteq> lm_target_node_id md
                         then [DisconnectedPacketReceive (pin_node_id s) link_id] else []) v1
                  in if now < if_sent_at_relative in_flight then Inl (sv_errors v2, Panic)
                     else let v3 = track_errors
                            (if now - if_sent_at_relative in_flight < lm_delay md + if_extra_delay in_flight
                             then [TooFastPacketReceive (pin_node_id s) link_id] else []) v2
                          in case sv_links v3 link_id of
                               None \<Rightarrow> Inl (sv_errors v3, Fatal (MissingLink link_id))
                             | Some link \<Rightarrow>
                                 with_node (pin_node_id s) (packet_received s now)
                                   (track_errors
                                     (case rl_last_down link of
                                        Some d \<Rightarrow>
                                          if if_sent_at_relative in_flight \<le> d
                                          then [OfflinePacketReceive (pin_node_id s) link_id
                                                  (if_sent_at_relative in_flight) d]
                                          else []
                                      | None \<Rightarrow> []) v3))
      | None \<Rightarrow>
          with_node (pin_node_id s) (packet_created s now)
            (track_errors
              (if pin_node_id s \<notin> sv_host_nodes v
               then [PacketCreatedByRouterNode (pin_node_id s) (pin_packet_id s)] else []) v))"

definition replay_packet_in_transit ::
  "duration \<Rightarrow> packet_in_transit \<Rightarrow> simulation_verifier \<Rightarrow> simulation_verifier replay" where
  "replay_packet_in_transit now s v =
     (case sv_nodes v (pit_node_id s) of
        None \<Rightarrow> Inl (sv_errors v, Fatal (MissingNode (pit_node_id s)))
      | Some node \<Rightarrow>
          (case node_packet_sent (pit_packet_id s) node of
             (es, Inl a) \<Rightarrow> Inl (sv_errors v @ es, a)
           | (es, Inr (packet, node')) \<Rightarrow>
               let v1 = track_errors es (v\<lparr>sv_nodes := (sv_nodes v)(pit_node_id s \<mapsto> node')\<rparr>);
                   link_id = pit_link_id s
               in case sv_link_metadata v1 link_id of
                    None \<Rightarrow> Inl (sv_errors v1, Fatal (MissingLink link_id))
                  | Some md \<Rightarrow>
                      let v2 = track_errors
                            (if pit_node_id s \<noteq> lm_source_node_id md
                             then [DisconnectedPacketSend (pit_node_id s) link_id] else []) v1
                      in case sv_links v2 link_id of
                           None \<Rightarrow> Inl (sv_errors v2, Fatal (MissingLink link_id))
                         | Some link \<Rightarrow>
                             let v3 = track_errors
                                   (if \<not> link_is_up link
                                    then [OfflinePacketSend (pit_node_id s) link_id] else []) v2
                             in case link_packet_sent now (rp_size_bytes packet)
                                       (lm_bandwidth_bps md) link of
                                  (used_bandwidth_bps, link') \<Rightarrow>
                                    Inr ((track_errors
                                      (if lm_bandwidth_bps md < used_bandwidth_bps
                                       then [LinkBandwidthExceeded (pit_node_id s) link_id
                                               (pit_packet_id s) (lm_bandwidth_bps md)
                                               used_bandwidth_bps] else [])
                                      (v3\<lparr>sv_links := (sv_links v3)(link_id \<mapsto> link')\<rparr>))
                                      \<lparr>sv_in_flight_packets :=
                                         (sv_in_flight_packets v3)(pit_packet_id s \<mapsto>
                                           \<lparr>if_size_bytes = rp_size_bytes packet,
                                            if_sent_at_relative = now,
                                            if_extra_delay = rp_extra_delay packet,
                                            if_link_id = link_id\<rparr>)\<rparr>)))"

definition replay_network_event ::
  "duration \<Rightarrow> link_event_payload option \<Rightarrow> node_event_payload option \<Rightarrow> simulation_verifier \<Rightarrow>
   simulation_verifier replay" where
  "replay_network_event now link_event node_event v =
     bind_ok
       (case link_event of
          None \<Rightarrow> Inr v
        | Some p \<Rightarrow>
            (case lep_status p of
               None \<Rightarrow> Inr v
             | Some status \<Rightarrow>
                 (case sv_links v (lep_link_id p) of
                    None \<Rightarrow> Inl (sv_errors v, Fatal (MissingLink (lep_link_id p)))
                  | Some link \<Rightarrow>
                      Inr (v\<lparr>sv_links := (sv_links v)(lep_link_id p \<mapsto> set_status status now link)\<rparr>))))
       (\<lambda>v1.
         case node_event of
           None \<Rightarrow> Inr v1
         | Some p \<Rightarrow> with_node (nep_node_id p) (\<lambda>n. ([], Inr (handle_event p now n))) v1)"

text \<open>
  \<^verbatim>\<open>update_max_buffer_usage\<close> walks the node map in its iteration order and stops at the first node
  over its buffer size, without looking at the nodes after it.
\<close>

fun update_max_buffer_usage ::
  "id list \<Rightarrow> simulation_verifier \<Rightarrow> abort + non_fatal_error option \<times> simulation_verifier" where
  "update_max_buffer_usage [] v = Inr (None, v)"
| "update_max_buffer_usage (node_id # rest) v =
     (case sv_nodes v node_id of
        None \<Rightarrow> update_max_buffer_usage rest v
      | Some n \<Rightarrow>
          let n' = node_update_max_buffer_usage n;
              v' = v\<lparr>sv_nodes := (sv_nodes v)(node_id \<mapsto> n')\<rparr>
          in case sv_node_metadata v node_id of
               None \<Rightarrow> Inl Panic
             | Some buffer_size \<Rightarrow>
                 if buffer_size < rn_max_buffer_usage n'
                 then Inr (Some (NodeExceedsBufferSize node_id buffer_size (rn_max_buffer_usage n')), v')
                 else update_max_buffer_usage rest v')"

definition refresh_buffer_usage ::
  "id list \<Rightarrow> simulation_verifier \<Rightarrow> simulation_verifier replay" where
  "refresh_buffer_usage order v =
     (case update_max_buffer_usage order v of
        Inl a \<Rightarrow> Inl (sv_errors v, a)
      | Inr (None, v') \<Rightarrow> Inr v'
      | Inr (Some e, v') \<Rightarrow> Inr (track_errors [e] v'))"

record verify_state =
  vs_verifier :: simulation_verifier
  vs_last_step_time :: duration
  vs_last_buffer_usage_update :: "duration option"
  vs_stats_by_link :: "id \<rightharpoonup> link_stats"

definition replay_lost_in_transit :: "packet_lost_in_transit \<Rightarrow> verify_state \<Rightarrow> verify_state" where
  "replay_lost_in_transit s st =
     (let v = vs_verifier st in
      case sv_in_flight_packets v (plt_packet_id s) of
        Some packet \<Rightarrow>
          (let stats = (case vs_stats_by_link st (plt_link_id s) of
                          Some ls \<Rightarrow> ls | None \<Rightarrow> default_link_stats)
           in st\<lparr>vs_verifier := v\<lparr>sv_in_flight_packets :=
                   (sv_in_flight_packets v)(plt_packet_id s := None)\<rparr>,
                 vs_stats_by_link := (vs_stats_by_link st)(plt_link_id s \<mapsto>
                   stats\<lparr>lst_dropped_in_transit :=
                     track_one (if_size_bytes packet) (lst_dropped_in_transit stats)\<rparr>)\<rparr>)
      | None \<Rightarrow> st\<lparr>vs_verifier := track_errors [MissingLostPacket (plt_packet_id s)] v\<rparr>)"

definition on_verifier ::
  "(simulation_verifier \<Rightarrow> simulation_verifier replay) \<Rightarrow> verify_state \<Rightarrow> verify_state replay" where
  "on_verifier f st = bind_ok (f (vs_verifier st)) (\<lambda>v. Inr (st\<lparr>vs_verifier := v\<rparr>))"

definition replay_kind :: "duration \<Rightarrow> step_kind \<Rightarrow> verify_state \<Rightarrow> verify_state replay" where
  "replay_kind now kind st =
     (case kind of
        PacketInNode s \<Rightarrow> on_verifier (replay_packet_in_node now s) st
      | PacketDuplicated s \<Rightarrow> on_verifier (with_node (gpe_node_id s) (packet_duplicated s now)) st
      | PacketDropped s \<Rightarrow> on_verifier (with_node (pdr_node_id s) (node_packet_dropped s)) st
      | PacketLostInTransit s \<Rightarrow> Inr (replay_lost_in_transit s st)
      | PacketInTransit s \<Rightarrow> on_verifier (replay_packet_in_transit now s) st
      | PacketCongestionEvent s \<Rightarrow> on_verifier (with_node (gpe_node_id s) (packet_ecn s)) st
      | PacketDeliveredToApplication s \<Rightarrow>
          on_verifier (with_node (gpe_node_id s) (packet_delivered_to_app_layer (gpe_packet_id s))) st
      | PacketExtraDelay s \<Rightarrow>
          on_verifier (with_node (ped_node_id s)
            (packet_has_extra_delay_event (ped_packet_id s) (ped_extra_delay s))) st
      | NetworkEvent link_event node_event \<Rightarrow>
          on_verifier (replay_network_event now link_event node_event) st)"

definition replay_step :: "id list \<Rightarrow> verify_state \<Rightarrow> simulation_step \<Rightarrow> verify_state replay" where
  "replay_step order st step =
     bind_ok
       (if st_relative_time step \<noteq> vs_last_step_time st
        then bind_ok (on_verifier (refresh_buffer_usage order) st) (\<lambda>st1.
               Inr (st1\<lparr>vs_last_buffer_usage_update := Some (vs_last_step_time st),
                        vs_last_step_time := st_relative_time step\<rparr>))
        else Inr st)
       (replay_kind (st_relative_time step) (st_kind step))"

record verified_simulation =
  stats_by_node :: "id \<rightharpoonup> node_stats"
  stats_by_link :: "id \<rightharpoonup> link_stats"
  non_fatal_errors :: "non_fatal_error list"

definition node_stats_of :: "replayed_node \<Rightarrow> node_stats" where
  "node_stats_of v =
     \<lparr>nst_sent = rn_sent_packets v, nst_received = rn_received_packets v,
      nst_dropped_on_arrival = rn_dropped_packets_down v,
      nst_dropped_injected = rn_dropped_packets_injected v,
      nst_dropped_buffer_full = rn_dropped_packets_buffer_full v,
      nst_dropped_buffer_cleared = rn_dropped_packets_buffer_cleared v,
      nst_duplicates = rn_duplicated_packets v,
      nst_received_out_of_order = rn_reordered_packets_received v,
      nst_congestion_experienced = rn_ecn_packets v,
      nst_max_buffer_usage = rn_max_buffer_usage v\<rparr>"

definition finish :: "verify_state \<Rightarrow> verified_simulation" where
  "finish st =
     (let v = vs_verifier st
      in \<lparr>stats_by_node = (\<lambda>i. map_option node_stats_of (sv_nodes v i)),
          stats_by_link = (\<lambda>i. case sv_links v i of
             Some link \<Rightarrow>
               Some ((case vs_stats_by_link st i of Some ls \<Rightarrow> ls | None \<Rightarrow> default_link_stats)
                       \<lparr>lst_max_used_bandwidth_bps := rl_max_bandwidth_usage_bps link\<rparr>)
           | None \<Rightarrow> vs_stats_by_link st i),
          non_fatal_errors = sv_errors v\<rparr>)"

definition verify_start :: "simulation_verifier \<Rightarrow> verify_state" where
  "verify_start v =
     \<lparr>vs_verifier = v\<lparr>sv_steps := []\<rparr>, vs_last_step_time = 0,
      vs_last_buffer_usage_update = None, vs_stats_by_link = Map.empty\<rparr>"

definition verify :: "id list \<Rightarrow> simulation_verifier \<Rightarrow> verified_simulation replay" where
  "verify order v =
     bind_ok (fold_ok (replay_step order) (verify_start v) (sv_steps v)) (\<lambda>st.
       bind_ok
         (if vs_last_buffer_usage_update st \<noteq> Some (vs_last_step_time st)
          then on_verifier (refresh_buffer_usage order) st else Inr st) (\<lambda>st1.
         Inr (finish st1)))"

end
