(* ===== verification/Verifier_Sound.thy ===== *)
theory Verifier_Sound
  imports Verifier
begin

text \<open>
  Soundness of the verifier. What a log says about links, nodes and packets is defined on the log
  itself; a replay tracks it. A log that is accepted without errors therefore has, at each step,
  the property the verifier checks there: packets are sent by the source of a link that is up and
  received by its target after at least its delay, with no outage in between.
\<close>

section \<open>What a trace says\<close>

definition link_status_step :: "id \<Rightarrow> update_link_status \<Rightarrow> simulation_step \<Rightarrow> update_link_status" where
  "link_status_step l st step =
     (case st_kind step of
        NetworkEvent (Some p) _ \<Rightarrow>
          (case lep_status p of
             Some s \<Rightarrow> if lep_link_id p = l then s else st
           | None \<Rightarrow> st)
      | _ \<Rightarrow> st)"

definition link_status_after :: "id \<Rightarrow> simulation_step list \<Rightarrow> update_link_status" where
  "link_status_after l trace = foldl (link_status_step l) LinkUp trace"

definition last_down_step :: "id \<Rightarrow> duration option \<Rightarrow> simulation_step \<Rightarrow> duration option" where
  "last_down_step l d step =
     (case st_kind step of
        NetworkEvent (Some p) _ \<Rightarrow>
          if lep_link_id p = l \<and> lep_status p = Some LinkDown then Some (st_relative_time step) else d
      | _ \<Rightarrow> d)"

definition last_down_after :: "id \<Rightarrow> simulation_step list \<Rightarrow> duration option" where
  "last_down_after l trace = foldl (last_down_step l) None trace"

definition node_status_step :: "id \<Rightarrow> update_node_status \<Rightarrow> simulation_step \<Rightarrow> update_node_status" where
  "node_status_step n st step =
     (case st_kind step of
        NetworkEvent _ (Some p) \<Rightarrow>
          (case nep_status p of
             Some s \<Rightarrow> if nep_node_id p = n then s else st
           | None \<Rightarrow> st)
      | _ \<Rightarrow> st)"

definition node_status_after :: "id \<Rightarrow> simulation_step list \<Rightarrow> update_node_status" where
  "node_status_after n trace = foldl (node_status_step n) NodeUp trace"

text \<open>When and on which link a packet is in flight.\<close>

definition flight_step :: "uuid \<Rightarrow> (duration \<times> id) option \<Rightarrow> simulation_step \<Rightarrow> (duration \<times> id) option" where
  "flight_step i fl step =
     (case st_kind step of
        PacketInTransit s \<Rightarrow>
          if pit_packet_id s = i then Some (st_relative_time step, pit_link_id s) else fl
      | PacketInNode s \<Rightarrow> if pin_packet_id s = i then None else fl
      | PacketLostInTransit s \<Rightarrow> if plt_packet_id s = i then None else fl
      | _ \<Rightarrow> fl)"

definition flight_after :: "uuid \<Rightarrow> simulation_step list \<Rightarrow> (duration \<times> id) option" where
  "flight_after i trace = foldl (flight_step i) None trace"

lemmas log_defs =
  link_status_after_def last_down_after_def node_status_after_def flight_after_def

lemmas log_step_defs =
  link_status_step_def last_down_step_def node_status_step_def flight_step_def

section \<open>Frames of the replay\<close>

lemma with_node_Inr:
  assumes "with_node i f v = Inr v'"
  obtains n es n' where "sv_nodes v i = Some n" "f n = (es, Inr n')"
    "v' = v\<lparr>sv_nodes := (sv_nodes v)(i \<mapsto> n'), sv_errors := sv_errors v @ es\<rparr>"
  using assms
  by (auto simp: with_node_def track_errors_def split: option.splits prod.splits sum.splits)

lemma add_packet_status:
  "add_packet_to_buffer i k now n = (es, Inr n') \<Longrightarrow> rn_status n' = rn_status n"
  by (auto simp: add_packet_to_buffer_def split: if_splits)

lemma remove_packet_status:
  "remove_packet_from_buffer i n = Inr (p, n') \<Longrightarrow> rn_status n' = rn_status n"
  by (auto simp: remove_packet_from_buffer_def split: option.splits if_splits)

lemma count_received_status [simp]:
  "rn_status (count_received s n) = rn_status n" "rn_id (count_received s n) = rn_id n"
  "rn_packets (count_received s n) = rn_packets n"
  "rn_buffer_usage (count_received s n) = rn_buffer_usage n"
  "rn_last_buffer_clear (count_received s n) = rn_last_buffer_clear n"
  by (simp_all add: count_received_def Let_def)

lemma count_dropped_status [simp]:
  "rn_status (count_dropped r k n) = rn_status n" "rn_packets (count_dropped r k n) = rn_packets n"
  "rn_buffer_usage (count_dropped r k n) = rn_buffer_usage n"
  by (simp_all add: count_dropped_def split: drop_reason.split)

lemma node_ops_status:
  "packet_created s now n = (es, Inr n') \<Longrightarrow> rn_status n' = rn_status n"
  "packet_received s now n = (es, Inr n') \<Longrightarrow> rn_status n' = rn_status n"
  "packet_duplicated g now n = (es, Inr n') \<Longrightarrow> rn_status n' = rn_status n"
  "node_packet_sent i n = (es, Inr (p, n')) \<Longrightarrow> rn_status n' = rn_status n"
  "packet_delivered_to_app_layer i n = (es, Inr n') \<Longrightarrow> rn_status n' = rn_status n"
  "node_packet_dropped d n = (es, Inr n') \<Longrightarrow> rn_status n' = rn_status n"
  "packet_ecn g n = (es, Inr n') \<Longrightarrow> rn_status n' = rn_status n"
  "packet_has_extra_delay_event i x n = (es, Inr n') \<Longrightarrow> rn_status n' = rn_status n"
  by (auto simp: packet_created_def packet_received_def packet_duplicated_def node_packet_sent_def
      packet_delivered_to_app_layer_def node_packet_dropped_def packet_ecn_def
      packet_has_extra_delay_event_def Let_def map_sum_def
      dest!: add_packet_status remove_packet_status split: if_splits sum.splits prod.splits option.splits)

text \<open>The part of the verifier a replay never changes; errors only accumulate.\<close>

definition same_network :: "simulation_verifier \<Rightarrow> simulation_verifier \<Rightarrow> bool" where
  "same_network v v' \<longleftrightarrow>
     sv_host_nodes v' = sv_host_nodes v \<and> sv_node_metadata v' = sv_node_metadata v \<and>
     sv_link_metadata v' = sv_link_metadata v \<and> dom (sv_nodes v') = dom (sv_nodes v) \<and>
     dom (sv_links v') = dom (sv_links v) \<and> (\<exists>es. sv_errors v' = sv_errors v @ es)"

lemma same_network_refl [simp]: "same_network v v"
  by (simp add: same_network_def)

lemma same_network_trans: "same_network a b \<Longrightarrow> same_network b c \<Longrightarrow> same_network a c"
  by (auto simp: same_network_def)

text \<open>The replay state agrees with the log replayed so far.\<close>

definition tracks :: "simulation_step list \<Rightarrow> simulation_verifier \<Rightarrow> bool" where
  "tracks trace v \<longleftrightarrow>
     (\<forall>l k. sv_links v l = Some k \<longrightarrow>
        rl_status k = link_status_after l trace \<and> rl_last_down k = last_down_after l trace) \<and>
     (\<forall>n k. sv_nodes v n = Some k \<longrightarrow> rn_status k = node_status_after n trace) \<and>
     (\<forall>i. map_option (\<lambda>p. (if_sent_at_relative p, if_link_id p)) (sv_in_flight_packets v i) =
        flight_after i trace)"

text \<open>A step whose effect on links, nodes and packets in flight is the one the log describes.\<close>

definition replays :: "simulation_step \<Rightarrow> simulation_verifier \<Rightarrow> simulation_verifier \<Rightarrow> bool" where
  "replays step v v' \<longleftrightarrow>
     same_network v v' \<and>
     (\<forall>l k k'. sv_links v l = Some k \<longrightarrow> sv_links v' l = Some k' \<longrightarrow>
        rl_status k' = link_status_step l (rl_status k) step \<and>
        rl_last_down k' = last_down_step l (rl_last_down k) step) \<and>
     (\<forall>n k k'. sv_nodes v n = Some k \<longrightarrow> sv_nodes v' n = Some k' \<longrightarrow>
        rn_status k' = node_status_step n (rn_status k) step) \<and>
     (\<forall>i. map_option (\<lambda>p. (if_sent_at_relative p, if_link_id p)) (sv_in_flight_packets v' i) =
        flight_step i (map_option (\<lambda>p. (if_sent_at_relative p, if_link_id p))
          (sv_in_flight_packets v i)) step)"

lemma same_network_Some:
  "same_network v v' \<Longrightarrow> sv_links v' l = Some k' \<Longrightarrow> \<exists>k. sv_links v l = Some k"
  "same_network v v' \<Longrightarrow> sv_nodes v' n = Some m' \<Longrightarrow> \<exists>m. sv_nodes v n = Some m"
  by (auto simp: same_network_def dom_def set_eq_iff)

lemma tracks_replays:
  assumes "tracks trace v" and "replays step v v'"
  shows "tracks (trace @ [step]) v'"
proof -
  have sn: "same_network v v'" using assms(2) by (simp add: replays_def)
  have "rl_status k' = link_status_step l (link_status_after l trace) step \<and>
      rl_last_down k' = last_down_step l (last_down_after l trace) step" if "sv_links v' l = Some k'" for l k'
    using same_network_Some(1) [OF sn that] that assms by (auto simp: tracks_def replays_def)
  moreover have "rn_status m' = node_status_step n (node_status_after n trace) step"
    if "sv_nodes v' n = Some m'" for n m'
    using same_network_Some(2) [OF sn that] that assms by (auto simp: tracks_def replays_def)
  moreover have "map_option (\<lambda>p. (if_sent_at_relative p, if_link_id p)) (sv_in_flight_packets v' i) =
      flight_step i (flight_after i trace) step" for i
    using assms by (simp add: tracks_def replays_def)
  ultimately show ?thesis by (simp add: tracks_def log_defs)
qed

section \<open>Each kind of step\<close>

text \<open>Steps that touch one node and keep its status.\<close>

lemma replays_node:
  assumes "with_node i f v = Inr v'" and "\<And>n es n'. f n = (es, Inr n') \<Longrightarrow> rn_status n' = rn_status n"
    and "\<And>l a. link_status_step l a step = a" and "\<And>l a. last_down_step l a step = a"
    and "\<And>n a. node_status_step n a step = a" and "\<And>j a. flight_step j a step = a"
  shows "replays step v v'"
  using assms(1)
proof (cases rule: with_node_Inr)
  case (1 n es n')
  with assms(2) [OF 1(2)] assms(3-6) show ?thesis
    by (auto simp: replays_def same_network_def)
qed

lemma replays_refresh:
  assumes "update_max_buffer_usage order v = Inr (e, v')"
  shows "sv_links v' = sv_links v \<and> sv_in_flight_packets v' = sv_in_flight_packets v \<and>
    sv_host_nodes v' = sv_host_nodes v \<and> sv_node_metadata v' = sv_node_metadata v \<and>
    sv_link_metadata v' = sv_link_metadata v \<and> sv_errors v' = sv_errors v \<and>
    (\<forall>i. map_option rn_status (sv_nodes v' i) = map_option rn_status (sv_nodes v i))"
  using assms
proof (induction order v rule: update_max_buffer_usage.induct)
  case (2 i rest v)
  show ?case
  proof (cases "sv_nodes v i")
    case None
    with 2 show ?thesis by simp
  next
    case (Some n)
    let ?v = "v\<lparr>sv_nodes := (sv_nodes v)(i \<mapsto> node_update_max_buffer_usage n)\<rparr>"
    from Some "2.prems" obtain b where b: "sv_node_metadata v i = Some b"
      by (cases "sv_node_metadata v i") (simp_all add: Let_def)
    have keep: "map_option rn_status (sv_nodes ?v j) = map_option rn_status (sv_nodes v j)" for j
      using Some by (simp add: node_update_max_buffer_usage_def)
    show ?thesis
    proof (cases "b < rn_max_buffer_usage (node_update_max_buffer_usage n)")
      case True
      with Some b "2.prems" keep show ?thesis by (auto simp: Let_def)
    next
      case False
      with Some b "2.prems" have "update_max_buffer_usage rest ?v = Inr (e, v')" by (simp add: Let_def)
      from "2.IH"(2) [OF Some refl refl b False this] keep show ?thesis by simp
    qed
  qed
qed simp

text \<open>A packet shows up in a node: after a flight, or made there.\<close>

lemma packet_in_node_flight:
  assumes "replay_packet_in_node now s v = Inr v'"
    and "sv_in_flight_packets v (pin_packet_id s) = Some fl"
  obtains md k where "sv_link_metadata v (if_link_id fl) = Some md"
    "sv_links v (if_link_id fl) = Some k" "if_sent_at_relative fl \<le> now"
    "with_node (pin_node_id s) (packet_received s now)
       (v\<lparr>sv_in_flight_packets := (sv_in_flight_packets v)(pin_packet_id s := None),
          sv_errors := sv_errors v @
            (if pin_node_id s \<noteq> lm_target_node_id md
             then [DisconnectedPacketReceive (pin_node_id s) (if_link_id fl)] else []) @
            (if now - if_sent_at_relative fl < lm_delay md + if_extra_delay fl
             then [TooFastPacketReceive (pin_node_id s) (if_link_id fl)] else []) @
            (case rl_last_down k of
               Some d \<Rightarrow>
                 if if_sent_at_relative fl \<le> d
                 then [OfflinePacketReceive (pin_node_id s) (if_link_id fl)
                         (if_sent_at_relative fl) d] else []
             | None \<Rightarrow> [])\<rparr>) = Inr v'"
proof -
  obtain md where md: "sv_link_metadata v (if_link_id fl) = Some md"
    using assms by (auto simp: replay_packet_in_node_def Let_def split: option.splits)
  moreover have "\<not> now < if_sent_at_relative fl"
    using assms md by (auto simp: replay_packet_in_node_def Let_def)
  moreover obtain k where "sv_links v (if_link_id fl) = Some k"
    using assms md \<open>\<not> now < if_sent_at_relative fl\<close>
    by (auto simp: replay_packet_in_node_def Let_def track_errors_def split: option.splits)
  ultimately show ?thesis
    using assms by (intro that [of md k]) (auto simp: replay_packet_in_node_def Let_def track_errors_def)
qed

lemma packet_in_node_created:
  assumes "replay_packet_in_node now s v = Inr v'"
    and "sv_in_flight_packets v (pin_packet_id s) = None"
  shows "with_node (pin_node_id s) (packet_created s now)
    (v\<lparr>sv_errors := sv_errors v @
         (if pin_node_id s \<notin> sv_host_nodes v
          then [PacketCreatedByRouterNode (pin_node_id s) (pin_packet_id s)] else [])\<rparr>) = Inr v'"
  using assms by (auto simp: replay_packet_in_node_def track_errors_def)

lemma replays_packet_in_node:
  assumes "replay_packet_in_node now s v = Inr v'" and "st_kind step = PacketInNode s"
  shows "replays step v v'"
proof (cases "sv_in_flight_packets v (pin_packet_id s)")
  case None
  from packet_in_node_created [OF assms(1) None] show ?thesis
  proof (cases rule: with_node_Inr)
    case (1 n es n')
    with node_ops_status(1) [OF 1(2)] assms(2) None show ?thesis
      by (auto simp: replays_def same_network_def log_step_defs)
  qed
next
  case (Some fl)
  from assms(1) Some obtain md k es0 where
    w: "with_node (pin_node_id s) (packet_received s now)
       (v\<lparr>sv_in_flight_packets := (sv_in_flight_packets v)(pin_packet_id s := None),
          sv_errors := sv_errors v @ es0\<rparr>) = Inr v'"
    by (elim packet_in_node_flight) blast
  from w show ?thesis
  proof (cases rule: with_node_Inr)
    case (1 n es n')
    with node_ops_status(2) [OF 1(2)] assms(2) show ?thesis
      by (auto simp: replays_def same_network_def log_step_defs)
  qed
qed

text \<open>A packet is sent on a link.\<close>

lemma packet_in_transit_Inr:
  assumes "replay_packet_in_transit now s v = Inr v'"
  obtains n es packet n' md k k' used where
    "sv_nodes v (pit_node_id s) = Some n" "node_packet_sent (pit_packet_id s) n = (es, Inr (packet, n'))"
    "sv_link_metadata v (pit_link_id s) = Some md" "sv_links v (pit_link_id s) = Some k"
    "link_packet_sent now (rp_size_bytes packet) (lm_bandwidth_bps md) k = (used, k')"
    "v' = v\<lparr>sv_nodes := (sv_nodes v)(pit_node_id s \<mapsto> n'),
            sv_links := (sv_links v)(pit_link_id s \<mapsto> k'),
            sv_in_flight_packets := (sv_in_flight_packets v)(pit_packet_id s \<mapsto>
              \<lparr>if_size_bytes = rp_size_bytes packet, if_sent_at_relative = now,
               if_extra_delay = rp_extra_delay packet, if_link_id = pit_link_id s\<rparr>),
            sv_errors := sv_errors v @ es @
              (if pit_node_id s \<noteq> lm_source_node_id md
               then [DisconnectedPacketSend (pit_node_id s) (pit_link_id s)] else []) @
              (if \<not> link_is_up k then [OfflinePacketSend (pit_node_id s) (pit_link_id s)] else []) @
              (if lm_bandwidth_bps md < used
               then [LinkBandwidthExceeded (pit_node_id s) (pit_link_id s) (pit_packet_id s)
                       (lm_bandwidth_bps md) used] else [])\<rparr>"
proof -
  obtain n es packet n' where n: "sv_nodes v (pit_node_id s) = Some n"
    "node_packet_sent (pit_packet_id s) n = (es, Inr (packet, n'))"
    using assms by (auto simp: replay_packet_in_transit_def split: option.splits prod.splits sum.splits)
  moreover obtain md where md: "sv_link_metadata v (pit_link_id s) = Some md"
    using assms n by (auto simp: replay_packet_in_transit_def track_errors_def Let_def split: option.splits)
  moreover obtain k where k: "sv_links v (pit_link_id s) = Some k"
    using assms n md by (auto simp: replay_packet_in_transit_def track_errors_def Let_def split: option.splits)
  moreover obtain used k' where "link_packet_sent now (rp_size_bytes packet) (lm_bandwidth_bps md) k = (used, k')"
    by (cases "link_packet_sent now (rp_size_bytes packet) (lm_bandwidth_bps md) k")
  ultimately show ?thesis
    using assms
    by (intro that [of n es packet n' md k used k'])
      (auto simp: replay_packet_in_transit_def track_errors_def Let_def)
qed

lemma link_packet_sent_status:
  "link_packet_sent now n bw k = (used, k') \<Longrightarrow> rl_status k' = rl_status k \<and> rl_last_down k' = rl_last_down k"
  by (auto simp: link_packet_sent_def Let_def split: prod.splits)

lemma replays_packet_in_transit:
  assumes "replay_packet_in_transit (st_relative_time step) s v = Inr v'"
    and "st_kind step = PacketInTransit s"
  shows "replays step v v'"
  using assms(1)
proof (cases rule: packet_in_transit_Inr)
  case (1 n es packet n' md k k' used)
  with node_ops_status(4) [OF 1(2)] link_packet_sent_status [OF 1(5)] assms(2) show ?thesis
    by (auto simp: replays_def same_network_def log_step_defs)
qed

text \<open>Network events, and packets lost in transit.\<close>

lemma handle_event_status:
  "rn_status (handle_event p now n) =
     (case nep_status p of Some s \<Rightarrow> s | None \<Rightarrow> rn_status n)"
  by (auto simp: handle_event_def Let_def split: option.splits)

lemma set_status_simps [simp]:
  "rl_status (set_status s now k) = s"
  "rl_last_down (set_status s now k) = (if s = LinkDown then Some now else rl_last_down k)"
  by (simp_all add: set_status_def)

definition replay_link_event ::
  "duration \<Rightarrow> link_event_payload option \<Rightarrow> simulation_verifier \<Rightarrow> simulation_verifier replay" where
  "replay_link_event now link_event v =
     (case link_event of
        None \<Rightarrow> Inr v
      | Some p \<Rightarrow>
          (case lep_status p of
             None \<Rightarrow> Inr v
           | Some status \<Rightarrow>
               (case sv_links v (lep_link_id p) of
                  None \<Rightarrow> Inl (sv_errors v, Fatal (MissingLink (lep_link_id p)))
                | Some link \<Rightarrow>
                    Inr (v\<lparr>sv_links := (sv_links v)(lep_link_id p \<mapsto> set_status status now link)\<rparr>))))"

lemma replays_network_event:
  assumes "replay_network_event (st_relative_time step) le ne v = Inr v'"
    and "st_kind step = NetworkEvent le ne"
  shows "replays step v v'"
proof -
  let ?now = "st_relative_time step"
  obtain v1 where l: "replay_link_event ?now le v = Inr v1"
    and n: "(case ne of None \<Rightarrow> Inr v1
       | Some p \<Rightarrow> with_node (nep_node_id p) (\<lambda>n. ([], Inr (handle_event p ?now n))) v1) = Inr v'"
    using assms(1) by (auto simp: replay_network_event_def replay_link_event_def bind_ok_Inr_iff)
  have l1: "same_network v v1" "sv_nodes v1 = sv_nodes v"
      "sv_in_flight_packets v1 = sv_in_flight_packets v"
      "\<forall>j k k'. sv_links v j = Some k \<longrightarrow> sv_links v1 j = Some k' \<longrightarrow>
        rl_status k' = link_status_step j (rl_status k) step \<and>
        rl_last_down k' = last_down_step j (rl_last_down k) step"
    using l assms(2)
    by (auto simp: replay_link_event_def same_network_def log_step_defs
        split: option.splits if_splits)
  have fl: "flight_step i a step = a" for i a using assms(2) by (simp add: flight_step_def)
  have ns: "node_status_step i a step =
      (case ne of None \<Rightarrow> a | Some p \<Rightarrow>
         (case nep_status p of Some s \<Rightarrow> if nep_node_id p = i then s else a | None \<Rightarrow> a))" for i a
    using assms(2) by (cases le) (simp_all add: node_status_step_def split: option.split)
  show ?thesis
  proof (cases ne)
    case None
    with n have v': "v' = v1" by simp
    have "rn_status k' = node_status_step i (rn_status k) step"
      if "sv_nodes v i = Some k" "sv_nodes v1 i = Some k'" for i k k'
      using that by (simp add: l1(2) ns None)
    then show ?thesis unfolding v' replays_def l1(3) fl using l1(1,4) by blast
  next
    case (Some p)
    with n have "with_node (nep_node_id p) (\<lambda>n. ([], Inr (handle_event p ?now n))) v1 = Inr v'" by simp
    then show ?thesis
    proof (cases rule: with_node_Inr)
      case (1 m es m')
      have "same_network v1 v'" using 1 by (auto simp: same_network_def)
      with l1 have sn: "same_network v v'" using same_network_trans by blast
      have m': "m' = handle_event p ?now m" using 1(2) by simp
      have "rn_status k' = node_status_step i (rn_status k) step"
        if "sv_nodes v i = Some k" "sv_nodes v' i = Some k'" for i k k'
        using that 1(1,3) l1(2)
        by (cases "i = nep_node_id p") (auto simp: ns Some m' handle_event_status split: option.splits)
      moreover have "sv_links v' = sv_links v1" "sv_in_flight_packets v' = sv_in_flight_packets v"
        using 1(3) l1(3) by simp_all
      ultimately show ?thesis using sn l1(4) fl unfolding replays_def by metis
    qed
  qed
qed

lemma replays_lost_in_transit:
  assumes "st_kind step = PacketLostInTransit s"
  shows "replays step (vs_verifier st) (vs_verifier (replay_lost_in_transit s st))"
  using assms
  by (auto simp: replay_lost_in_transit_def replays_def same_network_def log_step_defs Let_def
      track_errors_def split: option.splits)

lemma replays_kind:
  assumes "replay_kind (st_relative_time step) (st_kind step) st = Inr st'"
  shows "replays step (vs_verifier st) (vs_verifier st')"
proof -
  note on = on_verifier_def bind_ok_Inr_iff replay_kind_def
  show ?thesis
  proof (cases "st_kind step")
    case (PacketInNode s)
    with assms show ?thesis by (auto simp: on intro: replays_packet_in_node)
  next
    case (PacketInTransit s)
    with assms show ?thesis by (auto simp: on intro: replays_packet_in_transit)
  next
    case (NetworkEvent le ne)
    with assms show ?thesis by (auto simp: on intro: replays_network_event)
  next
    case (PacketLostInTransit s)
    with assms replays_lost_in_transit [of step s st] show ?thesis by (auto simp: on)
  qed (use assms in \<open>auto simp: on log_step_defs intro!: replays_node dest: node_ops_status\<close>)
qed

section \<open>The whole replay\<close>

lemma refresh_tracks:
  assumes "refresh_buffer_usage order v = Inr v'"
  shows "same_network v v' \<and> (tracks trace v \<longrightarrow> tracks trace v')"
proof -
  obtain e v1 where u: "update_max_buffer_usage order v = Inr (e, v1)"
    and v': "v' = (case e of None \<Rightarrow> v1 | Some x \<Rightarrow> track_errors [x] v1)"
    using assms by (auto simp: refresh_buffer_usage_def split: sum.splits prod.splits option.splits)
  note r = replays_refresh [OF u]
  have s: "map_option rn_status (sv_nodes v' i) = map_option rn_status (sv_nodes v i)" for i
    using r v' by (simp add: track_errors_def split: option.split)
  have "dom (sv_nodes v') = dom (sv_nodes v)"
    using s by (auto simp: dom_def) (metis map_option_is_None not_Some_eq)+
  moreover have "sv_links v' = sv_links v" "sv_in_flight_packets v' = sv_in_flight_packets v"
    "sv_host_nodes v' = sv_host_nodes v" "sv_node_metadata v' = sv_node_metadata v"
    "sv_link_metadata v' = sv_link_metadata v" "\<exists>es. sv_errors v' = sv_errors v @ es"
    using r v' by (auto simp: track_errors_def split: option.splits)
  moreover have "\<exists>k0. sv_nodes v n = Some k0 \<and> rn_status k0 = rn_status k" if "sv_nodes v' n = Some k" for n k
    using s [of n] that by (cases "sv_nodes v n") auto
  ultimately show ?thesis by (fastforce simp: same_network_def tracks_def)
qed

lemma replay_step_parts:
  assumes "replay_step order st step = Inr st'"
  obtains st1 where "same_network (vs_verifier st) (vs_verifier st1)"
    "\<forall>trace. tracks trace (vs_verifier st) \<longrightarrow> tracks trace (vs_verifier st1)"
    "replay_kind (st_relative_time step) (st_kind step) st1 = Inr st'"
proof (cases "st_relative_time step = vs_last_step_time st")
  case True
  with assms show ?thesis by (intro that [of st]) (simp_all add: replay_step_def)
next
  case False
  with assms obtain v where "refresh_buffer_usage order (vs_verifier st) = Inr v"
    and k: "replay_kind (st_relative_time step) (st_kind step)
        (st\<lparr>vs_verifier := v, vs_last_buffer_usage_update := Some (vs_last_step_time st),
            vs_last_step_time := st_relative_time step\<rparr>) = Inr st'"
    by (auto simp: replay_step_def on_verifier_def bind_ok_Inr_iff)
  from refresh_tracks [OF this(1)] k show ?thesis by (intro that) auto
qed

lemma replay_step_tracks:
  assumes "replay_step order st step = Inr st'"
  shows "same_network (vs_verifier st) (vs_verifier st')"
    and "tracks trace (vs_verifier st) \<Longrightarrow> tracks (trace @ [step]) (vs_verifier st')"
proof -
  obtain st1 where st1: "same_network (vs_verifier st) (vs_verifier st1)"
    "\<forall>trace. tracks trace (vs_verifier st) \<longrightarrow> tracks trace (vs_verifier st1)"
    and "replay_kind (st_relative_time step) (st_kind step) st1 = Inr st'"
    using assms by (rule replay_step_parts)
  then have r: "replays step (vs_verifier st1) (vs_verifier st')" by (intro replays_kind)
  with st1(1) show "same_network (vs_verifier st) (vs_verifier st')"
    by (auto simp: replays_def intro: same_network_trans)
  show "tracks (trace @ [step]) (vs_verifier st')" if "tracks trace (vs_verifier st)"
    using tracks_replays [OF _ r] st1(2) that by blast
qed

definition replayed ::
  "id list \<Rightarrow> simulation_verifier \<Rightarrow> simulation_step list \<Rightarrow> verify_state replay" where
  "replayed order v steps = fold_ok (replay_step order) (verify_start v) steps"

lemma replayed_same_network:
  assumes "fold_ok (replay_step order) st steps = Inr st'"
  shows "same_network (vs_verifier st) (vs_verifier st')"
  using assms
  by (rule fold_ok_invariant [where P = "\<lambda>t. same_network (vs_verifier st) (vs_verifier t)"])
    (auto intro: same_network_trans replay_step_tracks(1))

lemma replayed_tracks:
  assumes "fold_ok (replay_step order) st steps = Inr st'" and "tracks trace (vs_verifier st)"
  shows "tracks (trace @ steps) (vs_verifier st')"
  using assms
proof (induction steps arbitrary: st trace)
  case (Cons s steps)
  then obtain t where "replay_step order st s = Inr t" "fold_ok (replay_step order) t steps = Inr st'"
    by (auto simp: bind_ok_Inr_iff)
  with Cons.IH [of t "trace @ [s]"] Cons.prems(2) replay_step_tracks(2) show ?case by fastforce
qed simp

text \<open>A verifier as \<open>new\<close> makes it.\<close>

definition fresh_verifier :: "simulation_verifier \<Rightarrow> bool" where
  "fresh_verifier v \<longleftrightarrow> (\<exists>steps spec. verifier_new steps spec = Inr v)"

definition fresh_tables :: "node_tables \<Rightarrow> bool" where
  "fresh_tables nt \<longleftrightarrow>
     (\<forall>n k. nt_replayed_nodes nt n = Some k \<longrightarrow> k = replayed_node_new n) \<and>
     (\<forall>n. nt_replayed_nodes nt n = None \<longleftrightarrow> nt_node_metadata nt n = None)"

lemma fresh_tables_add: "fresh_tables nt \<Longrightarrow> add_node nt node = Inr nt' \<Longrightarrow> fresh_tables nt'"
  by (auto simp: add_node_def bind_ok_Inr_iff fresh_tables_def split: if_splits)

lemma verifier_new_Inr:
  assumes "verifier_new steps spec = Inr v"
  shows "\<And>n k. sv_nodes v n = Some k \<Longrightarrow> k = replayed_node_new n"
    and "dom (sv_nodes v) = dom (sv_node_metadata v)"
    and "\<And>l k. sv_links v l = Some k \<Longrightarrow> k = replayed_link_default"
    and "dom (sv_links v) = dom (sv_link_metadata v)"
    and "sv_in_flight_packets v = Map.empty" and "sv_errors v = []"
    and "sv_steps v = (if sorted (map st_relative_time steps) then steps else sort_key st_relative_time steps)"
proof -
  obtain nt links md where nt: "fold_ok add_node
             \<lparr>nt_node_metadata = Map.empty, nt_replayed_nodes = Map.empty, nt_host_nodes = {},
              nt_ip_to_node = Map.empty\<rparr> (spec_nodes spec) = Inr nt"
    and l: "fold_ok (add_link (nt_ip_to_node nt)) (Map.empty, Map.empty) (spec_links spec) = Inr (links, md)"
    and v: "v = \<lparr>sv_steps = (if sorted (map st_relative_time steps) then steps
                            else sort_key st_relative_time steps),
                sv_nodes = nt_replayed_nodes nt, sv_links = links,
                sv_in_flight_packets = Map.empty, sv_host_nodes = nt_host_nodes nt,
                sv_node_metadata = nt_node_metadata nt, sv_link_metadata = md, sv_errors = []\<rparr>"
    using assms by (auto simp: verifier_new_def Let_def bind_ok_Inr_iff)
  have "fresh_tables nt"
    using nt
  proof (rule fold_ok_invariant)
    show "fresh_tables \<lparr>nt_node_metadata = Map.empty, nt_replayed_nodes = Map.empty, nt_host_nodes = {},
              nt_ip_to_node = Map.empty\<rparr>" by (simp add: fresh_tables_def)
  qed (rule fresh_tables_add)
  then show "\<And>n k. sv_nodes v n = Some k \<Longrightarrow> k = replayed_node_new n"
    and "dom (sv_nodes v) = dom (sv_node_metadata v)"
    by (auto simp: v fresh_tables_def dom_def)
  have "case (links, md) of (ls, ms) \<Rightarrow>
      (\<forall>i k. ls i = Some k \<longrightarrow> k = replayed_link_default) \<and> (\<forall>i. ls i = None \<longleftrightarrow> ms i = None)"
    using l by (rule fold_ok_invariant) (auto simp: add_link_def split: option.splits if_splits)
  then show "\<And>l k. sv_links v l = Some k \<Longrightarrow> k = replayed_link_default"
    and "dom (sv_links v) = dom (sv_link_metadata v)"
    by (auto simp: v dom_def)
qed (use assms in \<open>auto simp: verifier_new_def Let_def bind_ok_Inr_iff\<close>)

lemma tracks_fresh:
  assumes "fresh_verifier v"
  shows "tracks [] (vs_verifier (verify_start v))"
proof -
  obtain steps spec where "verifier_new steps spec = Inr v"
    using assms by (auto simp: fresh_verifier_def)
  note n = verifier_new_Inr [OF this]
  show ?thesis
    using n(1,3,5)
    by (fastforce simp: tracks_def verify_start_def log_defs replayed_node_new_def replayed_link_default_def)
qed

text \<open>An accepted log, cut before one of its steps.\<close>

lemma accepted_cut:
  assumes "verify order v = Inr r" and "non_fatal_errors r = []" and "fresh_verifier v"
    and "sv_steps v = before @ step # rest"
  obtains st st' where "tracks before (vs_verifier st)"
    "same_network v (vs_verifier st)"
    "replay_kind (st_relative_time step) (st_kind step) st = Inr st'"
    "sv_errors (vs_verifier st) = []" "sv_errors (vs_verifier st') = []"
proof -
  obtain stn stf where f: "fold_ok (replay_step order) (verify_start v) (before @ step # rest) = Inr stn"
    and fin: "(if vs_last_buffer_usage_update stn \<noteq> Some (vs_last_step_time stn)
          then on_verifier (refresh_buffer_usage order) stn else Inr stn) = Inr stf"
    and r: "r = finish stf"
    using assms(1,4) by (auto simp: verify_def bind_ok_Inr_iff)
  have "same_network (vs_verifier stn) (vs_verifier stf)"
    using fin refresh_tracks by (auto simp: on_verifier_def bind_ok_Inr_iff split: if_splits)
  moreover have "sv_errors (vs_verifier stf) = []" using assms(2) r by (simp add: finish_def Let_def)
  ultimately have en: "sv_errors (vs_verifier stn) = []" by (auto simp: same_network_def)
  from f obtain st0 st1 where st0: "fold_ok (replay_step order) (verify_start v) before = Inr st0"
    and st1: "replay_step order st0 step = Inr st1"
    and rest: "fold_ok (replay_step order) st1 rest = Inr stn"
    by (auto simp: fold_ok_append bind_ok_Inr_iff)
  have t0: "tracks before (vs_verifier st0)"
    using replayed_tracks [OF st0 tracks_fresh [OF assms(3)]] by simp
  have s0: "same_network v (vs_verifier st0)"
    using replayed_same_network [OF st0] by (simp add: verify_start_def same_network_def)
  from replayed_same_network [OF rest] en have e1: "sv_errors (vs_verifier st1) = []"
    by (auto simp: same_network_def)
  from st1 show ?thesis
  proof (cases rule: replay_step_parts)
    case (1 st)
    have "same_network (vs_verifier st) (vs_verifier st1)"
      using replays_kind [OF 1(3)] by (simp add: replays_def)
    with e1 have "sv_errors (vs_verifier st) = []" by (auto simp: same_network_def)
    then show ?thesis using 1 t0 s0 e1 by (intro that [of st st1]) (auto intro: same_network_trans)
  qed
qed

section \<open>What acceptance means\<close>

text \<open>The verifier's tables name the nodes that own the two addresses of a link.\<close>

definition owns :: "network_spec \<Rightarrow> id \<Rightarrow> ip_addr \<Rightarrow> bool" where
  "owns spec i a \<longleftrightarrow> (\<exists>n \<in> set (spec_nodes spec). ns_id n = i \<and> a \<in> set (spec_addresses n))"

definition describes :: "network_spec \<Rightarrow> id \<Rightarrow> link_metadata \<Rightarrow> bool" where
  "describes spec i md \<longleftrightarrow>
     (\<exists>l \<in> set (spec_links spec). ls_id l = i \<and> lm_delay md = ls_delay l \<and>
        owns spec (lm_source_node_id md) (ls_source l) \<and> owns spec (lm_target_node_id md) (ls_target l))"

lemma add_address_all:
  "fold_ok (add_address i) m as = Inr m' \<Longrightarrow> m' a = Some k \<Longrightarrow> m a = Some k \<or> k = i \<and> a \<in> set as"
proof (induction as arbitrary: m)
  case (Cons b as)
  then obtain m1 where m1: "add_address i m b = Inr m1" "fold_ok (add_address i) m1 as = Inr m'"
    by (auto simp: bind_ok_Inr_iff)
  from m1(1) have "m1 = m(b \<mapsto> i)" by (auto simp: add_address_def split: option.splits if_splits)
  with Cons.IH [OF m1(2) Cons.prems(2)] show ?case by (auto split: if_splits)
qed simp

lemma add_node_owners:
  assumes "fold_ok add_node t ns = Inr t'" and "nt_ip_to_node t' a = Some k"
  shows "nt_ip_to_node t a = Some k \<or> (\<exists>n \<in> set ns. ns_id n = k \<and> a \<in> set (spec_addresses n))"
  using assms
proof (induction ns arbitrary: t)
  case (Cons n ns)
  then obtain t1 where t1: "add_node t n = Inr t1" "fold_ok add_node t1 ns = Inr t'"
    by (auto simp: bind_ok_Inr_iff)
  from t1(1) have "fold_ok (add_address (ns_id n)) (nt_ip_to_node t) (spec_addresses n) = Inr (nt_ip_to_node t1)"
    by (auto simp: add_node_def bind_ok_Inr_iff)
  from add_address_all [OF this] Cons.IH [OF t1(2) Cons.prems(2)] show ?case by auto
qed simp

lemma verifier_new_metadata:
  assumes "verifier_new steps spec = Inr v"
  shows "sv_link_metadata v i = Some md \<Longrightarrow>
      describes spec i md"
    and "sv_host_nodes v = ns_id ` {n \<in> set (spec_nodes spec). ns_kind n = Host}"
proof -
  obtain nt links ms where nt: "fold_ok add_node
             \<lparr>nt_node_metadata = Map.empty, nt_replayed_nodes = Map.empty, nt_host_nodes = {},
              nt_ip_to_node = Map.empty\<rparr> (spec_nodes spec) = Inr nt"
    and l: "fold_ok (add_link (nt_ip_to_node nt)) (Map.empty, Map.empty) (spec_links spec) = Inr (links, ms)"
    and v: "sv_host_nodes v = nt_host_nodes nt" "sv_link_metadata v = ms"
    using assms by (auto simp: verifier_new_def Let_def bind_ok_Inr_iff)
  have "\<forall>i md. snd (links, ms) i = Some md \<longrightarrow>
      describes spec i md"
    using l
  proof (rule fold_ok_invariant)
    fix b x b'
    assume x: "x \<in> set (spec_links spec)"
      and inv: "\<forall>i md. snd b i = Some md \<longrightarrow>
        describes spec i md"
      and step: "add_link (nt_ip_to_node nt) b x = Inr b'"
    have own: "nt_ip_to_node nt a = Some k \<Longrightarrow> owns spec k a" for a k
      using add_node_owners [OF nt] by (auto simp: owns_def)
    from step obtain n m where nm: "nt_ip_to_node nt (ls_source x) = Some n" "nt_ip_to_node nt (ls_target x) = Some m"
      and b': "snd b' = (snd b)(ls_id x \<mapsto>
        \<lparr>lm_source_node_id = n, lm_target_node_id = m, lm_delay = ls_delay x, lm_bandwidth_bps = ls_bandwidth_bps x\<rparr>)"
      by (auto simp: add_link_def split: option.splits if_splits prod.splits)
    show "\<forall>i md. snd b' i = Some md \<longrightarrow>
        describes spec i md"
    proof (intro allI impI)
      fix i md
      assume "snd b' i = Some md"
      then show "describes spec i md"
        using inv b' own [OF nm(1)] own [OF nm(2)]
        by (cases "i = ls_id x") (auto simp: describes_def intro!: bexI [OF _ x])
    qed
  qed simp
  then show "sv_link_metadata v i = Some md \<Longrightarrow>
      describes spec i md"
    by (simp add: v)
  have hosts: "nt_host_nodes t' = nt_host_nodes t \<union> ns_id ` {n \<in> set ns. ns_kind n = Host}"
    if "fold_ok add_node t ns = Inr t'" for t t' ns
    using that
    by (induction ns arbitrary: t) (fastforce simp: bind_ok_Inr_iff add_node_def split: if_splits)+
  from hosts [OF nt] show "sv_host_nodes v = ns_id ` {n \<in> set (spec_nodes spec). ns_kind n = Host}"
    by (simp add: v)
qed

lemma accepted_send:
  assumes "verify order v = Inr r" and "non_fatal_errors r = []" and "fresh_verifier v"
    and "sv_steps v = before @ step # rest" and "st_kind step = PacketInTransit s"
  shows "\<exists>md. sv_link_metadata v (pit_link_id s) = Some md \<and> lm_source_node_id md = pit_node_id s \<and>
    link_status_after (pit_link_id s) before = LinkUp \<and>
    node_status_after (pit_node_id s) before = NodeUp"
proof -
  obtain st st' where t: "tracks before (vs_verifier st)" and sn: "same_network v (vs_verifier st)"
    and k: "replay_kind (st_relative_time step) (st_kind step) st = Inr st'"
    and e: "sv_errors (vs_verifier st') = []"
    using assms(1-4) by (rule accepted_cut)
  from k have "replay_packet_in_transit (st_relative_time step) s (vs_verifier st) = Inr (vs_verifier st')"
    by (auto simp: assms(5) replay_kind_def on_verifier_def bind_ok_Inr_iff)
  then show ?thesis
  proof (cases rule: packet_in_transit_Inr)
    case (1 n es packet n' md k k' used)
    have "es = []" "pit_node_id s = lm_source_node_id md" "link_is_up k"
      using 1(6) e by (auto split: if_splits)
    moreover have "rn_status n = NodeUp"
      using 1(2) \<open>es = []\<close>
      by (cases "rn_status n") (auto simp: node_packet_sent_def Let_def split: sum.splits prod.splits)
    ultimately show ?thesis
      using 1(1,3,4) t sn by (auto simp: tracks_def same_network_def link_is_up_def)
  qed
qed

lemma accepted_receive:
  assumes "verify order v = Inr r" and "non_fatal_errors r = []" and "fresh_verifier v"
    and "sv_steps v = before @ step # rest" and "st_kind step = PacketInNode s"
  shows "case flight_after (pin_packet_id s) before of
      None \<Rightarrow> pin_node_id s \<in> sv_host_nodes v
    | Some (sent, l) \<Rightarrow>
        \<exists>md. sv_link_metadata v l = Some md \<and> lm_target_node_id md = pin_node_id s \<and>
          sent + lm_delay md \<le> st_relative_time step \<and>
          (\<forall>d. last_down_after l before = Some d \<longrightarrow> d < sent)"
proof -
  obtain st st' where t: "tracks before (vs_verifier st)" and sn: "same_network v (vs_verifier st)"
    and k: "replay_kind (st_relative_time step) (st_kind step) st = Inr st'"
    and e: "sv_errors (vs_verifier st') = []"
    using assms(1-4) by (rule accepted_cut)
  let ?v = "vs_verifier st"
  have p: "replay_packet_in_node (st_relative_time step) s ?v = Inr (vs_verifier st')"
    using k by (auto simp: assms(5) replay_kind_def on_verifier_def bind_ok_Inr_iff)
  have fl: "flight_after (pin_packet_id s) before =
      map_option (\<lambda>p. (if_sent_at_relative p, if_link_id p)) (sv_in_flight_packets ?v (pin_packet_id s))"
    using t by (simp add: tracks_def)
  show ?thesis
  proof (cases "sv_in_flight_packets ?v (pin_packet_id s)")
    case None
    from packet_in_node_created [OF p None] have "pin_node_id s \<in> sv_host_nodes ?v"
      by (cases rule: with_node_Inr) (use e in \<open>auto split: if_splits\<close>)
    with None fl sn show ?thesis by (simp add: same_network_def)
  next
    case (Some f)
    from p Some show ?thesis
    proof (cases rule: packet_in_node_flight)
      case (1 md k)
      from 1(4) have no: "pin_node_id s = lm_target_node_id md"
        "\<not> st_relative_time step - if_sent_at_relative f < lm_delay md + if_extra_delay f"
        "\<And>d. rl_last_down k = Some d \<Longrightarrow> \<not> if_sent_at_relative f \<le> d"
        by (cases rule: with_node_Inr, use e in \<open>auto split: if_splits option.splits\<close>)+
      have "rl_last_down k = last_down_after (if_link_id f) before" using t 1(2) by (simp add: tracks_def)
      with no 1(1,3) fl Some sn show ?thesis by (force simp: same_network_def)
    qed
  qed
qed

section \<open>The verifier never panics\<close>

text \<open>
  \<open>verify\<close> indexes maps, subtracts times and takes bytes out of buffers with operations that would
  unwind. On a log in time order whose packets have fewer than \<open>2^64\<close> bytes in total none of them
  does, whatever the log says.
\<close>

definition step_bytes :: "simulation_step \<Rightarrow> nat" where
  "step_bytes step =
     (case st_kind step of
        PacketInNode s \<Rightarrow> pin_packet_size_bytes s
      | PacketDuplicated s \<Rightarrow> gpe_packet_size_bytes s
      | _ \<Rightarrow> 0)"

definition node_sane :: "nat \<Rightarrow> replayed_node \<Rightarrow> bool" where
  "node_sane bytes n \<longleftrightarrow>
     finite (dom (rn_packets n)) \<and> rn_buffer_usage n \<le> bytes \<and>
     rn_buffer_usage n = (\<Sum>i \<in> dom (rn_packets n). rp_size_bytes (the (rn_packets n i)))"

lemma node_sane_mono: "node_sane b n \<Longrightarrow> b \<le> b' \<Longrightarrow> node_sane b' n"
  by (simp add: node_sane_def)

lemma node_sane_cong:
  "rn_packets n' = rn_packets n \<Longrightarrow> rn_buffer_usage n' = rn_buffer_usage n \<Longrightarrow>
    node_sane b n' \<longleftrightarrow> node_sane b n"
  by (simp add: node_sane_def)

text \<open>An operation on a node that neither panics nor breaks the account.\<close>

definition node_op_ok :: "nat \<Rightarrow> (non_fatal_error list \<times> (abort + replayed_node)) \<Rightarrow> bool" where
  "node_op_ok b r \<longleftrightarrow> (case snd r of Inl a \<Rightarrow> a \<noteq> Panic | Inr n \<Rightarrow> node_sane b n)"

lemma add_packet_sane:
  assumes "node_sane b n" and "b + k < 2 ^ 64"
  shows "node_op_ok (b + k) (add_packet_to_buffer i k now n)"
proof (cases "rn_packets n i")
  case None
  have "(\<Sum>j \<in> insert i (dom (rn_packets n)).
      rp_size_bytes (the (((rn_packets n)(i \<mapsto> \<lparr>rp_arrived_at = now, rp_size_bytes = k, rp_extra_delay = 0\<rparr>)) j))) =
      k + (\<Sum>j \<in> dom (rn_packets n). rp_size_bytes (the (rn_packets n j)))"
    using assms(1) None
    by (subst sum.insert) (auto simp: node_sane_def dom_def intro!: sum.cong)
  with assms None show ?thesis
    by (simp add: add_packet_to_buffer_def node_op_ok_def node_sane_def wrap_simps)
qed (simp add: add_packet_to_buffer_def node_op_ok_def)

lemma remove_packet_sane:
  assumes "node_sane b n"
  shows "case remove_packet_from_buffer i n of Inl a \<Rightarrow> a \<noteq> Panic | Inr (p, n') \<Rightarrow> node_sane b n'"
proof (cases "rn_packets n i")
  case (Some p)
  let ?f = "\<lambda>j. rp_size_bytes (the (rn_packets n j))"
  have i: "finite (dom (rn_packets n))" "i \<in> dom (rn_packets n)"
    using assms Some by (auto simp: node_sane_def)
  then have s: "sum ?f (dom (rn_packets n)) = rp_size_bytes p + sum ?f (dom (rn_packets n) - {i})"
    using sum.remove [OF i, of ?f] Some by simp
  have "(\<Sum>j \<in> dom (rn_packets n) - {i}. rp_size_bytes (the (((rn_packets n)(i := None)) j))) =
      sum ?f (dom (rn_packets n) - {i})"
    by (rule sum.cong) auto
  with s assms Some show ?thesis
    by (simp add: remove_packet_from_buffer_def node_sane_def)
qed (simp add: remove_packet_from_buffer_def)

lemma node_ops_sane:
  assumes "node_sane b n"
  shows "b + pin_packet_size_bytes s < 2 ^ 64 \<Longrightarrow>
      node_op_ok (b + pin_packet_size_bytes s) (packet_created s now n)"
    and "b + pin_packet_size_bytes s < 2 ^ 64 \<Longrightarrow>
      node_op_ok (b + pin_packet_size_bytes s) (packet_received s now n)"
    and "b + gpe_packet_size_bytes g < 2 ^ 64 \<Longrightarrow>
      node_op_ok (b + gpe_packet_size_bytes g) (packet_duplicated g now n)"
    and "node_op_ok b (packet_delivered_to_app_layer i n)"
    and "node_op_ok b (node_packet_dropped d n)" and "node_op_ok b (packet_ecn g n)"
    and "node_op_ok b (packet_has_extra_delay_event i x n)"
    and "node_sane b (handle_event p now n)"
proof -
  have c: "node_sane b (count_received s n)" using assms by (simp add: node_sane_def)
  show "node_op_ok (b + pin_packet_size_bytes s) (packet_created s now n)"
    if "b + pin_packet_size_bytes s < 2 ^ 64"
    using add_packet_sane [OF assms that] by (simp add: packet_created_def)
  show "node_op_ok (b + pin_packet_size_bytes s) (packet_received s now n)"
    if "b + pin_packet_size_bytes s < 2 ^ 64"
    using add_packet_sane [OF c that] c
    by (auto simp: packet_received_def Let_def node_op_ok_def node_sane_def)
  show "node_op_ok (b + gpe_packet_size_bytes g) (packet_duplicated g now n)"
    if "b + gpe_packet_size_bytes g < 2 ^ 64"
  proof -
    have "node_sane b (n\<lparr>rn_duplicated_packets := track_one (gpe_packet_size_bytes g) (rn_duplicated_packets n)\<rparr>)"
      using assms by (simp add: node_sane_def)
    from add_packet_sane [OF this that] show ?thesis by (simp add: packet_duplicated_def)
  qed
  show "node_op_ok b (packet_delivered_to_app_layer i n)"
    using remove_packet_sane [OF assms, of i]
    by (auto simp: packet_delivered_to_app_layer_def node_op_ok_def split: sum.splits)
  show "node_op_ok b (node_packet_dropped d n)"
    using remove_packet_sane [OF assms, of "pdr_packet_id d"]
    by (auto simp: node_packet_dropped_def node_op_ok_def node_sane_def split: sum.splits)
  show "node_op_ok b (packet_ecn g n)"
    using assms by (simp add: packet_ecn_def node_op_ok_def node_sane_def)
  show "node_op_ok b (packet_has_extra_delay_event i x n)"
  proof (cases "rn_packets n i")
    case (Some p)
    have "(\<Sum>j \<in> insert i (dom (rn_packets n)).
        rp_size_bytes (the (((rn_packets n)(i \<mapsto> p\<lparr>rp_extra_delay := x\<rparr>)) j))) =
        (\<Sum>j \<in> dom (rn_packets n). rp_size_bytes (the (rn_packets n j)))"
      using Some by (intro sum.cong) (auto simp: dom_def)
    with assms Some show ?thesis
      by (simp add: packet_has_extra_delay_event_def node_op_ok_def node_sane_def)
  qed (simp add: packet_has_extra_delay_event_def node_op_ok_def)
  show "node_sane b (handle_event p now n)"
    using assms by (simp add: handle_event_def node_sane_def Let_def split: option.split)
qed

text \<open>The state of the replay at instant \<open>now\<close>, after \<open>bytes\<close> bytes of new packets.\<close>

definition sane :: "duration \<Rightarrow> nat \<Rightarrow> simulation_verifier \<Rightarrow> bool" where
  "sane now bytes v \<longleftrightarrow>
     (\<forall>i f. sv_in_flight_packets v i = Some f \<longrightarrow>
        if_sent_at_relative f \<le> now \<and> if_link_id f \<in> dom (sv_link_metadata v)) \<and>
     (\<forall>i n. sv_nodes v i = Some n \<longrightarrow> node_sane bytes n) \<and>
     dom (sv_nodes v) \<subseteq> dom (sv_node_metadata v)"

definition no_panic :: "('v \<Rightarrow> bool) \<Rightarrow> 'v replay \<Rightarrow> bool" where
  "no_panic P r \<longleftrightarrow> (case r of Inl (es, a) \<Rightarrow> a \<noteq> Panic | Inr v \<Rightarrow> P v)"

lemma no_panic_simps [simp]:
  "no_panic P (Inr v) \<longleftrightarrow> P v" "no_panic P (Inl (es, a)) \<longleftrightarrow> a \<noteq> Panic"
  by (simp_all add: no_panic_def)

lemma no_panic_bind:
  "no_panic P r \<Longrightarrow> (\<And>v. P v \<Longrightarrow> no_panic Q (f v)) \<Longrightarrow> no_panic Q (bind_ok r f)"
  by (cases r) (auto simp: no_panic_def)

lemma sane_mono: "sane t b v \<Longrightarrow> t \<le> t' \<Longrightarrow> b \<le> b' \<Longrightarrow> sane t' b' v"
  unfolding sane_def by (meson node_sane_mono order_trans)

lemma sane_simps [simp]:
  "sane t b (track_errors es v) \<longleftrightarrow> sane t b v"
  "sane t b (v\<lparr>sv_links := k\<rparr>) \<longleftrightarrow> sane t b v"
  "sv_links (track_errors es v) = sv_links v"
  "sv_link_metadata (track_errors es v) = sv_link_metadata v"
  by (simp_all add: sane_def track_errors_def)

lemma sane_remove: "sane t b v \<Longrightarrow> sane t b (v\<lparr>sv_in_flight_packets := (sv_in_flight_packets v)(i := None)\<rparr>)"
  by (auto simp: sane_def)

lemma sane_put_node:
  assumes "sane t b v" and "b \<le> b'" and "sv_nodes v i = Some n" and "node_sane b' n'"
  shows "sane t b' (v\<lparr>sv_nodes := (sv_nodes v)(i \<mapsto> n')\<rparr>)"
proof -
  have "node_sane b' m" if "((sv_nodes v)(i \<mapsto> n')) k = Some m" for k m
  proof (cases "k = i")
    case False
    with that assms(1) have "node_sane b m" by (simp add: sane_def)
    then show ?thesis using assms(2) by (rule node_sane_mono)
  qed (use that assms(4) in simp)
  moreover have "i \<in> dom (sv_node_metadata v)" "dom (sv_nodes v) \<subseteq> dom (sv_node_metadata v)"
    using assms(1,3) by (auto simp: sane_def)
  ultimately show ?thesis
    using assms(1) unfolding sane_def by simp
qed

lemma sane_with_node:
  assumes "sane t b v" and "b \<le> b'" and "\<And>n. node_sane b n \<Longrightarrow> node_op_ok b' (f n)"
  shows "no_panic (sane t b') (with_node i f v)"
proof (cases "sv_nodes v i")
  case (Some n)
  with assms(1) have "node_sane b n" by (simp add: sane_def)
  from assms(3) [OF this] show ?thesis
    using sane_put_node [OF assms(1,2) Some]
    by (auto simp: with_node_def Some node_op_ok_def split: prod.split sum.splits)
qed (simp add: with_node_def)

lemma sane_packet_in_node:
  assumes "sane now b v" and "b + pin_packet_size_bytes s < 2 ^ 64"
  shows "no_panic (sane now (b + pin_packet_size_bytes s)) (replay_packet_in_node now s v)"
proof (cases "sv_in_flight_packets v (pin_packet_id s)")
  case None
  then show ?thesis
    by (simp add: replay_packet_in_node_def)
      (auto intro!: sane_with_node [where b = b] node_ops_sane(1) assms)
next
  case (Some f)
  with assms(1) obtain md where md: "if_sent_at_relative f \<le> now" "sv_link_metadata v (if_link_id f) = Some md"
    by (fastforce simp: sane_def dom_def)
  have "no_panic (sane now (b + pin_packet_size_bytes s))
      (with_node k (packet_received s now)
         (track_errors es (track_errors es' (track_errors es'' (v\<lparr>sv_in_flight_packets := (sv_in_flight_packets v)(pin_packet_id s := None)\<rparr>)))))"
    for es es' es'' k
    by (rule sane_with_node [where b = b])
      (auto intro!: node_ops_sane(2) sane_remove assms)
  with Some md show ?thesis
    by (auto simp: replay_packet_in_node_def Let_def split: option.split)
qed

lemma node_packet_sent_sane:
  assumes "node_sane b n"
  shows "case snd (node_packet_sent i n) of Inl a \<Rightarrow> a \<noteq> Panic | Inr (p, n') \<Rightarrow> node_sane b n'"
  using remove_packet_sane [OF assms, of i]
  by (auto simp: node_packet_sent_def Let_def node_sane_def split: sum.splits prod.splits)

lemma sane_packet_in_transit:
  assumes "sane now b v"
  shows "no_panic (sane now b) (replay_packet_in_transit now s v)"
proof (cases "sv_nodes v (pit_node_id s)")
  case (Some n)
  with assms have n: "node_sane b n" by (simp add: sane_def)
  show ?thesis
  proof (cases "snd (node_packet_sent (pit_packet_id s) n)")
    case (Inl a)
    with node_packet_sent_sane [OF n, of "pit_packet_id s"] Some show ?thesis
      by (cases "node_packet_sent (pit_packet_id s) n") (simp add: replay_packet_in_transit_def)
  next
    case (Inr r)
    then obtain es p n' where sent: "node_packet_sent (pit_packet_id s) n = (es, Inr (p, n'))"
      by (cases "node_packet_sent (pit_packet_id s) n"; cases r) auto
    with node_packet_sent_sane [OF n, of "pit_packet_id s"] have "node_sane b n'" by simp
    then have "sane now b (v\<lparr>sv_nodes := (sv_nodes v)(pit_node_id s \<mapsto> n')\<rparr>)"
      by (rule sane_put_node [OF assms order_refl Some])
    then show ?thesis
      by (auto simp: replay_packet_in_transit_def Some sent Let_def track_errors_def sane_def
          split: option.split prod.split)
  qed
qed (simp add: replay_packet_in_transit_def)

lemma sane_network_event:
  assumes "sane now b v"
  shows "no_panic (sane now b) (replay_network_event now le ne v)"
  unfolding replay_network_event_def
proof (rule no_panic_bind)
  show "no_panic (sane now b)
      (case le of None \<Rightarrow> Inr v
       | Some p \<Rightarrow> case lep_status p of None \<Rightarrow> Inr v
         | Some status \<Rightarrow> case sv_links v (lep_link_id p) of
             None \<Rightarrow> Inl (sv_errors v, Fatal (MissingLink (lep_link_id p)))
           | Some link \<Rightarrow> Inr (v\<lparr>sv_links := (sv_links v)(lep_link_id p \<mapsto> set_status status now link)\<rparr>))"
    using assms by (auto split: option.split)
  show "no_panic (sane now b)
      (case ne of None \<Rightarrow> Inr v1
       | Some p \<Rightarrow> with_node (nep_node_id p) (\<lambda>n. ([], Inr (handle_event p now n))) v1)"
    if "sane now b v1" for v1
    using that
    by (auto simp: node_op_ok_def node_ops_sane(8) split: option.split intro!: sane_with_node [where b = b])
qed

lemma sane_refresh:
  assumes "sane t b v"
  shows "no_panic (sane t b) (refresh_buffer_usage order v)"
proof -
  have "case update_max_buffer_usage order v of Inl a \<Rightarrow> a \<noteq> Panic | Inr (e, v') \<Rightarrow> sane t b v'"
    using assms
  proof (induction order arbitrary: v)
    case (Cons i order)
    show ?case
    proof (cases "sv_nodes v i")
      case (Some n)
      then obtain k where k: "sv_node_metadata v i = Some k" using Cons.prems by (auto simp: sane_def)
      have "node_sane b n" using Cons.prems Some by (simp add: sane_def)
      then have "node_sane b (node_update_max_buffer_usage n)"
        by (simp add: node_sane_def node_update_max_buffer_usage_def)
      then have "sane t b (v\<lparr>sv_nodes := (sv_nodes v)(i \<mapsto> node_update_max_buffer_usage n)\<rparr>)"
        by (rule sane_put_node [OF Cons.prems order_refl Some])
      with Some k Cons.IH show ?thesis by (auto simp: Let_def)
    qed (use Cons in simp)
  qed simp
  then show ?thesis
    by (auto simp: refresh_buffer_usage_def split: sum.splits prod.splits option.splits)
qed

definition sane_state :: "duration \<Rightarrow> nat \<Rightarrow> verify_state \<Rightarrow> bool" where
  "sane_state now bytes st \<longleftrightarrow> sane now bytes (vs_verifier st)"

lemma sane_on_verifier:
  "no_panic (sane t b) (f (vs_verifier st)) \<Longrightarrow> no_panic (sane_state t b) (on_verifier f st)"
  unfolding on_verifier_def by (erule no_panic_bind) (simp add: sane_state_def)

lemma sane_replay_kind:
  assumes "sane_state (st_relative_time step) b st" and "b + step_bytes step < 2 ^ 64"
  shows "no_panic (sane_state (st_relative_time step) (b + step_bytes step))
    (replay_kind (st_relative_time step) (st_kind step) st)"
proof -
  let ?t = "st_relative_time step"
  have v: "sane ?t b (vs_verifier st)" using assms(1) by (simp add: sane_state_def)
  have node: "no_panic (sane_state ?t b') (on_verifier (with_node i f) st)"
    if "b \<le> b'" "\<And>n. node_sane b n \<Longrightarrow> node_op_ok b' (f n)" for i f b'
    by (intro sane_on_verifier sane_with_node [OF v that])
  show ?thesis
  proof (cases "st_kind step")
    case (PacketInNode s)
    then have "no_panic (sane ?t (b + step_bytes step)) (replay_packet_in_node ?t s (vs_verifier st))"
      using sane_packet_in_node [OF v, of s] assms(2) by (simp add: step_bytes_def)
    with PacketInNode show ?thesis by (simp add: replay_kind_def sane_on_verifier)
  next
    case (PacketDuplicated s)
    with assms(2) show ?thesis
      by (auto simp: replay_kind_def step_bytes_def intro!: node node_ops_sane(3))
  next
    case (PacketLostInTransit s)
    with v show ?thesis
      by (auto simp: replay_kind_def step_bytes_def replay_lost_in_transit_def Let_def sane_state_def
          intro: sane_remove split: option.split)
  next
    case (NetworkEvent le ne)
    with v show ?thesis
      by (auto simp: replay_kind_def step_bytes_def intro: sane_on_verifier sane_network_event)
  next
    case (PacketInTransit s)
    with v show ?thesis
      by (auto simp: replay_kind_def step_bytes_def intro: sane_on_verifier sane_packet_in_transit)
  qed (auto simp: replay_kind_def step_bytes_def intro!: node node_ops_sane)
qed

lemma sane_replay_step:
  assumes "sane_state t b st" and "t \<le> st_relative_time step" and "b + step_bytes step < 2 ^ 64"
  shows "no_panic (sane_state (st_relative_time step) (b + step_bytes step)) (replay_step order st step)"
  unfolding replay_step_def
proof (rule no_panic_bind)
  have v: "sane (st_relative_time step) b (vs_verifier st)"
    using assms(1,2) by (auto simp: sane_state_def intro: sane_mono)
  have r: "no_panic (sane_state (st_relative_time step) b) (on_verifier (refresh_buffer_usage order) st)"
    by (rule sane_on_verifier) (rule sane_refresh [OF v])
  show "no_panic (sane_state (st_relative_time step) b)
     (if st_relative_time step \<noteq> vs_last_step_time st
      then bind_ok (on_verifier (refresh_buffer_usage order) st)
            (\<lambda>st1. Inr (st1\<lparr>vs_last_buffer_usage_update := Some (vs_last_step_time st),
                            vs_last_step_time := st_relative_time step\<rparr>))
      else Inr st)"
    using v by (auto intro!: no_panic_bind [OF r] simp: sane_state_def)
qed (rule sane_replay_kind [OF _ assms(3)])

lemma sane_replay:
  assumes "sane_state t b st" and "sorted (t # map st_relative_time steps)"
    and "b + sum_list (map step_bytes steps) < 2 ^ 64"
  shows "no_panic (\<lambda>st'. \<exists>t' b'. sane_state t' b' st') (fold_ok (replay_step order) st steps)"
  using assms
proof (induction steps arbitrary: t b st)
  case (Cons x steps)
  have "no_panic (sane_state (st_relative_time x) (b + step_bytes x)) (replay_step order st x)"
    using Cons.prems by (intro sane_replay_step [of t]) auto
  then show ?case
    unfolding fold_ok.simps
    by (rule no_panic_bind) (rule Cons.IH, assumption, use Cons.prems in auto)
qed auto

lemma sane_fresh:
  assumes "verifier_new steps spec = Inr v"
  shows "sane_state 0 0 (verify_start v)"
  using verifier_new_Inr [OF assms]
  by (fastforce simp: sane_state_def sane_def verify_start_def node_sane_def replayed_node_new_def)

lemma verify_no_panic:
  assumes "verifier_new steps spec = Inr v" and "sum_list (map step_bytes steps) < 2 ^ 64"
  shows "no_panic (\<lambda>r. True) (verify order v)"
  unfolding verify_def
proof (rule no_panic_bind)
  have v: "sv_steps v = sort_key st_relative_time steps"
    using verifier_new_Inr(7) [OF assms(1)] by (simp add: sort_key_id_if_sorted)
  have "sum_list (map step_bytes (sv_steps v)) = sum_list (map step_bytes steps)"
    unfolding v by (metis mset_map mset_sort sum_mset_sum_list)
  then show "no_panic (\<lambda>st. \<exists>t b. sane_state t b st) (fold_ok (replay_step order) (verify_start v) (sv_steps v))"
    using assms(2) v by (intro sane_replay [OF sane_fresh [OF assms(1)]]) simp_all
  fix st
  assume "\<exists>t b. sane_state t b st"
  then obtain t b where "sane t b (vs_verifier st)" by (auto simp: sane_state_def)
  then have "no_panic (sane_state t b) (on_verifier (refresh_buffer_usage order) st)"
    by (intro sane_on_verifier sane_refresh)
  then show "no_panic (\<lambda>r. True)
      (bind_ok (if vs_last_buffer_usage_update st \<noteq> Some (vs_last_step_time st)
                then on_verifier (refresh_buffer_usage order) st else Inr st) (\<lambda>st1. Inr (finish st1)))"
    by (cases "on_verifier (refresh_buffer_usage order) st") (auto simp: no_panic_def)
qed

end
