(* ===== verification/Replay_Book.thy ===== *)
theory Replay_Book
  imports Verifier_Sound
begin

text \<open>
  Logs that replay without a fatal error. The book of a log says for every packet whether it is in a
  node, on a link or gone; a step fits the book when the packet is where the step needs it. The
  tables of the verifier are a refinement of the book, so a log whose steps all fit is replayed to
  its end.
\<close>

section \<open>The book\<close>

datatype spot = In id | Over id

type_synonym book = "uuid \<rightharpoonup> spot"

definition spot_step :: "book \<Rightarrow> simulation_step \<Rightarrow> book" where
  "spot_step b step =
     (case st_kind step of
        PacketInNode s \<Rightarrow>
          b(pin_packet_id s :=
              (case b (pin_packet_id s) of
                 Some (Over l) \<Rightarrow> if pin_dropped_on_arrival s then None else Some (In (pin_node_id s))
               | _ \<Rightarrow> Some (In (pin_node_id s))))
      | PacketDuplicated g \<Rightarrow> b(gpe_packet_id g \<mapsto> In (gpe_node_id g))
      | PacketDropped s \<Rightarrow> b(pdr_packet_id s := None)
      | PacketInTransit s \<Rightarrow> b(pit_packet_id s \<mapsto> Over (pit_link_id s))
      | PacketLostInTransit s \<Rightarrow> b(plt_packet_id s := None)
      | PacketDeliveredToApplication g \<Rightarrow> b(gpe_packet_id g := None)
      | _ \<Rightarrow> b)"

definition step_fits :: "id set \<Rightarrow> id set \<Rightarrow> book \<Rightarrow> simulation_step \<Rightarrow> bool" where
  "step_fits ns ls b step \<longleftrightarrow>
     (case st_kind step of
        PacketInNode s \<Rightarrow> pin_node_id s \<in> ns \<and> (\<forall>n. b (pin_packet_id s) \<noteq> Some (In n))
      | PacketDuplicated g \<Rightarrow> gpe_node_id g \<in> ns \<and> b (gpe_packet_id g) = None
      | PacketDropped s \<Rightarrow> pdr_node_id s \<in> ns \<and> b (pdr_packet_id s) = Some (In (pdr_node_id s))
      | PacketInTransit s \<Rightarrow>
          pit_node_id s \<in> ns \<and> pit_link_id s \<in> ls \<and> b (pit_packet_id s) = Some (In (pit_node_id s))
      | PacketLostInTransit s \<Rightarrow> plt_link_id s \<in> ls \<and> (\<exists>l. b (plt_packet_id s) = Some (Over l))
      | PacketDeliveredToApplication g \<Rightarrow>
          gpe_node_id g \<in> ns \<and> b (gpe_packet_id g) = Some (In (gpe_node_id g))
      | PacketCongestionEvent g \<Rightarrow> gpe_node_id g \<in> ns
      | PacketExtraDelay s \<Rightarrow> ped_node_id s \<in> ns \<and> b (ped_packet_id s) = Some (In (ped_node_id s))
      | NetworkEvent le ne \<Rightarrow>
          (case le of None \<Rightarrow> True | Some p \<Rightarrow> lep_link_id p \<in> ls) \<and>
          (case ne of None \<Rightarrow> True | Some p \<Rightarrow> nep_node_id p \<in> ns))"

definition spots :: "simulation_step list \<Rightarrow> book" where
  "spots trace = foldl spot_step Map.empty trace"

fun fits :: "id set \<Rightarrow> id set \<Rightarrow> book \<Rightarrow> simulation_step list \<Rightarrow> bool" where
  "fits ns ls b [] \<longleftrightarrow> True"
| "fits ns ls b (step # trace) \<longleftrightarrow> step_fits ns ls b step \<and> fits ns ls (spot_step b step) trace"

lemma spots_snoc [simp]: "spots [] = Map.empty" "spots (trace @ [step]) = spot_step (spots trace) step"
  by (simp_all add: spots_def)

lemma fits_snoc:
  "fits ns ls b (trace @ [step]) \<longleftrightarrow> fits ns ls b trace \<and> step_fits ns ls (foldl spot_step b trace) step"
  by (induction trace arbitrary: b) auto

section \<open>The tables of the verifier refine the book\<close>

definition stores :: "book \<Rightarrow> id \<Rightarrow> replayed_node \<Rightarrow> bool" where
  "stores b i n \<longleftrightarrow> (\<forall>x. rn_packets n x \<noteq> None \<longleftrightarrow> b x = Some (In i))"

definition tables_match :: "id set \<Rightarrow> id set \<Rightarrow> book \<Rightarrow> simulation_verifier \<Rightarrow> bool" where
  "tables_match ns ls b v \<longleftrightarrow>
     dom (sv_nodes v) = ns \<and> dom (sv_links v) = ls \<and> dom (sv_link_metadata v) = ls \<and>
     (\<forall>i n. sv_nodes v i = Some n \<longrightarrow> stores b i n)"

definition flights_match :: "book \<Rightarrow> simulation_verifier \<Rightarrow> bool" where
  "flights_match b v \<longleftrightarrow>
     (\<forall>x. map_option if_link_id (sv_in_flight_packets v x) =
        (case b x of Some (Over l) \<Rightarrow> Some l | _ \<Rightarrow> None))"

definition replays_book :: "id set \<Rightarrow> id set \<Rightarrow> book \<Rightarrow> verify_state \<Rightarrow> bool" where
  "replays_book ns ls b st \<longleftrightarrow>
     tables_match ns ls b (vs_verifier st) \<and> flights_match b (vs_verifier st) \<and>
     dom (vs_stats_by_link st) \<subseteq> ls"

definition no_fatal :: "('v \<Rightarrow> bool) \<Rightarrow> 'v replay \<Rightarrow> bool" where
  "no_fatal P r \<longleftrightarrow> (case r of Inl (es, a) \<Rightarrow> a = Panic | Inr v \<Rightarrow> P v)"

lemma replays_book_stats: "replays_book ns ls b st \<Longrightarrow> dom (vs_stats_by_link st) \<subseteq> ls"
  by (simp add: replays_book_def)

lemma no_fatal_simps [simp]:
  "no_fatal P (Inr v) \<longleftrightarrow> P v" "no_fatal P (Inl (es, a)) \<longleftrightarrow> a = Panic"
  by (simp_all add: no_fatal_def)

lemma no_fatal_bind:
  "no_fatal P r \<Longrightarrow> (\<And>v. P v \<Longrightarrow> no_fatal Q (f v)) \<Longrightarrow> no_fatal Q (bind_ok r f)"
  by (cases r) (auto simp: no_fatal_def)

lemma flights_match_frame [simp]:
  "flights_match b (track_errors es v) = flights_match b v"
  "flights_match b (v\<lparr>sv_nodes := m\<rparr>) = flights_match b v"
  "flights_match b (v\<lparr>sv_links := k\<rparr>) = flights_match b v"
  "flights_match b (v\<lparr>sv_errors := es\<rparr>) = flights_match b v"
  by (simp_all add: flights_match_def track_errors_def)

lemma tables_match_frame [simp]:
  "tables_match ns ls b (track_errors es v) = tables_match ns ls b v"
  "tables_match ns ls b (v\<lparr>sv_in_flight_packets := f\<rparr>) = tables_match ns ls b v"
  "tables_match ns ls b (v\<lparr>sv_errors := es\<rparr>) = tables_match ns ls b v"
  by (simp_all add: tables_match_def track_errors_def)

lemma tables_match_put_link:
  "tables_match ns ls b v \<Longrightarrow> l \<in> ls \<Longrightarrow> tables_match ns ls b (v\<lparr>sv_links := (sv_links v)(l \<mapsto> k)\<rparr>)"
  by (auto simp: tables_match_def)

text \<open>An operation on one node that turns the book into \<open>b'\<close>.\<close>

definition node_fits :: "book \<Rightarrow> id \<Rightarrow> non_fatal_error list \<times> (abort + replayed_node) \<Rightarrow> bool" where
  "node_fits b i r \<longleftrightarrow> (case snd r of Inl a \<Rightarrow> a = Panic | Inr n \<Rightarrow> stores b i n)"

definition only_at :: "id \<Rightarrow> book \<Rightarrow> book \<Rightarrow> bool" where
  "only_at i b b' \<longleftrightarrow> (\<forall>x j. j \<noteq> i \<longrightarrow> (b' x = Some (In j) \<longleftrightarrow> b x = Some (In j)))"

lemma tables_match_put_node:
  assumes "tables_match ns ls b v" and "i \<in> ns" and "stores b' i n" and "only_at i b b'"
  shows "tables_match ns ls b' (v\<lparr>sv_nodes := (sv_nodes v)(i \<mapsto> n)\<rparr>)"
  using assms by (auto simp: tables_match_def stores_def only_at_def)

lemma with_node_fits:
  assumes "tables_match ns ls b v" and "i \<in> ns" and "\<And>n. stores b i n \<Longrightarrow> node_fits b' i (f n)"
    and "only_at i b b'"
  shows "no_fatal (\<lambda>v'. tables_match ns ls b' v' \<and> sv_in_flight_packets v' = sv_in_flight_packets v)
    (with_node i f v)"
proof -
  obtain n where n: "sv_nodes v i = Some n" using assms(1,2) by (auto simp: tables_match_def)
  then have "node_fits b' i (f n)" using assms(1,3) by (simp add: tables_match_def)
  then show ?thesis
    using tables_match_put_node [OF assms(1,2) _ assms(4)]
    by (auto simp: with_node_def n node_fits_def track_errors_def split: prod.split sum.splits)
qed

lemma add_packet_fits:
  assumes "stores b i n" and "b x \<noteq> Some (In i)"
  shows "node_fits (b(x \<mapsto> In i)) i (add_packet_to_buffer x k now n)"
  using assms by (auto simp: add_packet_to_buffer_def node_fits_def stores_def)

lemma remove_packet_fits:
  assumes "stores b i n" and "b x = Some (In i)" and "v \<noteq> Some (In i)"
  shows "case remove_packet_from_buffer x n of Inl a \<Rightarrow> a = Panic | Inr (p, n') \<Rightarrow> stores (b(x := v)) i n'"
  using assms by (auto simp: remove_packet_from_buffer_def stores_def split: option.split)

lemma stores_frame [simp]:
  "stores b i (count_received s n) = stores b i n" "stores b i (count_dropped r k n) = stores b i n"
  "stores b i (n\<lparr>rn_duplicated_packets := d\<rparr>) = stores b i n"
  "stores b i (n\<lparr>rn_dropped_packets_down := d\<rparr>) = stores b i n"
  "stores b i (n\<lparr>rn_sent_packets := d\<rparr>) = stores b i n" "stores b i (n\<lparr>rn_ecn_packets := d\<rparr>) = stores b i n"
  by (simp_all add: stores_def)

lemma handle_event_stores [simp]: "stores b i (handle_event p now n) = stores b i n"
  by (simp add: stores_def handle_event_def Let_def split: option.split)

lemma only_at_simps [simp]:
  "only_at i b b" "only_at i b (b(x \<mapsto> In i)) \<longleftrightarrow> (\<forall>j. b x = Some (In j) \<longrightarrow> j = i)"
  "only_at i b (b(x := None)) \<longleftrightarrow> (\<forall>j. b x = Some (In j) \<longrightarrow> j = i)"
  "only_at i b (b(x \<mapsto> Over l)) \<longleftrightarrow> (\<forall>j. b x = Some (In j) \<longrightarrow> j = i)"
  by (auto simp: only_at_def)

section \<open>Each kind of step\<close>

text \<open>A step that touches one node and no flight.\<close>

lemma node_step_fits:
  assumes "replays_book ns ls b st" and "i \<in> ns" and "\<And>n. stores b i n \<Longrightarrow> node_fits b' i (f n)"
    and "only_at i b b'" and "\<And>v. flights_match b v \<Longrightarrow> flights_match b' v"
  shows "no_fatal (replays_book ns ls b') (on_verifier (with_node i f) st)"
  unfolding on_verifier_def
proof (rule no_fatal_bind)
  show "no_fatal (\<lambda>v'. tables_match ns ls b' v' \<and>
      sv_in_flight_packets v' = sv_in_flight_packets (vs_verifier st)) (with_node i f (vs_verifier st))"
    using assms(1) by (intro with_node_fits [OF _ assms(2-4)]) (simp add: replays_book_def)
  fix v
  assume v: "tables_match ns ls b' v \<and> sv_in_flight_packets v = sv_in_flight_packets (vs_verifier st)"
  have "flights_match b' (vs_verifier st)" using assms(1,5) by (simp add: replays_book_def)
  with v replays_book_stats [OF assms(1)] show "no_fatal (replays_book ns ls b') (Inr (st\<lparr>vs_verifier := v\<rparr>))"
    by (simp add: replays_book_def flights_match_def)
qed

lemma flights_match_other:
  "flights_match b v \<Longrightarrow> (\<And>l. b x \<noteq> Some (Over l)) \<Longrightarrow> (\<And>l. w \<noteq> Some (Over l)) \<Longrightarrow>
   flights_match (b(x := w)) v"
  by (auto simp: flights_match_def split: option.splits spot.splits)

lemma flights_match_None:
  "flights_match b v \<Longrightarrow> sv_in_flight_packets v x = None \<longleftrightarrow> (\<forall>l. b x \<noteq> Some (Over l))"
  unfolding flights_match_def
  by (drule spec [of _ x]) (cases "sv_in_flight_packets v x"; cases "b x"; auto split: spot.splits)

lemma track_errors_twice: "track_errors es (track_errors es' v) = track_errors (es' @ es) v"
  by (simp add: track_errors_def)

lemma packet_in_node_fits:
  assumes "replays_book ns ls b st" and "step_fits ns ls b step" and "st_kind step = PacketInNode s"
  shows "no_fatal (replays_book ns ls (spot_step b step)) (on_verifier (replay_packet_in_node now s) st)"
proof -
  let ?x = "pin_packet_id s" and ?i = "pin_node_id s" and ?v = "vs_verifier st"
  have i: "?i \<in> ns" and x: "b ?x \<noteq> Some (In n)" for n
    using assms(2,3) by (simp_all add: step_fits_def)
  have t: "tables_match ns ls b ?v" and f: "flights_match b ?v" using assms(1) by (simp_all add: replays_book_def)
  show ?thesis
  proof (cases "sv_in_flight_packets ?v ?x")
    case None
    then have none: "b ?x = None"
      using flights_match_None [OF f] x by (metis not_Some_eq spot.exhaust)
    then have b': "spot_step b step = b(?x \<mapsto> In ?i)" using assms(3) by (simp add: spot_step_def)
    have "replays_book ns ls b (st\<lparr>vs_verifier := track_errors es ?v\<rparr>)" for es
      using t f replays_book_stats [OF assms(1)] by (simp add: replays_book_def)
    from node_step_fits [OF this i, of "spot_step b step" "packet_created s now"]
    show ?thesis
      using None none add_packet_fits [of b ?i _ ?x]
      by (simp add: replay_packet_in_node_def on_verifier_def packet_created_def b' flights_match_other)
  next
    case (Some fl)
    then obtain l where l: "b ?x = Some (Over l)"
      using flights_match_None [OF f, of ?x] by auto
    let ?w = "if pin_dropped_on_arrival s then None else Some (In ?i)"
    have b': "spot_step b step = b(?x := ?w)" using assms(3) l by (simp add: spot_step_def)
    have landed: "flights_match (b(?x := ?w)) (?v\<lparr>sv_in_flight_packets := (sv_in_flight_packets ?v)(?x := None)\<rparr>)"
      using f by (simp add: flights_match_def)
    have node: "node_fits (b(?x := ?w)) ?i (packet_received s now n)" if "stores b ?i n" for n
    proof (cases "pin_dropped_on_arrival s")
      case True
      have "stores (b(?x := None)) ?i n" using that l by (auto simp: stores_def)
      with True show ?thesis by (simp add: packet_received_def node_fits_def Let_def)
    next
      case False
      with that l show ?thesis
        by (simp add: packet_received_def Let_def add_packet_fits)
    qed
    have r: "no_fatal (\<lambda>v'. tables_match ns ls (b(?x := ?w)) v' \<and>
          sv_in_flight_packets v' = (sv_in_flight_packets ?v)(?x := None))
        (with_node ?i (packet_received s now)
          (track_errors es (?v\<lparr>sv_in_flight_packets := (sv_in_flight_packets ?v)(?x := None)\<rparr>)))" for es
    proof -
      let ?u = "track_errors es (?v\<lparr>sv_in_flight_packets := (sv_in_flight_packets ?v)(?x := None)\<rparr>)"
      have u: "tables_match ns ls b ?u" "only_at ?i b (b(?x := ?w))"
        "sv_in_flight_packets ?u = (sv_in_flight_packets ?v)(?x := None)"
        using t l by (simp_all add: track_errors_def)
      show ?thesis using with_node_fits [OF u(1) i node u(2)] unfolding u(3) .
    qed
    have m: "sv_link_metadata ?v (if_link_id fl) = None \<longleftrightarrow> sv_links ?v (if_link_id fl) = None"
      using t unfolding tables_match_def by (metis domIff)
    have "no_fatal (\<lambda>v'. tables_match ns ls (b(?x := ?w)) v' \<and>
          sv_in_flight_packets v' = (sv_in_flight_packets ?v)(?x := None)) (replay_packet_in_node now s ?v)"
      using Some m r
      by (auto simp: replay_packet_in_node_def Let_def track_errors_twice split: option.split simp del: if_split)
    then show ?thesis
      unfolding on_verifier_def b'
      by (rule no_fatal_bind) (use landed replays_book_stats [OF assms(1)] in \<open>auto simp: replays_book_def flights_match_def\<close>)
  qed
qed

lemma packet_sent_fits:
  assumes "stores b i n" and "b x = Some (In i)"
  shows "case snd (node_packet_sent x n) of Inl a \<Rightarrow> a = Panic | Inr (p, n') \<Rightarrow> stores (b(x \<mapsto> Over l)) i n'"
  using remove_packet_fits [OF assms, of "Some (Over l)"]
  by (auto simp: node_packet_sent_def Let_def split: sum.splits)

lemma packet_in_transit_fits:
  assumes "replays_book ns ls b st" and "step_fits ns ls b step" and "st_kind step = PacketInTransit s"
  shows "no_fatal (replays_book ns ls (spot_step b step)) (on_verifier (replay_packet_in_transit now s) st)"
proof -
  let ?x = "pit_packet_id s" and ?i = "pit_node_id s" and ?l = "pit_link_id s" and ?v = "vs_verifier st"
  have s: "?i \<in> ns" "?l \<in> ls" "b ?x = Some (In ?i)" using assms(2,3) by (simp_all add: step_fits_def)
  have b': "spot_step b step = b(?x \<mapsto> Over ?l)" using assms(3) by (simp add: spot_step_def)
  have t: "tables_match ns ls b ?v" and f: "flights_match b ?v" using assms(1) by (simp_all add: replays_book_def)
  obtain n md k where n: "sv_nodes ?v ?i = Some n" and md: "sv_link_metadata ?v ?l = Some md"
    and k: "sv_links ?v ?l = Some k" using t s(1,2) unfolding tables_match_def by blast
  have "stores b ?i n" using t n by (simp add: tables_match_def)
  note sent = packet_sent_fits [OF this s(3), of ?l]
  show ?thesis
  proof (cases "snd (node_packet_sent ?x n)")
    case (Inl a)
    with sent show ?thesis
      by (cases "node_packet_sent ?x n") (simp add: on_verifier_def replay_packet_in_transit_def n)
  next
    case (Inr r)
    obtain p n' where r: "r = (p, n')" by (cases r)
    with Inr sent have n': "stores (b(?x \<mapsto> Over ?l)) ?i n'" by simp
    obtain used k' where k': "link_packet_sent now (rp_size_bytes p) (lm_bandwidth_bps md) k = (used, k')"
      by (cases "link_packet_sent now (rp_size_bytes p) (lm_bandwidth_bps md) k")
    have "only_at ?i b (b(?x \<mapsto> Over ?l))" using s(3) by simp
    from tables_match_put_node [OF t s(1) n' this]
    have "tables_match ns ls (b(?x \<mapsto> Over ?l)) (?v\<lparr>sv_nodes := (sv_nodes ?v)(?i \<mapsto> n'),
        sv_links := (sv_links ?v)(?l \<mapsto> k')\<rparr>)"
      using tables_match_put_link [OF _ s(2)] by fastforce
    moreover have "flights_match (b(?x \<mapsto> Over ?l)) (?v\<lparr>sv_in_flight_packets :=
        (sv_in_flight_packets ?v)(?x \<mapsto> fl)\<rparr>)" if "if_link_id fl = ?l" for fl
      using f that by (simp add: flights_match_def)
    ultimately show ?thesis
      using Inr r replays_book_stats [OF assms(1)] by (cases "node_packet_sent ?x n")
        (simp add: on_verifier_def replay_packet_in_transit_def n md k k' Let_def track_errors_def
          b' replays_book_def tables_match_def flights_match_def)
  qed
qed

lemma network_event_fits:
  assumes "replays_book ns ls b st" and "step_fits ns ls b step" and "st_kind step = NetworkEvent le ne"
  shows "no_fatal (replays_book ns ls b) (on_verifier (replay_network_event now le ne) st)"
proof -
  have le: "lep_link_id p \<in> ls" if "le = Some p" for p using assms(2,3) that by (simp add: step_fits_def)
  have ne: "nep_node_id p \<in> ns" if "ne = Some p" for p using assms(2,3) that by (simp add: step_fits_def)
  let ?P = "\<lambda>v. tables_match ns ls b v \<and> flights_match b v"
  have v: "?P (vs_verifier st)" using assms(1) by (simp add: replays_book_def)
  have link: "no_fatal ?P
      (case le of None \<Rightarrow> Inr v
       | Some p \<Rightarrow> case lep_status p of None \<Rightarrow> Inr v
         | Some status \<Rightarrow> case sv_links v (lep_link_id p) of
             None \<Rightarrow> Inl (sv_errors v, Fatal (MissingLink (lep_link_id p)))
           | Some link \<Rightarrow> Inr (v\<lparr>sv_links := (sv_links v)(lep_link_id p \<mapsto> set_status status now link)\<rparr>))"
    if "?P v" for v
    using that le by (auto split: option.split intro: tables_match_put_link) (auto simp: tables_match_def)
  have node: "no_fatal ?P (case ne of None \<Rightarrow> Inr v
       | Some p \<Rightarrow> with_node (nep_node_id p) (\<lambda>n. ([], Inr (handle_event p now n))) v)"
    if "?P v" for v
  proof (cases ne)
    case (Some p)
    have "no_fatal (\<lambda>v'. tables_match ns ls b v' \<and> sv_in_flight_packets v' = sv_in_flight_packets v)
        (with_node (nep_node_id p) (\<lambda>n. ([], Inr (handle_event p now n))) v)"
      using that ne [OF Some] by (intro with_node_fits [where b = b]) (simp_all add: node_fits_def)
    then show ?thesis using that Some by (auto simp: no_fatal_def flights_match_def split: sum.splits)
  qed (use that in simp)
  have "no_fatal ?P (replay_network_event now le ne (vs_verifier st))"
    unfolding replay_network_event_def by (rule no_fatal_bind [OF link [OF v] node])
  then show ?thesis unfolding on_verifier_def
    by (rule no_fatal_bind) (use replays_book_stats [OF assms(1)] in \<open>simp add: replays_book_def\<close>)
qed

lemma delivered_fits:
  "stores b i n \<Longrightarrow> b x = Some (In i) \<Longrightarrow> node_fits (b(x := None)) i (packet_delivered_to_app_layer x n)"
  using remove_packet_fits [of b i n x None]
  by (auto simp: packet_delivered_to_app_layer_def node_fits_def split: sum.splits)

lemma dropped_fits:
  "stores b i n \<Longrightarrow> b (pdr_packet_id s) = Some (In i) \<Longrightarrow>
   node_fits (b(pdr_packet_id s := None)) i (node_packet_dropped s n)"
  using remove_packet_fits [of b i n "pdr_packet_id s" None]
  by (auto simp: node_packet_dropped_def node_fits_def split: sum.splits)

lemma extra_delay_fits:
  "stores b i n \<Longrightarrow> b x = Some (In i) \<Longrightarrow> node_fits b i (packet_has_extra_delay_event x d n)"
  by (auto simp: packet_has_extra_delay_event_def node_fits_def stores_def split: option.split)

lemma replay_kind_fits:
  assumes "replays_book ns ls b st" and "step_fits ns ls b step"
  shows "no_fatal (replays_book ns ls (spot_step b step)) (replay_kind now (st_kind step) st)"
proof (cases "st_kind step")
  case (PacketInNode s)
  with packet_in_node_fits [OF assms PacketInNode] show ?thesis by (simp add: replay_kind_def)
next
  case (PacketInTransit s)
  with packet_in_transit_fits [OF assms PacketInTransit] show ?thesis by (simp add: replay_kind_def)
next
  case (NetworkEvent le ne)
  with network_event_fits [OF assms NetworkEvent] show ?thesis
    by (simp add: replay_kind_def spot_step_def)
next
  case (PacketLostInTransit s)
  obtain l where l: "b (plt_packet_id s) = Some (Over l)" "plt_link_id s \<in> ls"
    using assms(2) PacketLostInTransit by (auto simp: step_fits_def)
  have t: "tables_match ns ls b (vs_verifier st)" and f: "flights_match b (vs_verifier st)"
    using assms(1) by (simp_all add: replays_book_def)
  obtain fl where fl: "sv_in_flight_packets (vs_verifier st) (plt_packet_id s) = Some fl"
    using flights_match_None [OF f, of "plt_packet_id s"] l by auto
  have "tables_match ns ls (b(plt_packet_id s := None)) (vs_verifier st)"
    using t l by (auto simp: tables_match_def stores_def)
  moreover have "flights_match (b(plt_packet_id s := None))
      (vs_verifier st\<lparr>sv_in_flight_packets := (sv_in_flight_packets (vs_verifier st))(plt_packet_id s := None)\<rparr>)"
    using f by (simp add: flights_match_def)
  ultimately show ?thesis
    using PacketLostInTransit fl l(2) replays_book_stats [OF assms(1)]
    by (simp add: replay_kind_def replay_lost_in_transit_def spot_step_def replays_book_def Let_def)
next
  case (PacketDuplicated g)
  let ?b = "b(gpe_packet_id g \<mapsto> In (gpe_node_id g))"
  have g: "gpe_node_id g \<in> ns" "b (gpe_packet_id g) = None"
    using assms(2) PacketDuplicated by (simp_all add: step_fits_def)
  have "node_fits ?b (gpe_node_id g) (packet_duplicated g now n)" if "stores b (gpe_node_id g) n" for n
    using that g by (simp add: packet_duplicated_def add_packet_fits)
  from node_step_fits [OF assms(1) g(1) this] g(2)
  have "no_fatal (replays_book ns ls ?b) (on_verifier (with_node (gpe_node_id g) (packet_duplicated g now)) st)"
    by (simp add: flights_match_other)
  with PacketDuplicated show ?thesis by (simp add: replay_kind_def spot_step_def)
next
  case (PacketDropped s)
  have g: "pdr_node_id s \<in> ns" "b (pdr_packet_id s) = Some (In (pdr_node_id s))"
    using assms(2) PacketDropped by (simp_all add: step_fits_def)
  have "node_fits (b(pdr_packet_id s := None)) (pdr_node_id s) (node_packet_dropped s n)"
    if "stores b (pdr_node_id s) n" for n
    using that g(2) by (rule dropped_fits)
  from node_step_fits [OF assms(1) g(1) this] g(2)
  have "no_fatal (replays_book ns ls (b(pdr_packet_id s := None)))
      (on_verifier (with_node (pdr_node_id s) (node_packet_dropped s)) st)"
    by (simp add: flights_match_other)
  with PacketDropped show ?thesis by (simp add: replay_kind_def spot_step_def)
next
  case (PacketDeliveredToApplication g)
  have g: "gpe_node_id g \<in> ns" "b (gpe_packet_id g) = Some (In (gpe_node_id g))"
    using assms(2) PacketDeliveredToApplication by (simp_all add: step_fits_def)
  have "node_fits (b(gpe_packet_id g := None)) (gpe_node_id g)
      (packet_delivered_to_app_layer (gpe_packet_id g) n)" if "stores b (gpe_node_id g) n" for n
    using that g(2) by (rule delivered_fits)
  from node_step_fits [OF assms(1) g(1) this] g(2)
  have "no_fatal (replays_book ns ls (b(gpe_packet_id g := None)))
      (on_verifier (with_node (gpe_node_id g) (packet_delivered_to_app_layer (gpe_packet_id g))) st)"
    by (simp add: flights_match_other)
  with PacketDeliveredToApplication show ?thesis by (simp add: replay_kind_def spot_step_def)
next
  case (PacketExtraDelay s)
  have g: "ped_node_id s \<in> ns" "b (ped_packet_id s) = Some (In (ped_node_id s))"
    using assms(2) PacketExtraDelay by (simp_all add: step_fits_def)
  have "node_fits b (ped_node_id s) (packet_has_extra_delay_event (ped_packet_id s) (ped_extra_delay s) n)"
    if "stores b (ped_node_id s) n" for n
    using that g(2) by (rule extra_delay_fits)
  from node_step_fits [OF assms(1) g(1) this]
  have "no_fatal (replays_book ns ls b) (on_verifier (with_node (ped_node_id s)
      (packet_has_extra_delay_event (ped_packet_id s) (ped_extra_delay s))) st)"
    by simp
  with PacketExtraDelay show ?thesis by (simp add: replay_kind_def spot_step_def)
next
  case (PacketCongestionEvent g)
  have g: "gpe_node_id g \<in> ns" using assms(2) PacketCongestionEvent by (simp add: step_fits_def)
  have "node_fits b (gpe_node_id g) (packet_ecn g n)" if "stores b (gpe_node_id g) n" for n
    using that by (simp add: node_fits_def packet_ecn_def)
  from node_step_fits [OF assms(1) g this]
  have "no_fatal (replays_book ns ls b) (on_verifier (with_node (gpe_node_id g) (packet_ecn g)) st)" by simp
  with PacketCongestionEvent show ?thesis by (simp add: replay_kind_def spot_step_def)
qed

section \<open>The whole replay\<close>

lemma refresh_fits:
  assumes "tables_match ns ls b v" and "flights_match b v"
  shows "no_fatal (\<lambda>v'. tables_match ns ls b v' \<and> flights_match b v') (refresh_buffer_usage order v)"
proof -
  have "case update_max_buffer_usage order v of Inl a \<Rightarrow> a = Panic
      | Inr (e, v') \<Rightarrow> tables_match ns ls b v' \<and> flights_match b v'"
    using assms
  proof (induction order arbitrary: v)
    case (Cons i order)
    show ?case
    proof (cases "sv_nodes v i")
      case (Some n)
      then have n: "stores b i n" "i \<in> ns" using Cons.prems(1) by (auto simp: tables_match_def)
      then have "stores b i (node_update_max_buffer_usage n)"
        by (simp add: stores_def node_update_max_buffer_usage_def)
      from tables_match_put_node [OF Cons.prems(1) n(2) this] Cons.prems(2) Cons.IH Some show ?thesis
        by (auto simp: Let_def split: option.split)
    qed (use Cons in simp)
  qed simp
  then show ?thesis
    by (auto simp: refresh_buffer_usage_def split: sum.splits prod.splits option.splits)
qed

lemma on_verifier_refresh_fits:
  "replays_book ns ls b st \<Longrightarrow> no_fatal (replays_book ns ls b) (on_verifier (refresh_buffer_usage order) st)"
  unfolding on_verifier_def
  by (rule no_fatal_bind [OF refresh_fits]) (auto simp: replays_book_def)

lemma replay_step_fits:
  assumes "replays_book ns ls b st" and "step_fits ns ls b step"
  shows "no_fatal (replays_book ns ls (spot_step b step)) (replay_step order st step)"
  unfolding replay_step_def
proof (rule no_fatal_bind)
  show "no_fatal (replays_book ns ls b)
     (if st_relative_time step \<noteq> vs_last_step_time st
      then bind_ok (on_verifier (refresh_buffer_usage order) st)
            (\<lambda>st1. Inr (st1\<lparr>vs_last_buffer_usage_update := Some (vs_last_step_time st),
                            vs_last_step_time := st_relative_time step\<rparr>))
      else Inr st)"
    using assms(1) by (auto intro!: no_fatal_bind [OF on_verifier_refresh_fits [OF assms(1)]]
        simp: replays_book_def)
qed (rule replay_kind_fits [OF _ assms(2)])

lemma replay_fits:
  assumes "replays_book ns ls b st" and "fits ns ls b trace"
  shows "no_fatal (replays_book ns ls (foldl spot_step b trace)) (fold_ok (replay_step order) st trace)"
  using assms
proof (induction trace arbitrary: b st)
  case (Cons x trace)
  have "no_fatal (replays_book ns ls (spot_step b x)) (replay_step order st x)"
    using Cons.prems by (intro replay_step_fits) auto
  then show ?case
    unfolding fold_ok.simps foldl.simps
    by (rule no_fatal_bind) (rule Cons.IH, assumption, use Cons.prems in auto)
qed simp

lemma finish_fits:
  "replays_book ns ls b st \<Longrightarrow> dom (stats_by_node (finish st)) = ns \<and> dom (stats_by_link (finish st)) = ls"
  by (auto simp: replays_book_def tables_match_def finish_def Let_def dom_def split: option.splits)

lemma verify_fits:
  assumes "verifier_new steps spec = Inr v" and "fits (dom (sv_nodes v)) (dom (sv_links v)) Map.empty (sv_steps v)"
  shows "no_fatal (\<lambda>r. dom (stats_by_node r) = dom (sv_nodes v) \<and> dom (stats_by_link r) = dom (sv_links v))
    (verify order v)"
  unfolding verify_def
proof (rule no_fatal_bind)
  let ?book = "replays_book (dom (sv_nodes v)) (dom (sv_links v))"
  let ?final = "foldl spot_step Map.empty (sv_steps v)"
  note new = verifier_new_Inr [OF assms(1)]
  have "?book Map.empty (verify_start v)"
    using new(1) by (fastforce simp: replays_book_def verify_start_def tables_match_def flights_match_def
        stores_def replayed_node_new_def new(4,5))
  from replay_fits [OF this assms(2)]
  show "no_fatal (?book ?final) (fold_ok (replay_step order) (verify_start v) (sv_steps v))" .
  fix st
  assume st: "?book ?final st"
  have "no_fatal (?book ?final) (if vs_last_buffer_usage_update st \<noteq> Some (vs_last_step_time st)
      then on_verifier (refresh_buffer_usage order) st else Inr st)"
    using st on_verifier_refresh_fits [OF st] by simp
  then show "no_fatal (\<lambda>r. dom (stats_by_node r) = dom (sv_nodes v) \<and> dom (stats_by_link r) = dom (sv_links v))
      (bind_ok (if vs_last_buffer_usage_update st \<noteq> Some (vs_last_step_time st)
                then on_verifier (refresh_buffer_usage order) st else Inr st) (\<lambda>st1. Inr (finish st1)))"
    by (rule no_fatal_bind) (simp add: finish_fits)
qed

end
