(* ===== verification/Routing.thy ===== *)
theory Routing
  imports Network_Inv
begin

text \<open>
  Routing, \<^verbatim>\<open>walk_links\<close> and \<^verbatim>\<open>has_route_to\<close> of \<^verbatim>\<open>network/mod.rs\<close>: the two walks of the code are
  one list of candidate links, the direct links first and then those of the routes, cheapest first.
  In a network built from a specification every address of a node has a route table, so no walk
  panics on a missing key.
\<close>

section \<open>The two walks\<close>

text \<open>The links a packet for \<open>dest\<close> may leave node \<open>n\<close> by, in order of preference.\<close>

definition route_table :: "'r network \<Rightarrow> ip_addr \<Rightarrow> route list" where
  "route_table nw a = (case nw_routes_by_addr nw a of None \<Rightarrow> [] | Some rs \<Rightarrow> rs)"

definition preferred_links :: "'r network \<Rightarrow> node \<Rightarrow> ip_addr \<Rightarrow> nat list" where
  "preferred_links nw n dest =
     direct_links nw n dest @
     concat (map (\<lambda>a. candidate_links nw a (route_table nw a) dest) (nd_addresses n))"

definition has_route_tables :: "'r network \<Rightarrow> node \<Rightarrow> bool" where
  "has_route_tables nw n \<longleftrightarrow> (\<forall>a \<in> set (nd_addresses n). nw_routes_by_addr nw a \<noteq> None)"

lemma walk_collects: "walk (\<lambda>ls l. (ls @ [l], None)) acc ls = (acc @ ls, None)"
  by (induction ls arbitrary: acc) simp_all

lemma walk_stops:
  "walk (\<lambda>_ _. ((), Some True)) u ls = ((), if ls = [] then None else Some True)"
  by (cases ls) simp_all

lemma walk_routes_collects:
  "\<forall>a \<in> set addrs. nw_routes_by_addr nw a \<noteq> None \<Longrightarrow>
    walk_routes nw dest (\<lambda>ls l. (ls @ [l], None)) acc addrs =
      Inr (acc @ concat (map (\<lambda>a. candidate_links nw a (route_table nw a) dest) addrs), None)"
  by (induction addrs arbitrary: acc) (auto simp: walk_collects route_table_def)

lemma walk_routes_stops:
  "\<forall>a \<in> set addrs. nw_routes_by_addr nw a \<noteq> None \<Longrightarrow>
    walk_routes nw dest (\<lambda>_ _. ((), Some True)) u addrs =
      Inr ((), if concat (map (\<lambda>a. candidate_links nw a (route_table nw a) dest) addrs) = [] then None
               else Some True)"
  by (induction addrs arbitrary: u) (auto simp: walk_stops route_table_def)

lemma links_towards_preferred:
  assumes "has_route_tables nw n"
  shows "links_towards nw n dest = Inr (preferred_links nw n dest)"
  using assms
  by (simp add: links_towards_def walk_links_def walk_collects walk_routes_collects has_route_tables_def
      preferred_links_def)

lemma has_route_to_preferred:
  assumes "has_route_tables nw n"
  shows "has_route_to nw n dest = Inr (preferred_links nw n dest \<noteq> [])"
  using assms
  by (auto simp: has_route_to_def walk_links_def walk_stops walk_routes_stops has_route_tables_def
      preferred_links_def)

section \<open>Route tables\<close>

lemma fold_route_tables:
  "fold (\<lambda>a m. m(as_ip_addr a \<mapsto> rs)) as m a =
     (if a \<in> as_ip_addr ` set as then Some rs else m a)"
  by (induction as arbitrary: m) auto

lemma find_snoc: "find P (xs @ [x]) = (case find P xs of Some y \<Rightarrow> Some y | None \<Rightarrow> if P x then Some x else None)"
  by (induction xs) auto

lemma fold_lookup:
  assumes "\<And>x m. g x m a = (if P x then Some (f x) else m a)"
  shows "fold g xs m a = (case find P (rev xs) of Some x \<Rightarrow> Some (f x) | None \<Rightarrow> m a)"
  by (induction xs arbitrary: m) (auto simp: assms find_snoc split: option.split)

lemma routes_of_spec_lookup:
  "routes_of_spec spec a =
     (case find (\<lambda>i. a \<in> as_ip_addr ` set (ni_addresses i)) (rev (concat (map ns_interfaces (spec_nodes spec)))) of
        Some i \<Rightarrow> Some (sort_key cost (ni_routes i)) | None \<Rightarrow> None)"
  unfolding routes_of_spec_def by (rule fold_lookup) (rule fold_route_tables)

lemma routes_of_spec_sorted: "routes_of_spec spec a = Some rs \<Longrightarrow> sorted (map cost rs)"
  by (auto simp: routes_of_spec_lookup split: option.splits)

lemma routes_of_spec_address:
  assumes "n \<in> set (spec_nodes spec)" and "a \<in> set (spec_addresses n)"
  shows "routes_of_spec spec a \<noteq> None"
proof -
  obtain i where "i \<in> set (ns_interfaces n)" "a \<in> as_ip_addr ` set (ni_addresses i)"
    using assms(2) by (auto simp: spec_addresses_def)
  with assms(1) show ?thesis
    by (auto simp: routes_of_spec_lookup find_None_iff split: option.split)
qed

section \<open>Routing in reachable states\<close>

definition tables_of :: "network_spec \<Rightarrow> 'r network \<Rightarrow> bool" where
  "tables_of spec nw \<longleftrightarrow>
     map node_name (nw_nodes nw) = map (\<lambda>n. (ns_id n, spec_addresses n)) (initial_nodes spec) \<and>
     nw_routes_by_addr nw = routes_of_spec spec \<and> length (nw_links nw) = length (spec_links spec)"

lemma node_name_initial: "node_name (initial_node n) = (ns_id n, spec_addresses n)"
  by (simp add: node_name_def initial_node_def node_of_spec_def)

lemma tables_of_reach: "sim.reach spec ops s \<Longrightarrow> tables_of spec (sim_network s)"
proof (erule sim.reach_invariant)
  show "tables_of spec (sim_network s)" if "started spec s" for s :: "'a simulation"
    using that
  proof (rule started_network)
    fix nw t0
    assume "nw_nodes nw = map initial_node (initial_nodes spec)" "nw_links nw = map link_new (spec_links spec)"
      "nw_routes_by_addr nw = routes_of_spec spec" "evolves (sim_now s) nw (sim_network s)"
    then show ?thesis
      by (auto simp: tables_of_def evolves_def same_tables_def node_name_initial o_def)
  qed
next
  fix s t :: "'a simulation" and lab
  assume "sim.reach spec ops s" and s: "tables_of spec (sim_network s)" and step: "net_step ops s lab t"
  have "same_tables (sim_network s) (sim_network t)"
  proof (cases "\<exists>d. lab = Tick d")
    case True
    with step show ?thesis by (auto simp: net_step_def sim_step_def)
  next
    case False
    then have "sim_evolves s t"
      using step clock_ok_reach [OF \<open>sim.reach spec ops s\<close>]
      by (intro sim_step_evolves) (auto simp: net_step_def)
    then show ?thesis by (simp add: sim_evolves_def evolves_def)
  qed
  with s show "tables_of spec (sim_network t)" by (simp add: tables_of_def same_tables_def)
qed

lemma has_route_tables_reach:
  assumes "sim.reach spec ops s" and "i < length (nw_nodes (sim_network s))"
  shows "has_route_tables (sim_network s) (sim_node s i)"
proof -
  let ?ns = "initial_nodes spec"
  have t: "map node_name (nw_nodes (sim_network s)) = map (\<lambda>n. (ns_id n, spec_addresses n)) ?ns"
    "nw_routes_by_addr (sim_network s) = routes_of_spec spec"
    using tables_of_reach [OF assms(1)] by (simp_all add: tables_of_def)
  have "length (nw_nodes (sim_network s)) = length ?ns"
    using map_eq_imp_length_eq [OF t(1)] .
  with assms(2) have len: "i < length ?ns" by simp
  then have "node_name (sim_node s i) = (ns_id (?ns ! i), spec_addresses (?ns ! i))"
    by (metis (no_types, lifting) assms(2) nth_map t(1))
  moreover have "?ns ! i \<in> set (spec_nodes spec)"
    using nth_mem [OF len] by (auto simp: initial_nodes_def)
  ultimately show ?thesis
    using routes_of_spec_address by (auto simp: has_route_tables_def node_name_def t(2))
qed

end
