(* ===== verification/Scenario.thy ===== *)
theory Scenario
  imports Routing
begin

text \<open>
  A concrete network for runs of the model: two hosts and the link between them, with a delay of
  ten milliseconds and a bandwidth of 8 kbit/s, and a deterministic random generator.
\<close>

definition host_a :: network_node_spec where
  "host_a =
     \<lparr>ns_id = ''a'', ns_buffer_size_bytes = 100, ns_kind = Host,
      ns_interfaces = [\<lparr>ni_addresses = [\<lparr>address = 1, network_prefix = 24\<rparr>], ni_routes = []\<rparr>],
      ns_packet_loss_ratio = 0, ns_packet_duplication_ratio = 0\<rparr>"

definition host_b :: network_node_spec where
  "host_b =
     \<lparr>ns_id = ''b'', ns_buffer_size_bytes = 100, ns_kind = Host,
      ns_interfaces = [\<lparr>ni_addresses = [\<lparr>address = 2, network_prefix = 24\<rparr>], ni_routes = []\<rparr>],
      ns_packet_loss_ratio = 0, ns_packet_duplication_ratio = 0\<rparr>"

definition link_ab :: network_link_spec where
  "link_ab =
     \<lparr>ls_id = ''l'', ls_source = V4 1, ls_target = V4 2, ls_delay = millis 10,
      ls_bandwidth_bps = 100000000, ls_congestion_event_ratio = 0, ls_extra_delay = 0,
      ls_extra_delay_ratio = 0\<rparr>"

definition pair_spec :: network_spec where
  "pair_spec = \<lparr>spec_nodes = [host_a, host_b], spec_links = [link_ab]\<rparr>"

text \<open>Packet ids count up, every roll is one half.\<close>

definition counter_rng :: "nat rng_ops" where
  "counter_rng = \<lparr>rng_f64 = (\<lambda>r. (1 / 2, r)), rng_u128 = (\<lambda>r. (of_nat r, Suc r))\<rparr>"

definition pair_network :: "network_event list \<Rightarrow> init_error + nat simulation" where
  "pair_network evs =
     initialize pair_spec (network_events_new evs (spec_nodes pair_spec) (spec_links pair_spec))
       (tracer_new 0 pair_spec) 0 0 False 0"

definition datagram :: owned_transmit where
  "datagram =
     \<lparr>tx_destination = \<lparr>sa_ip = V4 2, sa_port = host_port\<rparr>, tx_ecn = None, tx_contents = [42],
      tx_segment_size = None\<rparr>"

definition pair_run :: "network_event list \<Rightarrow> label list \<Rightarrow> nat simulation option" where
  "pair_run evs labs =
     (case pair_network evs of
        Inl _ \<Rightarrow> None
      | Inr s \<Rightarrow> (case run counter_rng labs s of Inl _ \<Rightarrow> None | Inr s' \<Rightarrow> Some s'))"

text \<open>One datagram from the first host to the second.\<close>

definition one_packet :: "label list" where
  "one_packet = [Transmit 0 datagram, RunNode 0, RunLink 0, Tick (millis 10), RunForwarder 0]"

section \<open>Runs are reachable\<close>

lemma run_reach:
  assumes "sim.reach spec ops s" and "run ops labs s = Inr s'"
  shows "sim.reach spec ops s'"
  using assms(2) unfolding run_def
proof (rule fold_ok_invariant)
  show "sim.reach spec ops t'" if "sim.reach spec ops t" and "sim_step ops lab t = Inr t'" for t lab t'
    using that(1) by (rule sim.reach_step) (use that(2) in \<open>unfold net_step_def\<close>)
qed (rule assms(1))

lemma pair_run_reach:
  assumes "pair_run evs labs = Some s"
  shows "sim.reach pair_spec counter_rng s"
proof -
  obtain s0 where s0: "pair_network evs = Inr s0" "run counter_rng labs s0 = Inr s"
    using assms by (auto simp: pair_run_def split: sum.splits)
  have "fresh_tracer 0 pair_spec (tracer_new 0 pair_spec)" by (simp add: fresh_tracer_def)
  with s0(1) have "started pair_spec s0" unfolding pair_network_def started_def by blast
  then have "sim.reach pair_spec counter_rng s0" by (rule sim.reach_initial)
  then show ?thesis using s0(2) by (rule run_reach)
qed

lemma one_packet_runs: "\<exists>s. pair_run [] one_packet = Some s"
proof -
  have "case pair_run [] one_packet of None \<Rightarrow> False | Some s \<Rightarrow> True" by code_simp
  then show ?thesis by (auto split: option.splits)
qed

lemma pair_nodes:
  assumes "pair_run evs labs = Some s"
  shows "length (nw_nodes (sim_network s)) = 2"
proof -
  have "tables_of pair_spec (sim_network s)" by (rule tables_of_reach [OF pair_run_reach [OF assms]])
  then have "map node_name (nw_nodes (sim_network s)) =
      map (\<lambda>n. (ns_id n, spec_addresses n)) (initial_nodes pair_spec)"
    by (simp add: tables_of_def)
  then have "length (nw_nodes (sim_network s)) = length (initial_nodes pair_spec)"
    by (rule map_eq_imp_length_eq)
  then show ?thesis by (simp add: initial_nodes_def pair_spec_def host_a_def host_b_def)
qed

end
