(* ===== verification/Network_Replay.thy ===== *)
theory Network_Replay
  imports Network_Buffers Replay_Book Scenario
begin

text \<open>
  The log the network writes replays without a fatal error. The invariant relates the network and
  the book of its log: every packet id sits in at most one place (the inbound queue of a host, the
  channel of a node, an offer to links, the flight over a link, or the hands of the running task),
  and the book has it at the spot that place stands for. Ids of new packets are assumed to be
  fresh, which is what the repository relies on when it draws them at random.
\<close>

section \<open>Items in places\<close>

datatype place = AtHost nat | InChannel nat | Offered nat | OnLink nat | Hand

type_synonym items = "place \<Rightarrow> (uuid \<times> spot option) list"

definition settled :: "items \<Rightarrow> book \<Rightarrow> uuid set \<Rightarrow> bool" where
  "settled C b used \<longleftrightarrow>
     (\<forall>P. distinct (map fst (C P))) \<and>
     (\<forall>P Q x. x \<in> fst ` set (C P) \<longrightarrow> x \<in> fst ` set (C Q) \<longrightarrow> P = Q) \<and>
     (\<forall>P. \<forall>(x, w) \<in> set (C P). b x = w \<and> x \<in> used) \<and> dom b \<subseteq> used"

text \<open>\<open>used\<close> is everything once the supply of fresh ids has run out; then nothing is claimed.\<close>

definition booked :: "id set \<Rightarrow> id set \<Rightarrow> items \<Rightarrow> simulation_step list \<Rightarrow> uuid set \<Rightarrow> bool" where
  "booked ns ls C trace used \<longleftrightarrow>
     (used \<noteq> UNIV \<longrightarrow> fits ns ls Map.empty trace \<and> settled C (spots trace) used)"

lemma settled_distinct: "settled C b used \<Longrightarrow> distinct (map fst (C P))"
  by (simp add: settled_def)

lemma settled_spot: "settled C b used \<Longrightarrow> (x, w) \<in> set (C P) \<Longrightarrow> b x = w \<and> x \<in> used"
  by (auto simp: settled_def)

lemma settled_one_place:
  "settled C b used \<Longrightarrow> x \<in> fst ` set (C P) \<Longrightarrow> x \<in> fst ` set (C Q) \<Longrightarrow> P = Q"
  by (simp add: settled_def)

lemma settled_intro:
  assumes "\<And>P. distinct (map fst (D P))"
    and "\<And>P Q x. x \<in> fst ` set (D P) \<Longrightarrow> x \<in> fst ` set (D Q) \<Longrightarrow> P = Q"
    and "\<And>P x w. (x, w) \<in> set (D P) \<Longrightarrow> b x = w \<and> x \<in> used" and "dom b \<subseteq> used"
  shows "settled D b used"
  using assms unfolding settled_def by blast

lemma mset_fst_eq:
  assumes "mset xs = mset ys"
  shows "distinct (map fst xs) = distinct (map fst ys)" "set xs = set ys"
  using assms mset_eq_setD by (auto simp: mset_eq_imp_distinct_iff)

lemma settled_more: "settled C b used \<Longrightarrow> used \<subseteq> used' \<Longrightarrow> settled C b used'"
proof (rule settled_intro)
  assume s: "settled C b used" and u: "used \<subseteq> used'"
  show "b x = w \<and> x \<in> used'" if "(x, w) \<in> set (C P)" for P x w
    using settled_spot [OF s that] u by blast
  show "dom b \<subseteq> used'" using s u by (auto simp: settled_def)
qed (simp_all add: settled_distinct settled_one_place)

lemma booked_more: "booked ns ls C trace used \<Longrightarrow> used \<subseteq> used' \<Longrightarrow> booked ns ls C trace used'"
  by (cases "used = UNIV") (auto simp: booked_def intro: settled_more)

lemma booked_fresh:
  assumes "booked ns ls C trace used" and "used \<subseteq> used'" and "used' \<noteq> UNIV \<longrightarrow> u \<notin> used \<and> u \<in> used'"
  shows "booked ns ls (C(Hand := (u, None) # C Hand)) trace used'"
  unfolding booked_def
proof (intro impI conjI)
  assume n: "used' \<noteq> UNIV"
  with assms have s: "settled C (spots trace) used" and f: "fits ns ls Map.empty trace"
    and u: "u \<notin> used" "u \<in> used'" by (auto simp: booked_def)
  show "fits ns ls Map.empty trace" by (fact f)
  have new: "u \<notin> fst ` set (C P)" for P using settled_spot [OF s] u(1) by force
  have none: "spots trace u = None" using s u(1) by (auto simp: settled_def)
  show "settled (C(Hand := (u, None) # C Hand)) (spots trace) used'"
  proof (rule settled_intro)
    show "distinct (map fst ((C(Hand := (u, None) # C Hand)) P))" for P
      using settled_distinct [OF s] new by auto
    show "P = Q" if "x \<in> fst ` set ((C(Hand := (u, None) # C Hand)) P)"
      "x \<in> fst ` set ((C(Hand := (u, None) # C Hand)) Q)" for P Q x
      using that new settled_one_place [OF s, of x P Q] by (auto split: if_splits)
    show "spots trace x = w \<and> x \<in> used'" if "(x, w) \<in> set ((C(Hand := (u, None) # C Hand)) P)" for P x w
      using that none u(2) settled_spot [OF s] assms(2) by (auto split: if_splits)
    show "dom (spots trace) \<subseteq> used'" using s assms(2) by (auto simp: settled_def)
  qed
qed

text \<open>A step of the log about an item that changes its spot.\<close>

lemma booked_log:
  assumes "booked ns ls C trace used" and "mset (C A) = mset ((x, w) # ys)" and "mset xs = mset ((x, v) # ys)"
    and "\<And>b. b x = w \<Longrightarrow> step_fits ns ls b st \<and> spot_step b st = b(x := v)"
  shows "booked ns ls (C(A := xs)) (trace @ [st]) used"
  unfolding booked_def
proof (intro impI conjI)
  assume n: "used \<noteq> UNIV"
  with assms have s: "settled C (spots trace) used" and f: "fits ns ls Map.empty trace"
    by (auto simp: booked_def)
  note old = mset_fst_eq [OF assms(2)] and new = mset_fst_eq [OF assms(3)]
  have d: "distinct (map fst ((x, w) # ys))" using settled_distinct [OF s, of A] old by simp
  have x: "spots trace x = w" "x \<in> used" using settled_spot [OF s, of x w A] old by auto
  then have st: "step_fits ns ls (spots trace) st" "spot_step (spots trace) st = (spots trace)(x := v)"
    using assms(4) by blast+
  show "fits ns ls Map.empty (trace @ [st])" using f st(1) by (simp add: fits_snoc spots_def)
  have ids: "fst ` set ((C(A := xs)) P) = fst ` set (C P)" for P using old new by simp
  have away: "x \<notin> fst ` set (C P)" if "P \<noteq> A" for P
    using settled_one_place [OF s, of x P A] that old by auto
  show "settled (C(A := xs)) (spots (trace @ [st])) used"
  proof (rule settled_intro)
    show "distinct (map fst ((C(A := xs)) P))" for P using settled_distinct [OF s] d new by simp
    show "P = Q" if "y \<in> fst ` set ((C(A := xs)) P)" "y \<in> fst ` set ((C(A := xs)) Q)" for P Q y
      using that settled_one_place [OF s] unfolding ids by blast
    show "spots (trace @ [st]) y = w' \<and> y \<in> used" if "(y, w') \<in> set ((C(A := xs)) P)" for P y w'
    proof (cases "P = A")
      case True
      with that new consider "y = x" "w' = v" | "(y, w') \<in> set ys" by auto
      then show ?thesis
      proof cases
        case 2
        then have "(y, w') \<in> set (C A)" "y \<noteq> x" using old d by force+
        then show ?thesis using settled_spot [OF s] by (simp add: st(2))
      qed (simp add: st(2) x(2))
    next
      case False
      with that have "(y, w') \<in> set (C P)" by simp
      with away [OF False] settled_spot [OF s] show ?thesis by (force simp: st(2))
    qed
    have "dom (spots trace) \<subseteq> used" using s by (simp add: settled_def)
    then show "dom (spots (trace @ [st])) \<subseteq> used" using x(2) by (auto simp: st(2))
  qed
qed

lemma booked_event:
  assumes "booked ns ls C trace used" and "\<And>b. step_fits ns ls b st \<and> spot_step b st = b"
  shows "booked ns ls C (trace @ [st]) used"
  using assms by (auto simp: booked_def fits_snoc)

text \<open>Items leave a place, or move to another.\<close>

lemma booked_drop:
  assumes "booked ns ls C trace used" and "mset (C A) = mset (ys @ xs)"
  shows "booked ns ls (C(A := xs)) trace used"
  unfolding booked_def
proof (intro impI conjI)
  assume n: "used \<noteq> UNIV"
  with assms have s: "settled C (spots trace) used" and f: "fits ns ls Map.empty trace"
    by (auto simp: booked_def)
  note old = mset_fst_eq [OF assms(2)]
  have sub: "set ((C(A := xs)) P) \<subseteq> set (C P)" for P using old by auto
  show "fits ns ls Map.empty trace" by (fact f)
  show "settled (C(A := xs)) (spots trace) used"
  proof (rule settled_intro)
    show "distinct (map fst ((C(A := xs)) P))" for P
      using settled_distinct [OF s, of P] old(1) by auto
    show "P = Q" if "y \<in> fst ` set ((C(A := xs)) P)" "y \<in> fst ` set ((C(A := xs)) Q)" for P Q y
      using that settled_one_place [OF s, of y P Q] sub by blast
    show "spots trace y = w \<and> y \<in> used" if "(y, w) \<in> set ((C(A := xs)) P)" for P y w
      using that settled_spot [OF s] sub by blast
    show "dom (spots trace) \<subseteq> used" using s by (simp add: settled_def)
  qed
qed

lemma booked_move:
  assumes "booked ns ls C trace used" and "A \<noteq> B" and "mset (C A) = mset (zs @ xs)"
    and "mset ys = mset (zs @ C B)"
  shows "booked ns ls (C(A := xs, B := ys)) trace used"
  unfolding booked_def
proof (intro impI conjI)
  assume n: "used \<noteq> UNIV"
  with assms have s: "settled C (spots trace) used" and f: "fits ns ls Map.empty trace"
    by (auto simp: booked_def)
  note a = mset_fst_eq [OF assms(3)] and b = mset_fst_eq [OF assms(4)]
  let ?D = "C(A := xs, B := ys)"
  have da: "distinct (map fst (zs @ xs))" using settled_distinct [OF s, of A] a by simp
  have ids: "fst ` set (C A) = fst ` set zs \<union> fst ` set xs" "fst ` set ys = fst ` set zs \<union> fst ` set (C B)"
    using a b by auto
  have disj: "fst ` set zs \<inter> fst ` set xs = {}" using da by auto
  have apart: "fst ` set (C P) \<inter> fst ` set (C Q) = {}" if "P \<noteq> Q" for P Q
    using settled_one_place [OF s, of _ P Q] that by blast
  show "fits ns ls Map.empty trace" by (fact f)
  show "settled ?D (spots trace) used"
  proof (rule settled_intro)
    have "distinct (map fst (zs @ C B))"
      using da settled_distinct [OF s, of B] apart [OF assms(2)] ids(1) by auto
    then show "distinct (map fst (?D P))" for P
      using settled_distinct [OF s, of P] da b(1) by auto
    show "P = Q" if "y \<in> fst ` set (?D P)" "y \<in> fst ` set (?D Q)" for P Q y
    proof (rule ccontr)
      assume pq: "P \<noteq> Q"
      have other: "y \<notin> fst ` set (?D R)" if "R \<noteq> B" "y \<in> fst ` set ys" for R
        using that apart [of B R] apart [of A R] assms(2) ids disj by (cases "R = A") auto
      consider "P = B" | "Q = B" | "P \<noteq> B" "Q \<noteq> B" by blast
      then show False
      proof cases
        case 3
        then have "fst ` set (?D P) \<subseteq> fst ` set (C P)" "fst ` set (?D Q) \<subseteq> fst ` set (C Q)"
          using ids(1) by auto
        with that apart [OF pq] show ?thesis by blast
      qed (use that other pq in auto)
    qed
    show "spots trace y = w \<and> y \<in> used" if "(y, w) \<in> set (?D P)" for P y w
    proof -
      have "(y, w) \<in> set (C A) \<or> (y, w) \<in> set (C P)"
        using that a(2) b(2) by (auto split: if_splits)
      with settled_spot [OF s] show ?thesis by blast
    qed
    show "dom (spots trace) \<subseteq> used" using s by (simp add: settled_def)
  qed
qed

section \<open>The places of a network\<close>

definition node_spot :: "node \<Rightarrow> spot option" where "node_spot n = Some (In (nd_id n))"
definition link_spot :: "network_link \<Rightarrow> spot option" where "link_spot l = Some (Over (nl_id l))"

definition host_items :: "node \<Rightarrow> (uuid \<times> spot option) list" where
  "host_items n =
     (case nd_udp_endpoint n of
        None \<Rightarrow> []
      | Some e \<Rightarrow> map (\<lambda>p. (pkt_id (pd_data p), node_spot n)) (iq_queue (ue_inbound e)))"

definition channel_items :: "node \<Rightarrow> (uuid \<times> spot option) list" where
  "channel_items n = map (\<lambda>p. (pkt_id (bp_data p), node_spot n)) (nd_outbound n)"

definition flight_items :: "network_link \<Rightarrow> (uuid \<times> spot option) list" where
  "flight_items l = map (\<lambda>p. (pkt_id (pd_data p), link_spot l)) (iq_queue (nl_in_transit l))"

text \<open>\<open>off\<close> gives the source node and the packet id of every offer that is not handled.\<close>

type_synonym offers = "nat \<rightharpoonup> nat \<times> uuid"

fun content :: "offers \<Rightarrow> (uuid \<times> spot option) list \<Rightarrow> 'r network \<Rightarrow> items" where
  "content off hand nw (AtHost i) = (if i < length (nw_nodes nw) then host_items (nw_nodes nw ! i) else [])"
| "content off hand nw (InChannel i) =
     (if i < length (nw_nodes nw) then channel_items (nw_nodes nw ! i) else [])"
| "content off hand nw (Offered h) =
     (case off h of None \<Rightarrow> [] | Some (i, x) \<Rightarrow> [(x, node_spot (nw_nodes nw ! i))])"
| "content off hand nw (OnLink l) = (if l < length (nw_links nw) then flight_items (nw_links nw ! l) else [])"
| "content off hand nw Hand = hand"

lemma content_put_node:
  assumes "nd_id n = nd_id (nw_nodes nw ! i)" and "i < length (nw_nodes nw)"
  shows "content off hand (put_node i n nw) =
    (content off hand nw)(AtHost i := host_items n, InChannel i := channel_items n)"
proof
  fix P
  have spot: "node_spot ((nw_nodes nw)[i := n] ! j) = node_spot (nw_nodes nw ! j)" for j
    using assms by (cases "j = i") (simp_all add: node_spot_def)
  show "content off hand (put_node i n nw) P =
      ((content off hand nw)(AtHost i := host_items n, InChannel i := channel_items n)) P"
    using assms(2) by (cases P) (auto simp: spot split: option.split)
qed

lemma content_put_link:
  "l < length (nw_links nw) \<Longrightarrow>
   content off hand (put_link l k nw) = (content off hand nw)(OnLink l := flight_items k)"
  by (rule ext, rename_tac P, case_tac P) (auto simp: nth_list_update_if split: option.split)

lemma content_frame [simp]:
  "content off hand (put_tracer t nw) = content off hand nw"
  "content off hand (nw\<lparr>nw_rng := r\<rparr>) = content off hand nw"
  "content off hand (nw\<lparr>nw_next_transmit_number := k\<rparr>) = content off hand nw"
  by (rule ext, rename_tac P, case_tac P, simp_all split: option.split)+

lemma content_hand: "content off hand' nw = (content off hand nw)(Hand := hand')"
  by (rule ext, rename_tac P, case_tac P) simp_all

lemma content_offer:
  "content (off(h := None)) hand nw = (content off hand nw)(Offered h := [])"
  "content (off(h \<mapsto> (i, x))) hand nw =
     (content off hand nw)(Offered h := [(x, node_spot (nw_nodes nw ! i))])"
  by (rule ext, rename_tac P, case_tac P, simp_all)+

text \<open>The ids the network can log; none of them ever changes.\<close>

definition known :: "id set \<Rightarrow> id set \<Rightarrow> 'r network \<Rightarrow> bool" where
  "known ns ls nw \<longleftrightarrow>
     (\<forall>i < length (nw_nodes nw). nd_id (nw_nodes nw ! i) \<in> ns) \<and>
     (\<forall>l < length (nw_links nw). nl_id (nw_links nw ! l) \<in> ls) \<and>
     dom (nw_nodes_by_id nw) = ns \<and> dom (nw_links_by_id nw) = ls \<and>
     in_bounds (nw_nodes_by_addr nw) (length (nw_nodes nw))"

definition net_booked ::
  "id set \<Rightarrow> id set \<Rightarrow> ('r \<Rightarrow> uuid set) \<Rightarrow> offers \<Rightarrow> (uuid \<times> spot option) list \<Rightarrow> 'r network \<Rightarrow> bool" where
  "net_booked ns ls seen off hand nw \<longleftrightarrow>
     known ns ls nw \<and> booked ns ls (content off hand nw) (log_of (nw_tracer nw)) (seen (nw_rng nw))"

lemma net_bookedD:
  "net_booked ns ls seen off hand nw \<Longrightarrow> known ns ls nw"
  "net_booked ns ls seen off hand nw \<Longrightarrow>
   booked ns ls (content off hand nw) (log_of (nw_tracer nw)) (seen (nw_rng nw))"
  by (simp_all add: net_booked_def)

text \<open>Draws of the random generator, as long as the supply lasts, are fresh.\<close>

definition fresh_ids :: "'r rng_ops \<Rightarrow> ('r \<Rightarrow> uuid set) \<Rightarrow> bool" where
  "fresh_ids ops seen \<longleftrightarrow>
     (\<forall>r x r'. rng_f64 ops r = (x, r') \<longrightarrow> seen r \<subseteq> seen r') \<and>
     (\<forall>r u r'. rng_u128 ops r = (u, r') \<longrightarrow>
        seen r \<subseteq> seen r' \<and> (seen r' \<noteq> UNIV \<longrightarrow> u \<notin> seen r \<and> u \<in> seen r'))"

section \<open>Elementary changes of the network\<close>

lemma hand_perm:
  "net_booked ns ls seen off hand nw \<Longrightarrow> mset hand = mset (ys @ hand') \<Longrightarrow> net_booked ns ls seen off hand' nw"
  using booked_drop [of ns ls "content off hand nw" _ _ Hand ys hand']
  by (simp add: net_booked_def content_hand [of off hand' nw hand])

lemma hand_log:
  assumes "net_booked ns ls seen off ((x, w) # hand) nw" and "log_of t = log_of (nw_tracer nw) @ [st]"
    and "\<And>b. b x = w \<Longrightarrow> step_fits ns ls b st \<and> spot_step b st = b(x := v)"
  shows "net_booked ns ls seen off ((x, v) # hand) (put_tracer t nw)"
proof -
  have "booked ns ls ((content off ((x, w) # hand) nw)(Hand := (x, v) # hand))
      (log_of (nw_tracer nw) @ [st]) (seen (nw_rng nw))"
    by (rule booked_log [OF net_bookedD(2) [OF assms(1)] _ refl assms(3)]) simp
  with net_bookedD(1) [OF assms(1)] show ?thesis
    by (simp add: net_booked_def known_def assms(2) content_hand [of off "(x, v) # hand" nw "(x, w) # hand"])
qed

lemma net_booked_event:
  assumes "net_booked ns ls seen off hand nw" and "log_of t = log_of (nw_tracer nw) @ [st]"
    and "\<And>b. step_fits ns ls b st \<and> spot_step b st = b"
  shows "net_booked ns ls seen off hand (put_tracer t nw)"
  using assms booked_event [OF net_bookedD(2) [OF assms(1)] assms(3)]
  by (simp add: net_booked_def known_def)

lemma net_booked_roll:
  assumes "fresh_ids ops seen" and "net_booked ns ls seen off hand nw" and "roll_f64 ops nw = (x, nw')"
  shows "net_booked ns ls seen off hand nw'"
proof -
  obtain r where r: "rng_f64 ops (nw_rng nw) = (x, r)" and nw': "nw' = nw\<lparr>nw_rng := r\<rparr>"
    using assms(3) by (auto simp: roll_f64_def split: prod.splits)
  have "seen (nw_rng nw) \<subseteq> seen r" using assms(1) r unfolding fresh_ids_def by blast
  with assms(2) show ?thesis by (auto simp: nw' net_booked_def known_def intro: booked_more)
qed

lemma net_booked_draw:
  assumes "fresh_ids ops seen" and "net_booked ns ls seen off hand nw" and "new_packet_id ops nw = (u, nw')"
  shows "net_booked ns ls seen off ((u, None) # hand) nw'"
proof -
  obtain r where r: "rng_u128 ops (nw_rng nw) = (u, r)" and nw': "nw' = nw\<lparr>nw_rng := r\<rparr>"
    using assms(3) by (auto simp: new_packet_id_def split: prod.splits)
  have s: "seen (nw_rng nw) \<subseteq> seen r" "seen r \<noteq> UNIV \<longrightarrow> u \<notin> seen (nw_rng nw) \<and> u \<in> seen r"
    using assms(1) r unfolding fresh_ids_def by blast+
  have "booked ns ls ((content off hand nw)(Hand := (u, None) # content off hand nw Hand))
      (log_of (nw_tracer nw)) (seen r)"
    by (rule booked_fresh [OF net_bookedD(2) [OF assms(2)] s])
  with net_bookedD(1) [OF assms(2)] show ?thesis
    by (simp add: nw' net_booked_def known_def content_hand [of off "(u, None) # hand" nw hand])
qed

lemma known_put_node: "nd_id n = nd_id (nw_nodes nw ! i) \<Longrightarrow> known ns ls nw \<Longrightarrow> known ns ls (put_node i n nw)"
  by (auto simp: known_def nth_list_update_if)

lemma known_put_link: "nl_id k = nl_id (nw_links nw ! l) \<Longrightarrow> known ns ls nw \<Longrightarrow> known ns ls (put_link l k nw)"
  by (auto simp: known_def nth_list_update_if)

text \<open>Changes that no item notices.\<close>

lemma net_booked_put_node:
  assumes "net_booked ns ls seen off hand nw" and "nd_id n = nd_id (nw_nodes nw ! i)"
    and "host_items n = host_items (nw_nodes nw ! i)" and "channel_items n = channel_items (nw_nodes nw ! i)"
  shows "net_booked ns ls seen off hand (put_node i n nw)"
proof (cases "i < length (nw_nodes nw)")
  case True
  have "content off hand (put_node i n nw) = content off hand nw"
    unfolding content_put_node [OF assms(2) True]
    by (rule ext, rename_tac P, case_tac P) (use True assms(3,4) in \<open>simp_all split: option.split\<close>)
  with assms(1) known_put_node [OF assms(2)] show ?thesis by (simp add: net_booked_def)
qed (use assms(1) in \<open>simp add: list_update_beyond\<close>)

lemma net_booked_put_link:
  assumes "net_booked ns ls seen off hand nw" and "nl_id k = nl_id (nw_links nw ! l)"
    and "flight_items k = flight_items (nw_links nw ! l)"
  shows "net_booked ns ls seen off hand (put_link l k nw)"
proof (cases "l < length (nw_links nw)")
  case True
  have "content off hand (put_link l k nw) = content off hand nw"
    unfolding content_put_link [OF True]
    by (rule ext, rename_tac P, case_tac P) (use True assms(3) in \<open>simp_all split: option.split\<close>)
  with assms(1) known_put_link [OF assms(2)] show ?thesis by (simp add: net_booked_def)
qed (use assms(1) in \<open>simp add: list_update_beyond\<close>)

text \<open>Items move between the hand and a place of the network.\<close>

lemma net_booked_move:
  assumes "net_booked ns ls seen off hand nw" and "A \<noteq> B"
    and "mset (content off hand nw A) = mset (zs @ xs)" and "mset ys = mset (zs @ content off hand nw B)"
    and "known ns ls nw'" and "nw_tracer nw' = nw_tracer nw" and "nw_rng nw' = nw_rng nw"
    and "\<And>P. content off' hand' nw' P = (if P = B then ys else if P = A then xs else content off hand nw P)"
  shows "net_booked ns ls seen off' hand' nw'"
proof -
  have "content off' hand' nw' = (content off hand nw)(A := xs, B := ys)"
    by (rule ext) (simp add: assms(8))
  with booked_move [OF net_bookedD(2) [OF assms(1)] assms(2-4)] assms(5-7) show ?thesis
    by (simp add: net_booked_def)
qed

lemma content_at_node:
  assumes "nd_id n = nd_id (nw_nodes nw ! i)" and "i < length (nw_nodes nw)"
  shows "content off hand' (put_node i n nw) P =
    (if P = Hand then hand' else if P = AtHost i then host_items n
     else if P = InChannel i then channel_items n else content off hand nw P)"
  unfolding content_put_node [OF assms] content_hand [of off hand' nw hand] by simp

lemma host_to_hand:
  assumes "net_booked ns ls seen off hand nw" and "nd_id n = nd_id (nw_nodes nw ! i)"
    and "i < length (nw_nodes nw)" and "channel_items n = channel_items (nw_nodes nw ! i)"
    and "host_items (nw_nodes nw ! i) = zs @ host_items n"
  shows "net_booked ns ls seen off (zs @ hand) (put_node i n nw)"
  by (rule net_booked_move [OF assms(1), where A = "AtHost i" and B = Hand and zs = zs
        and xs = "host_items n" and ys = "zs @ hand"])
    (use assms known_put_node [OF assms(2) net_bookedD(1) [OF assms(1)]] in
      \<open>simp_all add: content_at_node [OF assms(2,3), of off _ _ hand]\<close>)

lemma hand_to_host:
  assumes "net_booked ns ls seen off (item # hand) nw" and "nd_id n = nd_id (nw_nodes nw ! i)"
    and "i < length (nw_nodes nw)" and "channel_items n = channel_items (nw_nodes nw ! i)"
    and "mset (host_items n) = add_mset item (mset (host_items (nw_nodes nw ! i)))"
  shows "net_booked ns ls seen off hand (put_node i n nw)"
  by (rule net_booked_move [OF assms(1), where A = Hand and B = "AtHost i" and zs = "[item]"
        and xs = hand and ys = "host_items n"])
    (use assms known_put_node [OF assms(2) net_bookedD(1) [OF assms(1)]] in
      \<open>simp_all add: content_at_node [OF assms(2,3), of off _ _ "item # hand"]\<close>)

lemma channel_to_hand:
  assumes "net_booked ns ls seen off hand nw" and "nd_id n = nd_id (nw_nodes nw ! i)"
    and "i < length (nw_nodes nw)" and "host_items n = host_items (nw_nodes nw ! i)"
    and "channel_items (nw_nodes nw ! i) = zs @ channel_items n"
  shows "net_booked ns ls seen off (zs @ hand) (put_node i n nw)"
  by (rule net_booked_move [OF assms(1), where A = "InChannel i" and B = Hand and zs = zs
        and xs = "channel_items n" and ys = "zs @ hand"])
    (use assms known_put_node [OF assms(2) net_bookedD(1) [OF assms(1)]] in
      \<open>simp_all add: content_at_node [OF assms(2,3), of off _ _ hand]\<close>)

lemma hand_to_channel:
  assumes "net_booked ns ls seen off (item # hand) nw" and "nd_id n = nd_id (nw_nodes nw ! i)"
    and "i < length (nw_nodes nw)" and "host_items n = host_items (nw_nodes nw ! i)"
    and "channel_items n = channel_items (nw_nodes nw ! i) @ [item]"
  shows "net_booked ns ls seen off hand (put_node i n nw)"
  by (rule net_booked_move [OF assms(1), where A = Hand and B = "InChannel i" and zs = "[item]"
        and xs = hand and ys = "channel_items n"])
    (use assms known_put_node [OF assms(2) net_bookedD(1) [OF assms(1)]] in
      \<open>simp_all add: content_at_node [OF assms(2,3), of off _ _ "item # hand"]\<close>)

lemma content_at_link:
  "l < length (nw_links nw) \<Longrightarrow>
   content off hand' (put_link l k nw) P =
     (if P = Hand then hand' else if P = OnLink l then flight_items k else content off hand nw P)"
  unfolding content_put_link content_hand [of off hand' nw hand] by simp

lemma link_to_hand:
  assumes "net_booked ns ls seen off hand nw" and "nl_id k = nl_id (nw_links nw ! l)"
    and "l < length (nw_links nw)" and "flight_items (nw_links nw ! l) = zs @ flight_items k"
  shows "net_booked ns ls seen off (zs @ hand) (put_link l k nw)"
  by (rule net_booked_move [OF assms(1), where A = "OnLink l" and B = Hand and zs = zs
        and xs = "flight_items k" and ys = "zs @ hand"])
    (use assms known_put_link [OF assms(2) net_bookedD(1) [OF assms(1)]] in
      \<open>simp_all add: content_at_link [OF assms(3), of off _ _ _ hand]\<close>)

lemma hand_to_link:
  assumes "net_booked ns ls seen off (item # hand) nw" and "nl_id k = nl_id (nw_links nw ! l)"
    and "l < length (nw_links nw)"
    and "mset (flight_items k) = add_mset item (mset (flight_items (nw_links nw ! l)))"
  shows "net_booked ns ls seen off hand (put_link l k nw)"
  by (rule net_booked_move [OF assms(1), where A = Hand and B = "OnLink l" and zs = "[item]"
        and xs = hand and ys = "flight_items k"])
    (use assms known_put_link [OF assms(2) net_bookedD(1) [OF assms(1)]] in
      \<open>simp_all add: content_at_link [OF assms(3), of off _ _ _ "item # hand"]\<close>)

lemma hand_to_offer:
  assumes "net_booked ns ls seen off ((x, node_spot (nw_nodes nw ! i)) # hand) nw" and "off h = None"
  shows "net_booked ns ls seen (off(h \<mapsto> (i, x))) hand nw"
  by (rule net_booked_move [OF assms(1), where A = Hand and B = "Offered h"
        and zs = "[(x, node_spot (nw_nodes nw ! i))]" and xs = hand and ys = "[(x, node_spot (nw_nodes nw ! i))]"])
    (use assms net_bookedD(1) [OF assms(1)] in
      \<open>simp_all add: content_offer content_hand [of off hand nw "(x, node_spot (nw_nodes nw ! i)) # hand"]\<close>)

lemma offer_to_hand:
  assumes "net_booked ns ls seen off hand nw" and "off h = Some (i, x)"
  shows "net_booked ns ls seen (off(h := None)) ((x, node_spot (nw_nodes nw ! i)) # hand) nw"
  by (rule net_booked_move [OF assms(1), where A = "Offered h" and B = Hand
        and zs = "[(x, node_spot (nw_nodes nw ! i))]" and xs = "[]" and ys = "(x, node_spot (nw_nodes nw ! i)) # hand"])
    (use assms net_bookedD(1) [OF assms(1)] in
      \<open>simp_all add: content_offer content_hand [of off "(x, node_spot (nw_nodes nw ! i)) # hand" nw hand]\<close>)

section \<open>Packets enter and cross the network\<close>

lemma hand_drop: "net_booked ns ls seen off (item # hand) nw \<Longrightarrow> net_booked ns ls seen off hand nw"
  by (erule hand_perm [where ys = "[item]"]) simp

lemma net_booked_silent:
  "net_booked ns ls seen off hand nw \<Longrightarrow> log_of t = log_of (nw_tracer nw) \<Longrightarrow>
   net_booked ns ls seen off hand (put_tracer t nw)"
  "net_booked ns ls seen off hand nw \<Longrightarrow>
   net_booked ns ls seen off hand (nw\<lparr>nw_next_transmit_number := k\<rparr>)"
  by (simp_all add: net_booked_def known_def)

lemma known_ids:
  "net_booked ns ls seen off hand nw \<Longrightarrow> i < length (nw_nodes nw) \<Longrightarrow> nd_id (nw_nodes nw ! i) \<in> ns"
  "net_booked ns ls seen off hand nw \<Longrightarrow> l < length (nw_links nw) \<Longrightarrow> nl_id (nw_links nw ! l) \<in> ls"
  by (auto simp: net_booked_def known_def)

lemma step_at_kind: "st_kind (step_at now t k) = k"
  by (simp add: step_at_def)

lemmas step_fits_defs = step_fits_def spot_step_def step_at_kind track_defs

lemma booked_enqueue:
  assumes "net_booked ns ls seen off ((pkt_id (bp_data p), node_spot (nw_nodes nw ! i)) # hand) nw"
    and "i < length (nw_nodes nw)" and "enqueue_at now i p nw = Inr nw'"
  shows "net_booked ns ls seen off hand nw'"
proof -
  note cases = enqueue_outbound_cases [where cap = 0 and held = 0]
  obtain n t where e: "enqueue_outbound now p (nw_nodes nw ! i, nw_tracer nw) = Inr (n, t)"
    and nw': "nw' = put_tracer t (put_node i n nw)"
    using assms(3) by (auto simp: enqueue_at_def map_sum_id_Inr)
  from e show ?thesis
  proof (cases rule: cases)
    case queued
    have n: "nd_id n = nd_id (nw_nodes nw ! i)" "host_items n = host_items (nw_nodes nw ! i)"
      "channel_items n = channel_items (nw_nodes nw ! i) @ [(pkt_id (bp_data p), node_spot (nw_nodes nw ! i))]"
      by (subst queued(3); simp add: host_items_def channel_items_def node_spot_def split: option.split)+
    have "net_booked ns ls seen off hand (put_node i n nw)"
      by (rule hand_to_channel [OF assms(1) n(1) assms(2) n(2,3)])
    then show ?thesis unfolding nw' by (rule net_booked_silent) (simp add: queued(4))
  next
    case full
    have "net_booked ns ls seen off ((pkt_id (bp_data p), node_spot (nw_nodes nw ! i)) # hand) (put_node i n nw)"
      by (rule net_booked_put_node [OF assms(1)]) (simp_all add: full(1))
    then have "net_booked ns ls seen off ((pkt_id (bp_data p), None) # hand) (put_tracer t (put_node i n nw))"
      by (rule hand_log, simp add: full(3)) (use known_ids(1) [OF assms(1,2)] in
        \<open>simp add: step_fits_defs node_spot_def\<close>)
    then show ?thesis unfolding nw' by (rule hand_drop)
  qed
qed

lemma at_nodes_same:
  assumes "at_nodes now nw nw'"
  shows "length (nw_nodes nw') = length (nw_nodes nw)" "length (nw_links nw') = length (nw_links nw)"
    and "i < length (nw_nodes nw) \<Longrightarrow> nd_id (nw_nodes nw' ! i) = nd_id (nw_nodes nw ! i)"
    and "i < length (nw_nodes nw) \<Longrightarrow> node_spot (nw_nodes nw' ! i) = node_spot (nw_nodes nw ! i)"
proof -
  have m: "map node_name (nw_nodes nw') = map node_name (nw_nodes nw)"
    and l: "length (nw_nodes nw') = length (nw_nodes nw)" "length (nw_links nw') = length (nw_links nw)"
    using assms by (simp_all add: at_nodes_def same_tables_def)
  show "length (nw_nodes nw') = length (nw_nodes nw)" "length (nw_links nw') = length (nw_links nw)" by (fact l)+
  show "nd_id (nw_nodes nw' ! i) = nd_id (nw_nodes nw ! i)" if "i < length (nw_nodes nw)"
    using arg_cong [OF m, of "\<lambda>xs. xs ! i"] that l(1) by (simp add: node_name_def)
  then show "node_spot (nw_nodes nw' ! i) = node_spot (nw_nodes nw ! i)" if "i < length (nw_nodes nw)"
    using that by (simp add: node_spot_def)
qed

lemma booked_send_to_next_hop:
  fixes nw :: "'r network"
  assumes "fresh_ids ops seen"
    and "net_booked ns ls seen off ((pkt_id d, node_spot (nw_nodes nw ! i)) # hand) nw"
    and "i < length (nw_nodes nw)" and "send_to_next_hop ops now i d nw = Inr nw'"
  shows "net_booked ns ls seen off hand nw'"
proof -
  obtain roll nw1 where r: "roll_f64 ops nw = (roll, nw1)" by (cases "roll_f64 ops nw")
  obtain u nw2 where u: "new_packet_id ops nw1 = (u, nw2)" by (cases "new_packet_id ops nw1")
  note s1 = at_nodes_same [OF at_nodes_roll [OF r, where now = now]]
  note s2 = at_nodes_same [OF at_nodes_new_packet_id [OF u, where now = now]]
  have i1: "i < length (nw_nodes nw1)" and i2: "i < length (nw_nodes nw2)" using assms(3) s1(1) s2(1) by simp_all
  let ?spot = "node_spot (nw_nodes nw1 ! i)"
  have b1: "net_booked ns ls seen off ((pkt_id d, ?spot) # hand) nw1"
    using net_booked_roll [OF assms(1,2) r] s1(4) [OF assms(3)] by simp
  have lost: "net_booked ns ls seen off hand
      (put_tracer (track_dropped_randomly now (nd_id (nw_nodes nw1 ! i)) d (nw_tracer nw1)) nw1)"
    by (rule hand_drop [OF hand_log [OF b1, where v = None]], simp add: track_defs)
      (use known_ids(1) [OF b1 i1] in \<open>simp add: step_fits_defs node_spot_def\<close>)
  have dup: "net_booked ns ls seen off hand nw'"
    if e1: "enqueue_at now i \<lparr>bp_in_node_since = now, bp_data = d\<rparr> nw2 = Inr nw3"
      and e2: "enqueue_at now i \<lparr>bp_in_node_since = now, bp_data = d\<lparr>pkt_id := u, pkt_duplicate := True\<rparr>\<rparr>
        (put_tracer (track_injected_failures now (nd_id (nw_nodes nw1 ! i)) (d\<lparr>pkt_id := u, pkt_duplicate := True\<rparr>)
          True 0 False (nw_tracer nw3)) nw3) = Inr nw'" for nw3 :: "'r network"
  proof -
    note s3 = at_nodes_same [OF at_nodes_enqueue [OF e1]]
    have i3: "i < length (nw_nodes nw3)" using i2 s3(1) by simp
    have spots: "node_spot (nw_nodes nw2 ! i) = ?spot" "node_spot (nw_nodes nw3 ! i) = ?spot"
      using s2(4) [OF i1] s3(4) [OF i2] by simp_all
    have "net_booked ns ls seen off ((pkt_id d, ?spot) # (u, None) # hand) nw2"
      by (rule hand_perm [OF net_booked_draw [OF assms(1) b1 u], where ys = "[]"]) simp
    then have b3: "net_booked ns ls seen off ((u, None) # hand) nw3"
      by (intro booked_enqueue [OF _ i2 e1]) (simp add: spots)
    have "net_booked ns ls seen off ((u, ?spot) # hand)
        (put_tracer (track_injected_failures now (nd_id (nw_nodes nw1 ! i)) (d\<lparr>pkt_id := u, pkt_duplicate := True\<rparr>)
          True 0 False (nw_tracer nw3)) nw3)"
      by (rule hand_log [OF b3], simp) (use known_ids(1) [OF b1 i1] in
        \<open>simp add: step_fits_defs generic_event_def node_spot_def\<close>)
    with i3 show ?thesis by (intro booked_enqueue [OF _ _ e2]) (simp_all add: spots)
  qed
  have one: "net_booked ns ls seen off hand nw'"
    if "enqueue_at now i \<lparr>bp_in_node_since = now, bp_data = d\<rparr> nw1 = Inr nw'"
    using that by (rule booked_enqueue [OF _ i1, rotated]) (simp add: b1)
  show ?thesis
    using assms(4) lost one dup
    by (auto simp: send_to_next_hop_def r u Let_def bind_ok_Inr_iff split: if_splits)
qed

lemma booked_forward:
  assumes "fresh_ids ops seen" and "net_booked ns ls seen off ((pkt_id d, w) # hand) nw"
    and "\<forall>j. w \<noteq> Some (In j)" and "i < length (nw_nodes nw)" and "forward ops now i d nw = Inr nw'"
  shows "net_booked ns ls seen off hand nw'"
proof -
  let ?n = "nw_nodes nw ! i"
  let ?t = "track_packet_in_node now (nd_id ?n) d (nw_tracer nw)"
  note id = known_ids(1) [OF assms(2,4)]
  have there: "net_booked ns ls seen off ((pkt_id d, node_spot ?n) # hand) (put_tracer ?t nw)"
    by (rule hand_log [OF assms(2)], simp add: track_defs) (use assms(3) id in
      \<open>auto simp: step_fits_defs node_spot_def split: option.split spot.split\<close>)
  have down: "net_booked ns ls seen off hand
      (put_tracer (track_dropped_on_arrival now (nd_id ?n) d (nw_tracer nw)) nw)"
    by (rule hand_drop, rule hand_log [OF assms(2), where v = "if w = None then node_spot ?n else None"],
        simp add: track_defs)
      (use assms(3) id in \<open>auto simp: step_fits_defs node_spot_def split: option.split spot.split\<close>)
  have on: "net_booked ns ls seen off hand nw'"
    if "send_to_next_hop ops now i d (put_tracer ?t nw) = Inr nw'"
    by (rule booked_send_to_next_hop [OF assms(1) _ _ that]) (use there assms(4) in simp_all)
  have host: "net_booked ns ls seen off hand (deliver_to_endpoint now i e d (put_tracer ?t nw))"
    if "nd_udp_endpoint ?n = Some e" for e
    unfolding deliver_to_endpoint_def
    by (rule hand_to_host [OF there])
      (use that assms(4) in \<open>simp_all add: host_items_def channel_items_def node_spot_def queue_send_def\<close>)
  show ?thesis
    using assms(5) down on host
    by (auto simp: forward_def Let_def split: if_splits option.splits)
qed

section \<open>Links, endpoints and events\<close>

lemma booked_forward_delivered:
  assumes "fresh_ids ops seen"
    and "net_booked ns ls seen off ((pkt_id (dt_data d), link_spot (nw_links nw ! l)) # hand) nw"
    and "forward_delivered ops now l nw d = Inr nw'" and "l < length (nw_links nw)"
  shows "net_booked ns ls seen off hand nw'"
proof (cases "was_down_after (dt_sent d) (nw_links nw ! l)")
  case True
  have "net_booked ns ls seen off hand
      (put_tracer (track_lost_in_transit now (nl_id (nw_links nw ! l)) (dt_data d) (nw_tracer nw)) nw)"
    by (rule hand_drop [OF hand_log [OF assms(2), where v = None]], simp add: track_defs)
      (use known_ids(2) [OF assms(2,4)] in \<open>simp add: step_fits_defs link_spot_def\<close>)
  with True assms(3) show ?thesis by (simp add: forward_delivered_def)
next
  case False
  with assms(3) obtain i where i: "nw_nodes_by_addr nw (nl_target (nw_links nw ! l)) = Some i"
    and f: "forward ops now i (dt_data d) nw = Inr nw'"
    by (auto simp: forward_delivered_def split: option.splits)
  have "i < length (nw_nodes nw)"
    using net_bookedD(1) [OF assms(2)] i by (auto simp: known_def in_bounds_def)
  from booked_forward [OF assms(1,2) _ this f] show ?thesis by (simp add: link_spot_def)
qed

lemma booked_forward_all:
  assumes "fresh_ids ops seen" and "fold_ok (forward_delivered ops now l) nw ds = Inr nw'"
    and "net_booked ns ls seen off (map (\<lambda>d. (pkt_id (dt_data d), link_spot (nw_links nw ! l))) ds) nw"
    and "l < length (nw_links nw)"
  shows "net_booked ns ls seen off [] nw'"
  using assms(2-4)
proof (induction ds arbitrary: nw)
  case (Cons d ds)
  then obtain nw1 where d: "forward_delivered ops now l nw d = Inr nw1"
    and ds: "fold_ok (forward_delivered ops now l) nw1 ds = Inr nw'"
    by (auto simp: bind_ok_Inr_iff)
  have "nw_links nw1 = nw_links nw" using at_nodes_forward_delivered [OF d] by (simp add: at_nodes_def)
  with booked_forward_delivered [OF assms(1) _ d Cons.prems(3)] Cons.prems(2)
  have "net_booked ns ls seen off (map (\<lambda>d. (pkt_id (dt_data d), link_spot (nw_links nw1 ! l))) ds) nw1"
    by simp
  with Cons.IH [OF ds] Cons.prems(3) \<open>nw_links nw1 = nw_links nw\<close> show ?case by simp
qed simp

text \<open>Whatever a poll delivers is the front of the queue.\<close>

lemma poll_front:
  assumes "poll now w f q = (r, f', q')"
  obtains ds where "iq_queue q = ds @ iq_queue q'"
    and "r = (if ds = [] then Pending else Ready (map to_delivered ds))"
proof (cases "np_max_transmits f")
  case 0
  with assms have "r = Pending" "iq_queue q' = iq_queue q"
    by (auto simp: poll_def poll_loop.simps split: prod.splits loop_exit.splits)
  then show ?thesis using that [of "[]"] by simp
next
  case (Suc m)
  then have m: "0 < np_max_transmits f" by simp
  show ?thesis
    using that [of "delivered_of now f q"] poll_spec(1,2) [OF m assms] delivered_of_take [of now f q]
    by (metis append_take_drop_id)
qed

lemma booked_read:
  assumes "net_booked ns ls seen off (map (\<lambda>d. (pkt_id (dt_data d), node_spot (nw_nodes nw ! i))) ds @ hand) nw"
    and "i < length (nw_nodes nw)"
  shows "net_booked ns ls seen off hand
    (put_tracer (fold (\<lambda>d. track_read_by_host now (nd_id (nw_nodes nw ! i)) (dt_data d)) ds (nw_tracer nw)) nw)"
  using assms
proof (induction ds arbitrary: nw)
  case Nil
  then show ?case by (simp add: net_booked_silent)
next
  case (Cons d ds)
  let ?t = "track_read_by_host now (nd_id (nw_nodes nw ! i)) (dt_data d) (nw_tracer nw)"
  have b: "net_booked ns ls seen off
      ((pkt_id (dt_data d), node_spot (nw_nodes nw ! i)) #
        map (\<lambda>d. (pkt_id (dt_data d), node_spot (nw_nodes nw ! i))) ds @ hand) nw"
    using Cons.prems(1) by simp
  have "net_booked ns ls seen off (map (\<lambda>d. (pkt_id (dt_data d), node_spot (nw_nodes nw ! i))) ds @ hand)
      (put_tracer ?t nw)"
    by (rule hand_drop [OF hand_log [OF b, where v = None]], simp add: track_defs)
      (use known_ids(1) [OF b Cons.prems(2)] in \<open>simp add: step_fits_defs node_spot_def generic_event_def\<close>)
  with Cons.IH [of "put_tracer ?t nw"] Cons.prems(2) show ?case by simp
qed

lemma booked_process_event:
  assumes "net_booked ns ls seen off hand nw"
  shows "net_booked ns ls seen off hand (process_event now k nw)"
proof (cases k)
  case (LinkEvent e)
  show ?thesis
  proof (cases "nw_links_by_id nw (lep_link_id e)")
    case (Some l)
    have id: "lep_link_id e \<in> ls" using assms Some by (auto simp: net_booked_def known_def)
    have "net_booked ns ls seen off hand (put_link l (case lep_status e of None \<Rightarrow> nw_links nw ! l
        | Some st \<Rightarrow> link_update_status st now (nw_links nw ! l)) nw)"
      by (rule net_booked_put_link [OF assms])
        (auto simp: flight_items_def link_spot_def link_update_status_def
          split: option.split status.splits update_link_status.splits)
    then show ?thesis
      using LinkEvent Some id
      by (auto simp: process_event_def process_link_event_def Let_def step_fits_defs
          intro!: net_booked_event [where st = "step_at now (nw_tracer nw) (NetworkEvent (Some e) None)"])
  qed (use assms LinkEvent in \<open>simp add: process_event_def process_link_event_def\<close>)
next
  case (NodeEvent e)
  show ?thesis
  proof (cases "nw_nodes_by_id nw (nep_node_id e)")
    case (Some i)
    have id: "nep_node_id e \<in> ns" using assms Some by (auto simp: net_booked_def known_def)
    let ?n = "case nep_status e of None \<Rightarrow> nw_nodes nw ! i | Some st \<Rightarrow> node_update_status st (nw_nodes nw ! i)"
    have "net_booked ns ls seen off hand (put_node i (if nep_clear_buffer e then clear_buffer now ?n else ?n) nw)"
      by (rule net_booked_put_node [OF assms])
        (auto simp: host_items_def channel_items_def node_spot_def split: option.split)
    then show ?thesis
      using NodeEvent Some id
      by (auto simp: process_event_def process_node_event_def Let_def step_fits_defs
          intro!: net_booked_event [where st = "step_at now (nw_tracer nw) (NetworkEvent None (Some e))"])
  qed (use assms NodeEvent in \<open>simp add: process_event_def process_node_event_def\<close>)
qed

lemma booked_offer:
  assumes "fresh_ids ops seen" and "net_booked ns ls seen off hand nw"
  shows "net_booked ns ls seen off hand (offer_packet ops i p links h l nw)"
proof -
  obtain a nw1 where a: "generate_packet_anomalies ops l nw = (a, nw1)"
    by (cases "generate_packet_anomalies ops l nw")
  then have "net_booked ns ls seen off hand nw1"
    by (auto simp: generate_packet_anomalies_def Let_def split: prod.splits
        intro: net_booked_roll [OF assms(1) net_booked_roll [OF assms]])
  then show ?thesis
    unfolding offer_packet_def a prod.case Let_def
    by (rule net_booked_put_link) (simp_all add: flight_items_def link_spot_def)
qed

lemma booked_offers:
  assumes "fresh_ids ops seen" and "net_booked ns ls seen off hand nw"
  shows "net_booked ns ls seen off hand (fold (offer_packet ops i p links h) ks nw)"
  using assms(2) by (induction ks arbitrary: nw) (auto intro: booked_offer [OF assms(1)])

end
