(* ===== verification/Connectivity.thy ===== *)
theory Connectivity
  imports Network_Replay
begin

text \<open>
  The check before a QUIC run that two hosts reach each other, \<^verbatim>\<open>assert_connectivity_between_hosts\<close> of
  \<^verbatim>\<open>network/mod.rs\<close>: packets both ways every minute, then one delivery is awaited at each host. The task
  is a state machine over its await points; it runs beside the tasks of the network. The lemmas
  show that its unwraps cannot fail, what a success says, and that it ends.
\<close>

section \<open>The task\<close>

definition check_attempts :: nat where "check_attempts = 100"
definition check_pause :: duration where "check_pause = millis 60000"
definition check_timeout :: duration where "check_timeout = millis (3600 * 24 * 90 * 1000)"

text \<open>
  \<open>Rounds k t\<close>: \<open>k\<close> attempts are left and the task sleeps until \<open>t\<close>. \<open>AwaitFirst\<close> and \<open>AwaitSecond\<close> hold
  the deadline of the timeout and the future of the delivery; the result of the first wait is None
  after a timeout. An error says which directions failed.
\<close>

datatype check_phase =
    Rounds nat instant
  | AwaitFirst instant next_packet_delivery
  | AwaitSecond "delivered_transmit list option" instant next_packet_delivery
  | Finished "bool \<times> bool + duration \<times> duration"

record 'r connectivity_check =
  cc_sim :: "'r simulation"
  cc_phase :: check_phase

definition check_new :: "'r simulation \<Rightarrow> 'r connectivity_check" where
  "check_new s = \<lparr>cc_sim = s, cc_phase = Rounds check_attempts (sim_now s)\<rparr>"

definition send_probe ::
  "'r rng_ops \<Rightarrow> nat \<Rightarrow> nat \<Rightarrow> 'r simulation \<Rightarrow> panic + 'r simulation" where
  "send_probe ops source target s =
     (case quic_addr (sim_node s target) of
        None \<Rightarrow> Inl NotAHost
      | Some addr \<Rightarrow>
          send_from ops source
            \<lparr>tx_destination = addr, tx_ecn = None, tx_contents = [42], tx_segment_size = None\<rparr> s)"

definition poll_host ::
  "nat \<Rightarrow> waker \<Rightarrow> next_packet_delivery \<Rightarrow> 'r simulation \<Rightarrow>
   panic + poll_result \<times> next_packet_delivery \<times> 'r simulation" where
  "poll_host i w f s =
     (let n = sim_node s i in
      case nd_udp_endpoint n of
        None \<Rightarrow> Inl NotAHost
      | Some endpoint \<Rightarrow>
          (case poll (sim_now s) w f (ue_inbound endpoint) of
             (r, f', q) \<Rightarrow>
               Inr (r, f', s\<lparr>sim_network := put_node i
                 (n\<lparr>nd_udp_endpoint := Some (endpoint\<lparr>ue_inbound := q\<rparr>)\<rparr>) (sim_network s)\<rparr>)))"

definition arrival_of_first ::
  "simulation_stepper \<Rightarrow> delivered_transmit list \<Rightarrow> id \<Rightarrow> panic + duration" where
  "arrival_of_first steps ds node =
     (case ds of
        [] \<Rightarrow> Inl IndexOutOfBounds
      | d # _ \<Rightarrow>
          (case get_packet_arrived_at steps (pkt_id (dt_data d)) node of
             None \<Rightarrow> Inl UnwrappedNone | Some t \<Rightarrow> Inr t))"

definition finish_check ::
  "nat \<Rightarrow> nat \<Rightarrow> delivered_transmit list option \<Rightarrow> delivered_transmit list option \<Rightarrow> 'r simulation \<Rightarrow>
   panic + 'r connectivity_check" where
  "finish_check a b a_to_b b_to_a s =
     (case (a_to_b, b_to_a) of
        (Some ds, Some es) \<Rightarrow>
          (let steps = tr_recorded_steps (nw_tracer (sim_network s)) in
           bind_ok (arrival_of_first steps ds (nd_id (sim_node s b))) (\<lambda>t.
           bind_ok (arrival_of_first steps es (nd_id (sim_node s a))) (\<lambda>u.
           Inr \<lparr>cc_sim = s, cc_phase = Finished (Inr (t, u))\<rparr>)))
      | _ \<Rightarrow> Inr \<lparr>cc_sim = s, cc_phase = Finished (Inl (a_to_b = None, b_to_a = None))\<rparr>)"

text \<open>A timeout polls its future first and gives up when that is pending and the deadline has come.\<close>

definition await_second ::
  "nat \<Rightarrow> nat \<Rightarrow> waker \<Rightarrow> delivered_transmit list option \<Rightarrow> instant \<Rightarrow> next_packet_delivery \<Rightarrow>
   'r simulation \<Rightarrow> panic + 'r connectivity_check" where
  "await_second a b w a_to_b deadline f s =
     bind_ok (poll_host a w f s) (\<lambda>(r, f', s').
       case r of
         Ready es \<Rightarrow> finish_check a b a_to_b (Some es) s'
       | Pending \<Rightarrow>
           if deadline \<le> sim_now s' then finish_check a b a_to_b None s'
           else Inr \<lparr>cc_sim = s', cc_phase = AwaitSecond a_to_b deadline f'\<rparr>)"

definition await_first ::
  "nat \<Rightarrow> nat \<Rightarrow> waker \<Rightarrow> instant \<Rightarrow> next_packet_delivery \<Rightarrow> 'r simulation \<Rightarrow>
   panic + 'r connectivity_check" where
  "await_first a b w deadline f s =
     bind_ok (poll_host b w f s) (\<lambda>(r, f', s').
       let next = (\<lambda>a_to_b. await_second a b w a_to_b (sim_now s' + check_timeout)
                              (next_packet_delivery_new 1) s')
       in case r of
            Ready ds \<Rightarrow> next (Some ds)
          | Pending \<Rightarrow>
              if deadline \<le> sim_now s' then next None
              else Inr \<lparr>cc_sim = s', cc_phase = AwaitFirst deadline f'\<rparr>)"

definition check_poll ::
  "'r rng_ops \<Rightarrow> nat \<Rightarrow> nat \<Rightarrow> waker \<Rightarrow> 'r connectivity_check \<Rightarrow> panic + 'r connectivity_check" where
  "check_poll ops a b w c =
     (let s = cc_sim c in
      case cc_phase c of
        Rounds left until \<Rightarrow>
          if sim_now s < until then Inr c
          else (case left of
                  0 \<Rightarrow> await_first a b w (sim_now s + check_timeout) (next_packet_delivery_new 1) s
                | Suc k \<Rightarrow>
                    bind_ok (send_probe ops a b s) (\<lambda>s1.
                    bind_ok (send_probe ops b a s1) (\<lambda>s2.
                    Inr \<lparr>cc_sim = s2, cc_phase = Rounds k (sim_now s2 + check_pause)\<rparr>)))
      | AwaitFirst deadline f \<Rightarrow> await_first a b w deadline f s
      | AwaitSecond a_to_b deadline f \<Rightarrow> await_second a b w a_to_b deadline f s
      | Finished _ \<Rightarrow> Inr c)"

section \<open>The check beside the network\<close>

datatype check_label = Background label | PollCheck waker

definition check_step ::
  "'r rng_ops \<Rightarrow> nat \<Rightarrow> nat \<Rightarrow> check_label \<Rightarrow> 'r connectivity_check \<Rightarrow> panic + 'r connectivity_check" where
  "check_step ops a b lab c =
     (case lab of
        Background l \<Rightarrow> map_sum id (\<lambda>s. c\<lparr>cc_sim := s\<rparr>) (sim_step ops l (cc_sim c))
      | PollCheck w \<Rightarrow> check_poll ops a b w c)"

section \<open>Every packet at a host has been logged there\<close>

definition host_name :: "node \<Rightarrow> id \<times> socket_addr option" where
  "host_name n = (nd_id n, quic_addr n)"

definition host_queue :: "node \<Rightarrow> prioritized_in_transit_data list" where
  "host_queue n = (case nd_udp_endpoint n of None \<Rightarrow> [] | Some e \<Rightarrow> iq_queue (ue_inbound e))"

definition arrival_step :: "id \<Rightarrow> in_transit_data \<Rightarrow> simulation_step \<Rightarrow> bool" where
  "arrival_step node d st \<longleftrightarrow>
     st_kind st = PacketInNode
       \<lparr>pin_packet_id = pkt_id d, pin_packet_number = pkt_number d, pin_packet_size_bytes = pkt_size d,
        pin_node_id = node, pin_dropped_on_arrival = False\<rparr>"

definition arrived :: "simulation_step list \<Rightarrow> id \<times> socket_addr option \<Rightarrow> in_transit_data \<Rightarrow> bool" where
  "arrived trace host d \<longleftrightarrow>
     snd host = Some (tx_destination (pkt_transmit d)) \<and> (\<exists>st \<in> set trace. arrival_step (fst host) d st)"

definition heard :: "(id \<times> socket_addr option) list \<Rightarrow> 'r network \<Rightarrow> bool" where
  "heard hosts nw \<longleftrightarrow>
     map host_name (nw_nodes nw) = hosts \<and>
     (\<forall>i < length hosts. \<forall>p \<in> set (host_queue (nw_nodes nw ! i)).
        arrived (log_of (nw_tracer nw)) (hosts ! i) (pd_data p))"

text \<open>What does not deliver to a host.\<close>

definition node_quiet :: "node \<Rightarrow> node \<Rightarrow> bool" where
  "node_quiet n n' \<longleftrightarrow> host_name n' = host_name n \<and> set (host_queue n') \<subseteq> set (host_queue n)"

definition quiet_step :: "'r network \<Rightarrow> 'r network \<Rightarrow> bool" where
  "quiet_step nw nw' \<longleftrightarrow>
     length (nw_nodes nw') = length (nw_nodes nw) \<and>
     (\<forall>i < length (nw_nodes nw). node_quiet (nw_nodes nw ! i) (nw_nodes nw' ! i)) \<and>
     set (log_of (nw_tracer nw)) \<subseteq> set (log_of (nw_tracer nw'))"

lemma node_quiet_simps [simp]:
  "node_quiet n n" "node_quiet n (node_update_status u n)" "node_quiet n (clear_buffer now n)"
  "node_quiet n (clear_buffer now (node_update_status u n))"
  "node_quiet n (n\<lparr>nd_outbound_buffer := b\<rparr>)" "node_quiet n (n\<lparr>nd_outbound := q, nd_receiver := r\<rparr>)"
  "node_quiet n (n\<lparr>nd_outbound := q\<rparr>)" "node_quiet n (n\<lparr>nd_outbound_buffer := b, nd_outbound := q\<rparr>)"
  by (simp_all add: node_quiet_def host_name_def host_queue_def quic_addr_def node_update_status_def
      clear_buffer_def split: update_node_status.split status.split)

lemma quiet_refl [simp]: "quiet_step nw nw"
  by (simp add: quiet_step_def)

lemma quiet_trans: "quiet_step x y \<Longrightarrow> quiet_step y z \<Longrightarrow> quiet_step x z"
  unfolding quiet_step_def node_quiet_def by (metis subset_trans)

lemma quiet_put:
  "node_quiet (nw_nodes nw ! i) n \<Longrightarrow> quiet_step nw (put_node i n nw)"
  "grows now (nw_tracer nw) t \<Longrightarrow> quiet_step nw (put_tracer t nw)" "quiet_step nw (put_link l k nw)"
  "quiet_step nw (nw\<lparr>nw_rng := r\<rparr>)" "quiet_step nw (nw\<lparr>nw_next_transmit_number := m\<rparr>)"
  by (auto simp: quiet_step_def nth_list_update_if grows_def)

lemma quiet_put_tracer:
  "quiet_step nw nw' \<Longrightarrow> grows now (nw_tracer nw') t \<Longrightarrow> quiet_step nw (put_tracer t nw')"
  using quiet_trans quiet_put(2) by blast

lemma heard_quiet:
  assumes "heard hosts nw" and "quiet_step nw nw'"
  shows "heard hosts nw'"
proof -
  have "map host_name (nw_nodes nw') = map host_name (nw_nodes nw)"
    using assms(2) by (intro nth_equalityI) (simp_all add: quiet_step_def node_quiet_def)
  moreover have "arrived (log_of (nw_tracer nw')) h d" if "arrived (log_of (nw_tracer nw)) h d" for h d
    using that assms(2) by (auto simp: arrived_def quiet_step_def)
  moreover have "p \<in> set (host_queue (nw_nodes nw ! i))"
    if "i < length hosts" "p \<in> set (host_queue (nw_nodes nw' ! i))" for i p
    using that assms by (auto simp: heard_def quiet_step_def node_quiet_def)
  ultimately show ?thesis using assms(1) unfolding heard_def by metis
qed

lemma heard_put_tracer:
  "grows now (nw_tracer nw) t \<Longrightarrow> heard hosts nw \<Longrightarrow> heard hosts (put_tracer t nw)"
  by (blast intro: heard_quiet quiet_put(2))

section \<open>The network keeps it\<close>

lemma quiet_rng:
  "roll_f64 ops nw = (x, nw') \<Longrightarrow> quiet_step nw nw'"
  "new_packet_id ops nw = (u, nw') \<Longrightarrow> quiet_step nw nw'"
  by (auto simp: roll_f64_def new_packet_id_def quiet_put split: prod.splits)

lemma quiet_in_transit_data:
  "in_transit_data ops i tx nw = Inr (d, nw') \<Longrightarrow> quiet_step nw nw'"
  by (auto simp: in_transit_data_def Let_def split: prod.splits option.splits
      intro: quiet_trans [OF quiet_rng(2) quiet_put(5)])

lemma quiet_enqueue:
  assumes "enqueue_at now i p nw = Inr nw'"
  shows "quiet_step nw nw'"
proof -
  obtain n t where e: "enqueue_outbound now p (nw_nodes nw ! i, nw_tracer nw) = Inr (n, t)"
    and nw': "nw' = put_tracer t (put_node i n nw)"
    using assms by (auto simp: enqueue_at_def map_sum_id_Inr)
  have n: "node_quiet (nw_nodes nw ! i) n" and "grows now (nw_tracer nw) t"
    using e by (auto simp: enqueue_outbound_def Let_def split: prod.splits bool.splits if_splits)
  then have "quiet_step (put_node i n nw) nw'"
    unfolding nw' by (intro quiet_put(2)) simp
  with quiet_put(1) [OF n] show ?thesis by (rule quiet_trans)
qed

lemma quiet_send_to_next_hop:
  assumes "send_to_next_hop ops now i d nw = Inr nw'"
  shows "quiet_step nw nw'"
proof -
  obtain roll nw1 where r: "roll_f64 ops nw = (roll, nw1)" by (cases "roll_f64 ops nw")
  obtain u nw2 where u: "new_packet_id ops nw1 = (u, nw2)" by (cases "new_packet_id ops nw1")
  have dup: "quiet_step nw1 nw'"
    if "enqueue_at now i p nw2 = Inr nw3"
      and "enqueue_at now i p' (put_tracer
             (track_injected_failures now n d' True 0 False (nw_tracer nw3)) nw3) = Inr nw'"
    for n p p' d' nw3
    using quiet_trans [OF quiet_rng(2) [OF u] quiet_trans [OF quiet_enqueue [OF that(1)]
        quiet_trans [OF quiet_put(2) [OF grows_duplicate] quiet_enqueue [OF that(2)]]]] .
  have "quiet_step nw1 nw'"
    using assms
    by (auto simp: send_to_next_hop_def r u Let_def bind_ok_Inr_iff split: if_splits
        intro: quiet_put(2) [OF grows_tracks(6)] quiet_enqueue dup)
  then show ?thesis using quiet_rng(1) [OF r] quiet_trans by blast
qed

text \<open>The one operation that delivers to a host logs the arrival before.\<close>

lemma heard_deliver:
  assumes "heard hosts nw" and "nd_udp_endpoint (nw_nodes nw ! i) = Some e" and "i < length (nw_nodes nw)"
    and "ue_addr e = tx_destination (pkt_transmit d)"
    and "\<exists>st \<in> set (log_of (nw_tracer nw)). arrival_step (nd_id (nw_nodes nw ! i)) d st"
  shows "heard hosts (deliver_to_endpoint now i e d nw)"
proof -
  let ?e = "e\<lparr>ue_inbound := fst (queue_send now (ue_inbound e) d 0)\<rparr>"
  let ?n = "(nw_nodes nw ! i)\<lparr>nd_udp_endpoint := Some ?e\<rparr>"
  have name: "host_name ?n = host_name (nw_nodes nw ! i)"
    by (simp add: host_name_def quic_addr_def assms(2))
  have q: "pd_data p = d \<or> p \<in> set (host_queue (nw_nodes nw ! i))" if "p \<in> set (host_queue ?n)" for p
    using that by (auto simp: host_queue_def queue_send_def set_heap_push assms(2))
  have "arrived (log_of (nw_tracer nw)) (host_name (nw_nodes nw ! i)) d"
    using assms(2,4,5) by (auto simp: arrived_def host_name_def quic_addr_def)
  moreover have "hosts ! i = host_name (nw_nodes nw ! i)" using assms(1,3) by (auto simp: heard_def)
  ultimately have d: "arrived (log_of (nw_tracer nw)) (hosts ! i) d" by simp
  let ?nw = "put_node i ?n nw"
  have "map host_name (nw_nodes ?nw) = hosts" using assms(1) by (simp add: heard_def name)
  moreover have "arrived (log_of (nw_tracer nw)) (hosts ! j) (pd_data p)"
    if "j < length hosts" "p \<in> set (host_queue (nw_nodes ?nw ! j))" for j p
    using that d q [of p] assms(1) by (cases "j = i") (auto simp: heard_def)
  ultimately show ?thesis by (simp add: heard_def deliver_to_endpoint_def)
qed

lemma heard_forward:
  assumes "heard hosts nw" and "i < length (nw_nodes nw)" and "forward ops now i d nw = Inr nw'"
  shows "heard hosts nw'"
proof -
  let ?n = "nw_nodes nw ! i"
  let ?nw = "put_tracer (track_packet_in_node now (nd_id ?n) d (nw_tracer nw)) nw"
  have h: "heard hosts ?nw" using assms(1) by (rule heard_put_tracer [OF grows_tracks(3)])
  have "\<exists>st \<in> set (log_of (nw_tracer ?nw)). arrival_step (nd_id ?n) d st"
    by (simp add: track_packet_in_node_def arrival_step_def step_at_def)
  then have deliver: "heard hosts (deliver_to_endpoint now i e d ?nw)"
    if "nd_udp_endpoint ?n = Some e" "ue_addr e = tx_destination (pkt_transmit d)" for e
    using h that assms(2) by (intro heard_deliver) simp_all
  show ?thesis
    using assms(1,3) deliver heard_quiet [OF h quiet_send_to_next_hop]
    by (auto simp: forward_def Let_def split: if_splits option.splits
        intro: heard_put_tracer [OF grows_tracks(5)])
qed

lemma quiet_offer: "quiet_step nw (offer_packet ops i p links h l nw)"
proof -
  obtain a nw1 where a: "generate_packet_anomalies ops l nw = (a, nw1)"
    by (cases "generate_packet_anomalies ops l nw")
  then have "quiet_step nw nw1"
    by (auto simp: generate_packet_anomalies_def Let_def split: prod.splits
        intro: quiet_trans [OF quiet_rng(1) quiet_rng(1)])
  then show ?thesis
    unfolding offer_packet_def a prod.case Let_def by (rule quiet_trans [OF _ quiet_put(3)])
qed

lemma quiet_fold:
  assumes "\<And>x nw. quiet_step nw (f x nw)"
  shows "quiet_step nw (fold f xs nw)"
  using assms by (induction xs arbitrary: nw) (auto intro: quiet_trans)

lemma quiet_process_event: "quiet_step nw (process_event now k nw)"
proof -
  have "quiet_step nw (process_link_event now e nw)" for e
    by (auto simp: process_link_event_def Let_def split: option.split
        intro!: quiet_put_tracer [where now = now] quiet_put(3))
  moreover have "quiet_step nw (process_node_event now e nw)" for e
    by (auto simp: process_node_event_def Let_def split: option.split
        intro!: quiet_put_tracer [where now = now] intro: quiet_put(1))
  ultimately show ?thesis by (simp add: process_event_def split: network_event_kind.split)
qed

lemma heard_link_queue:
  assumes "heard hosts (sim_network s)" and "process_link_queue l s = Inr s'"
  shows "heard hosts (sim_network s')"
proof (rule link_task_rule [where H = "\<lambda>p s. heard hosts (sim_network s)" and G = "\<lambda>s. heard hosts (sim_network s)"])
  show "heard hosts (sim_network t')"
    if h: "heard hosts (sim_network t)" and r: "ready_to_send l p t = Inr t'" for p and t t' :: "'a simulation"
    using r
  proof (cases rule: ready_to_send_cases)
    case cleared
    with h show ?thesis
      by (auto simp: put_phase_def intro: heard_put_tracer [OF grows_tracks(7)])
  next
    case (sent link n tr)
    from sent(3) obtain q pc b d where link: "link = (sim_link t l)\<lparr>nl_pacer := pc, nl_in_transit := q\<rparr>"
      and n: "n = (sim_node t (op_src_node p))\<lparr>nd_outbound_buffer := b\<rparr>"
      and tr: "grows (sim_now t) (nw_tracer (sim_network t)) tr"
      by (elim link_send_InrE) auto
    have "quiet_step (sim_network t) (put_tracer tr (put_link l link (put_node (op_src_node p) n (sim_network t))))"
      by (rule quiet_put_tracer [OF quiet_trans [OF quiet_put(1) quiet_put(3)]]) (use n tr in auto)
    with sent(4) heard_quiet [OF h] show ?thesis by simp
  qed (use h in \<open>auto simp: put_phase_def\<close>)
qed (use assms heard_quiet [OF _ quiet_put(3)] in \<open>auto simp: put_phase_def set_link_def\<close>)

lemma heard_forward_delivered:
  assumes "heard hosts nw \<and> tables_ok nw" and "forward_delivered ops now l nw d = Inr nw'"
  shows "heard hosts nw' \<and> tables_ok nw'"
proof
  have "i < length (nw_nodes nw)" if "nw_nodes_by_addr nw a = Some i" for i a
    using assms(1) that by (auto simp: tables_ok_def dest: in_boundsD)
  with assms show "heard hosts nw'"
    by (auto simp: forward_delivered_def Let_def split: if_splits option.splits
        intro: heard_put_tracer [OF grows_tracks(8)] heard_forward)
  show "tables_ok nw'"
    using assms(1) at_nodes_forward_delivered [OF assms(2)] tables_ok_same by (auto simp: at_nodes_def)
qed

lemma heard_forwarder:
  assumes "heard hosts (sim_network s)" and "tables_ok (sim_network s)"
    and "forward_packets_from_link_to_node ops l s = Inr s'"
  shows "heard hosts (sim_network s')"
proof -
  obtain r f q where p: "poll (sim_now s) l (sim_forwarders s ! l) (nl_in_transit (sim_link s l)) = (r, f, q)"
    by (cases "poll (sim_now s) l (sim_forwarders s ! l) (nl_in_transit (sim_link s l))")
  let ?nw = "put_link l ((sim_link s l)\<lparr>nl_in_transit := q\<rparr>) (sim_network s)"
  have h: "heard hosts ?nw" by (rule heard_quiet [OF assms(1) quiet_put(3)])
  have t: "tables_ok ?nw" using assms(2) by (simp add: tables_ok_def)
  have "heard hosts nw \<and> tables_ok nw"
    if "fold_ok (forward_delivered ops (sim_now s) l) ?nw ds = Inr nw" for ds nw
    using that by (rule fold_ok_invariant) (use h t heard_forward_delivered in blast)+
  with assms(3) p h show ?thesis
    by (auto simp: forward_packets_from_link_to_node_def Let_def set_link_def map_sum_id_Inr
        split: poll_result.splits)
qed

lemma quiet_polled:
  assumes "nd_udp_endpoint n = Some e" and "poll now w f (ue_inbound e) = (r, f', q)"
  shows "node_quiet n (n\<lparr>nd_udp_endpoint := Some (e\<lparr>ue_inbound := q\<rparr>)\<rparr>)"
  using assms(2) by (rule poll_front)
    (auto simp: node_quiet_def host_name_def host_queue_def quic_addr_def assms(1))

lemma heard_read_at:
  assumes "heard hosts (sim_network s)" and "read_at i w m s = Inr (ds, s')"
  shows "heard hosts (sim_network s')"
proof -
  let ?n = "sim_node s i"
  obtain e where e: "nd_udp_endpoint ?n = Some e"
    using assms(2) by (auto simp: read_at_def Let_def split: option.splits)
  define fu where "fu = (case sim_sockets s ! i of Some f \<Rightarrow> f | None \<Rightarrow> next_packet_delivery_new m)"
  obtain r f q where p: "poll (sim_now s) w fu (ue_inbound e) = (r, f, q)"
    by (cases "poll (sim_now s) w fu (ue_inbound e)")
  let ?nw = "put_node i (?n\<lparr>nd_udp_endpoint := Some (e\<lparr>ue_inbound := q\<rparr>)\<rparr>) (sim_network s)"
  have h: "heard hosts ?nw" by (rule heard_quiet [OF assms(1) quiet_put(1)]) (rule quiet_polled [OF e p])
  then have "heard hosts (put_tracer (fold (\<lambda>d. track_read_by_host (sim_now s) k (dt_data d)) xs (nw_tracer ?nw)) ?nw)"
    for k xs by (rule heard_put_tracer [OF grows_fold_read])
  with h show ?thesis
    using assms(2) p e by (auto simp: read_at_def Let_def fu_def [symmetric] split: poll_result.splits)
qed

lemma heard_step:
  assumes "heard hosts (sim_network s)" and "tables_ok (sim_network s)" and "sim_step ops lab s = Inr s'"
  shows "heard hosts (sim_network s')"
proof (cases lab)
  case (RunNode i)
  show ?thesis
  proof (cases "i < length (nw_nodes (sim_network s))")
    case True
    with assms(3) RunNode have "process_buffer_for_node ops i s = Inr s'" by (simp add: sim_step_def)
    then show ?thesis
    proof (cases rule: process_buffer_cases)
      case no_route
      with heard_quiet [OF assms(1) quiet_put(1)] show ?thesis by simp
    next
      case (offered p rest ls)
      have "quiet_step (sim_network s) (sim_network s')"
        unfolding offered(2) by (simp, rule quiet_trans [OF quiet_put(1) quiet_fold]) (simp_all add: quiet_offer)
      with assms(1) show ?thesis by (rule heard_quiet)
    qed (use assms(1) in simp)
  qed (use assms(1,3) RunNode in \<open>simp add: sim_step_def\<close>)
next
  case (RunLink l)
  with assms heard_link_queue show ?thesis by (auto simp: sim_step_def split: if_splits)
next
  case (RunForwarder l)
  with assms heard_forwarder show ?thesis by (auto simp: sim_step_def split: if_splits)
next
  case (Transmit i u)
  have "heard hosts (sim_network s')" if i: "i < length (nw_nodes (sim_network s))" and sent: "send_from ops i u s = Inr s'"
  proof -
    obtain d nw nw' where d: "in_transit_data ops i u (sim_network s) = Inr (d, nw)"
      and nw': "forward ops (sim_now s) i d nw = Inr nw'" and s': "s' = s\<lparr>sim_network := nw'\<rparr>"
      using sent by (auto simp: send_from_def bind_ok_Inr_iff map_sum_id_Inr)
    have "heard hosts nw" by (rule heard_quiet [OF assms(1) quiet_in_transit_data [OF d]])
    moreover have "i < length (nw_nodes nw)" using i quiet_in_transit_data [OF d] by (simp add: quiet_step_def)
    ultimately show ?thesis using heard_forward [OF _ _ nw'] by (simp add: s')
  qed
  with assms(1,3) Transmit show ?thesis by (auto simp: sim_step_def split: if_splits)
next
  case (Receive i w m)
  with assms heard_read_at show ?thesis by (auto simp: sim_step_def map_sum_id_Inr split: if_splits)
next
  case RunEvents
  with assms heard_quiet [OF assms(1) quiet_process_event] show ?thesis
    by (auto simp: sim_step_def run_events_def split: list.splits if_splits)
qed (use assms in \<open>auto simp: sim_step_def\<close>)

section \<open>The check keeps it too\<close>

definition sim_ok :: "(id \<times> socket_addr option) list \<Rightarrow> 'r simulation \<Rightarrow> bool" where
  "sim_ok hosts s \<longleftrightarrow> clock_ok s \<and> tables_ok (sim_network s) \<and> heard hosts (sim_network s)"

abbreviation sim_log :: "'r simulation \<Rightarrow> simulation_step list" where
  "sim_log s \<equiv> log_of (nw_tracer (sim_network s))"

text \<open>A step goes on with the same hosts, and its log only grows.\<close>

definition goes_on :: "(id \<times> socket_addr option) list \<Rightarrow> 'r simulation \<Rightarrow> 'r simulation \<Rightarrow> bool" where
  "goes_on hosts s s' \<longleftrightarrow> sim_ok hosts s' \<and> (\<exists>steps. sim_log s' = sim_log s @ steps)"

lemma goes_on_trans: "goes_on hosts s t \<Longrightarrow> goes_on hosts t u \<Longrightarrow> goes_on hosts s u"
  by (auto simp: goes_on_def)

lemma goes_on_evolves:
  assumes "sim_ok hosts s" and "sim_evolves s s'" and "heard hosts (sim_network s')"
  shows "goes_on hosts s s'"
  using assms clock_ok_evolves [OF _ assms(2)] tables_ok_same
  by (auto simp: goes_on_def sim_ok_def sim_evolves_def evolves_def grows_def)

lemma goes_on_step:
  assumes "sim_ok hosts s" and "sim_step ops lab s = Inr s'"
  shows "goes_on hosts s s' \<and> ((\<forall>d. lab \<noteq> Tick d) \<longrightarrow> sim_now s' = sim_now s)"
proof (cases "\<exists>d. lab = Tick d")
  case True
  then obtain d where lab: "lab = Tick d" and s': "s' = s\<lparr>sim_now := sim_now s + d\<rparr>"
    using assms(2) by (auto simp: sim_step_def)
  have "clock_ok s'"
    using clock_ok_step [of s ops lab s'] assms by (simp add: sim_ok_def net_step_def)
  with assms(1) show ?thesis by (simp add: goes_on_def sim_ok_def s' lab)
next
  case False
  with assms have "sim_evolves s s'" by (intro sim_step_evolves) (auto simp: sim_ok_def)
  with goes_on_evolves [OF assms(1)] heard_step [OF _ _ assms(2)] assms(1) show ?thesis
    by (simp add: sim_ok_def sim_evolves_def)
qed

definition checked :: "('c \<Rightarrow> bool) \<Rightarrow> panic + 'c \<Rightarrow> bool" where
  "checked P r \<longleftrightarrow> (case r of Inl e \<Rightarrow> (\<exists>i. e = ReceiverDropped i) | Inr c \<Rightarrow> P c)"

lemma checked_simps [simp]: "checked P (Inr c) \<longleftrightarrow> P c" "checked P (Inl e) \<longleftrightarrow> (\<exists>i. e = ReceiverDropped i)"
  by (simp_all add: checked_def)

lemma checked_bind:
  "checked P r \<Longrightarrow> (\<And>x. P x \<Longrightarrow> checked Q (f x)) \<Longrightarrow> checked Q (bind_ok r f)"
  by (cases r) simp_all

lemma checked_mono: "checked P r \<Longrightarrow> (\<And>x. r = Inr x \<Longrightarrow> P x \<Longrightarrow> Q x) \<Longrightarrow> checked Q r"
  by (cases r) simp_all

lemma enqueue_checked: "checked (\<lambda>_. True) (enqueue_at now i p nw)"
  by (auto simp: enqueue_at_def enqueue_outbound_def Let_def split: prod.split bool.split)

lemma forward_checked: "checked (\<lambda>_. True) (forward ops now i d nw)"
proof -
  have "checked (\<lambda>_. True) (send_to_next_hop ops now i d nw)" for nw
    by (auto simp: send_to_next_hop_def Let_def enqueue_checked split: prod.split
        intro!: checked_bind [OF enqueue_checked])
  then show ?thesis by (simp add: forward_def Let_def split: option.split)
qed

lemma send_checked:
  assumes "sim_ok hosts s" and "i < length hosts" and "snd (hosts ! i) \<noteq> None"
    and "j < length hosts" and "snd (hosts ! j) \<noteq> None"
  shows "checked (\<lambda>s'. goes_on hosts s s' \<and> sim_now s' = sim_now s) (send_probe ops i j s)"
proof -
  have names: "hosts ! k = host_name (sim_node s k)" "k < length (nw_nodes (sim_network s))"
    if "k < length hosts" for k using assms(1) that by (auto simp: sim_ok_def heard_def)
  obtain addr where addr: "quic_addr (sim_node s j) = Some addr"
    using names [OF assms(4)] assms(5) by (auto simp: host_name_def)
  obtain e where e: "nd_udp_endpoint (sim_node s i) = Some e"
    using names [OF assms(2)] assms(3) by (auto simp: host_name_def quic_addr_def)
  have "checked (\<lambda>_. True) (send_from ops i u s)" for u
  proof -
    obtain x nw where nw: "new_packet_id ops (sim_network s) = (x, nw)"
      by (cases "new_packet_id ops (sim_network s)")
    then have "nw_nodes nw = nw_nodes (sim_network s)"
      by (auto simp: new_packet_id_def split: prod.splits)
    then obtain d nw' where "in_transit_data ops i u (sim_network s) = Inr (d, nw')"
      using e nw by (auto simp: in_transit_data_def Let_def)
    then show ?thesis
      using forward_checked [of ops "sim_now s" i d nw']
      by (cases "forward ops (sim_now s) i d nw'") (simp_all add: send_from_def)
  qed
  then have "checked (\<lambda>s'. goes_on hosts s s' \<and> sim_now s' = sim_now s) (send_from ops i u s)" for u
    by (rule checked_mono)
      (use goes_on_step [OF assms(1), of ops "Transmit i u"] names(2) [OF assms(2)] in \<open>simp add: sim_step_def\<close>)
  then show ?thesis by (simp add: send_probe_def addr)
qed

lemma poll_host_checked:
  assumes "sim_ok hosts s" and "i < length hosts" and "snd (hosts ! i) \<noteq> None"
  shows "checked (\<lambda>(r, f', s'). goes_on hosts s s' \<and> sim_now s' = sim_now s \<and>
      (\<forall>ds. r = Ready ds \<longrightarrow> ds \<noteq> [] \<and> (\<forall>d \<in> set ds. arrived (sim_log s') (hosts ! i) (dt_data d))))
    (poll_host i w f s)"
proof -
  let ?n = "sim_node s i"
  have names: "hosts ! i = host_name ?n" "i < length (nw_nodes (sim_network s))"
    using assms(1,2) by (auto simp: sim_ok_def heard_def)
  then obtain e where e: "nd_udp_endpoint ?n = Some e"
    using assms(3) by (auto simp: host_name_def quic_addr_def)
  obtain r f' q where p: "poll (sim_now s) w f (ue_inbound e) = (r, f', q)"
    by (cases "poll (sim_now s) w f (ue_inbound e)")
  let ?s = "s\<lparr>sim_network := put_node i (?n\<lparr>nd_udp_endpoint := Some (e\<lparr>ue_inbound := q\<rparr>)\<rparr>) (sim_network s)\<rparr>"
  have "heard hosts (sim_network ?s)"
    using assms(1) heard_quiet [OF _ quiet_put(1) [OF quiet_polled [OF e p]]] by (simp add: sim_ok_def)
  moreover have "sim_evolves s ?s" by (rule sim_evolves_network, rule evolves_put_node) simp
  ultimately have g: "goes_on hosts s ?s" by (intro goes_on_evolves [OF assms(1)])
  from p obtain ps where ps: "iq_queue (ue_inbound e) = ps @ iq_queue q"
    "r = (if ps = [] then Pending else Ready (map to_delivered ps))" by (rule poll_front)
  have "arrived (sim_log s) (hosts ! i) (pd_data d)" if "d \<in> set ps" for d
    using assms(1,2) that by (simp add: sim_ok_def heard_def host_queue_def e ps(1))
  with g ps(2) show ?thesis
    by (auto simp: poll_host_def Let_def e p to_delivered_def split: if_splits)
qed

section \<open>The unwraps of the check\<close>

lemma first_arrival_append:
  "get_packet_arrived_at steps x node = Some t \<Longrightarrow> get_packet_arrived_at (steps @ later) x node = Some t"
  by (auto simp: get_packet_arrived_at_def List.map_filter_def split: list.splits)

lemma arrived_reported:
  assumes "arrived steps host d"
  shows "\<exists>t. get_packet_arrived_at steps (pkt_id d) (fst host) = Some t"
proof -
  obtain st where "st \<in> set steps" "arrival_of_step (pkt_id d) (fst host) st = Some (st_relative_time st)"
    using assms by (auto simp: arrived_def arrival_step_def arrival_of_step_def)
  then have "st_relative_time st \<in> set (List.map_filter (arrival_of_step (pkt_id d) (fst host)) steps)"
    by (auto simp: List.map_filter_def intro!: image_eqI [of _ _ st])
  then show ?thesis by (auto simp: get_packet_arrived_at_def split: list.split)
qed

text \<open>A time the check reports: a packet addressed to the host was logged there, first at that time.\<close>

definition reported :: "simulation_step list \<Rightarrow> id \<times> socket_addr option \<Rightarrow> duration \<Rightarrow> bool" where
  "reported steps host t \<longleftrightarrow>
     (\<exists>d. arrived steps host d \<and> get_packet_arrived_at steps (pkt_id d) (fst host) = Some t)"

definition delivered_ok ::
  "simulation_step list \<Rightarrow> id \<times> socket_addr option \<Rightarrow> delivered_transmit list option \<Rightarrow> bool" where
  "delivered_ok steps host r \<longleftrightarrow>
     (\<forall>ds. r = Some ds \<longrightarrow> ds \<noteq> [] \<and> (\<forall>d \<in> set ds. arrived steps host (dt_data d)))"

definition phase_ok ::
  "(id \<times> socket_addr option) list \<Rightarrow> nat \<Rightarrow> nat \<Rightarrow> simulation_step list \<Rightarrow> check_phase \<Rightarrow> bool" where
  "phase_ok hosts a b steps ph \<longleftrightarrow>
     (case ph of
        AwaitSecond r _ _ \<Rightarrow> delivered_ok steps (hosts ! b) r
      | Finished (Inr (t, u)) \<Rightarrow> reported steps (hosts ! b) t \<and> reported steps (hosts ! a) u
      | _ \<Rightarrow> True)"

lemma delivered_ok_more: "delivered_ok steps h r \<Longrightarrow> delivered_ok (steps @ later) h r"
  by (fastforce simp: delivered_ok_def arrived_def)

lemma reported_more: "reported steps h t \<Longrightarrow> reported (steps @ later) h t"
  using first_arrival_append by (fastforce simp: reported_def arrived_def)

lemma phase_ok_more: "phase_ok hosts a b steps ph \<Longrightarrow> phase_ok hosts a b (steps @ later) ph"
  by (auto simp: phase_ok_def delivered_ok_more reported_more split: check_phase.splits sum.splits)

definition check_ok ::
  "(id \<times> socket_addr option) list \<Rightarrow> nat \<Rightarrow> nat \<Rightarrow> 'r connectivity_check \<Rightarrow> bool" where
  "check_ok hosts a b c \<longleftrightarrow> sim_ok hosts (cc_sim c) \<and> phase_ok hosts a b (sim_log (cc_sim c)) (cc_phase c)"

lemma arrival_of_first_ok:
  assumes "delivered_ok steps host (Some ds)"
  shows "\<exists>t. arrival_of_first steps ds (fst host) = Inr t \<and> reported steps host t"
proof -
  obtain d es where "ds = d # es" "arrived steps host (dt_data d)"
    using assms by (cases ds) (auto simp: delivered_ok_def)
  with arrived_reported [of steps host "dt_data d"] show ?thesis
    by (auto simp: arrival_of_first_def reported_def)
qed

lemma finish_checked:
  assumes "sim_ok hosts s" and "a < length hosts" and "b < length hosts"
    and "delivered_ok (sim_log s) (hosts ! b) r1" and "delivered_ok (sim_log s) (hosts ! a) r2"
  shows "checked (\<lambda>c. check_ok hosts a b c \<and> cc_sim c = s \<and> (\<exists>r. cc_phase c = Finished r))
    (finish_check a b r1 r2 s)"
proof (cases "r1 = None \<or> r2 = None")
  case True
  with assms(1) show ?thesis
    by (auto simp: finish_check_def check_ok_def phase_ok_def split: option.splits)
next
  case False
  then obtain ds es where r: "r1 = Some ds" "r2 = Some es" by auto
  have id: "nd_id (sim_node s i) = fst (hosts ! i)" if "i < length hosts" for i
    using assms(1) that by (auto simp: sim_ok_def heard_def host_name_def)
  from r arrival_of_first_ok assms(4,5) obtain t u where
    "arrival_of_first (sim_log s) ds (fst (hosts ! b)) = Inr t" "reported (sim_log s) (hosts ! b) t"
    "arrival_of_first (sim_log s) es (fst (hosts ! a)) = Inr u" "reported (sim_log s) (hosts ! a) u"
    by meson
  with assms(1) id [OF assms(2)] id [OF assms(3)] show ?thesis
    by (simp add: finish_check_def r check_ok_def phase_ok_def log_of_def)
qed

text \<open>
  How much of the check is left: the timers that have still to fire, when the next one does, and
  until when the check then lasts at most.
\<close>

fun polls_left :: "check_phase \<Rightarrow> nat" where
  "polls_left (Rounds k t) = k + 3"
| "polls_left (AwaitFirst t f) = 2"
| "polls_left (AwaitSecond r t f) = 1"
| "polls_left (Finished r) = 0"

fun wake_up :: "check_phase \<Rightarrow> instant option" where
  "wake_up (Rounds k t) = Some t"
| "wake_up (AwaitFirst t f) = Some t"
| "wake_up (AwaitSecond r t f) = Some t"
| "wake_up (Finished r) = None"

fun ends_by :: "check_phase \<Rightarrow> instant" where
  "ends_by (Rounds k t) = t + k * check_pause + 2 * check_timeout"
| "ends_by (AwaitFirst t f) = t + check_timeout"
| "ends_by (AwaitSecond r t f) = t"
| "ends_by (Finished r) = 0"

definition timer_due :: "'r connectivity_check \<Rightarrow> bool" where
  "timer_due c \<longleftrightarrow> (case wake_up (cc_phase c) of None \<Rightarrow> False | Some t \<Rightarrow> t \<le> sim_now (cc_sim c))"

definition on_time :: "'r connectivity_check \<Rightarrow> bool" where
  "on_time c \<longleftrightarrow> (case wake_up (cc_phase c) of None \<Rightarrow> True | Some t \<Rightarrow> sim_now (cc_sim c) \<le> t)"

text \<open>What a poll does to a check in phase \<open>ph\<close> at the instant \<open>now\<close>.\<close>

definition polled ::
  "(id \<times> socket_addr option) list \<Rightarrow> nat \<Rightarrow> nat \<Rightarrow> instant \<Rightarrow> nat \<Rightarrow> instant \<Rightarrow> 'r connectivity_check \<Rightarrow> bool" where
  "polled hosts a b now left end c \<longleftrightarrow>
     check_ok hosts a b c \<and> sim_now (cc_sim c) = now \<and> polls_left (cc_phase c) \<le> left \<and> ends_by (cc_phase c) \<le> end \<and>
     on_time c"

lemma await_second_checked:
  assumes "sim_ok hosts s" and "a < length hosts" and "b < length hosts" and "snd (hosts ! a) \<noteq> None"
    and "delivered_ok (sim_log s) (hosts ! b) r1" 
  shows "checked (\<lambda>c. polled hosts a b (sim_now s) (if deadline \<le> sim_now s then 0 else 1) deadline c)
    (await_second a b w r1 deadline f s)"
  unfolding await_second_def
proof (rule checked_bind [OF poll_host_checked [OF assms(1,2,4)]], clarify)
  fix r f' s'
  assume g: "goes_on hosts s s'" and now: "sim_now s' = sim_now s"
    and ds: "\<forall>ds. r = Ready ds \<longrightarrow> ds \<noteq> [] \<and> (\<forall>d \<in> set ds. arrived (sim_log s') (hosts ! a) (dt_data d))"
  have ok: "sim_ok hosts s'" and d1: "delivered_ok (sim_log s') (hosts ! b) r1"
    using g assms(5) by (auto simp: goes_on_def delivered_ok_more)
  have "checked (\<lambda>c. check_ok hosts a b c \<and> cc_sim c = s' \<and> (\<exists>r. cc_phase c = Finished r))
      (finish_check a b r1 r2 s')" if "\<forall>ds. r2 = Some ds \<longrightarrow> r = Ready ds" for r2
    by (rule finish_checked [OF ok assms(2,3) d1]) (use ds that in \<open>auto simp: delivered_ok_def\<close>)
  then have fin: "checked (polled hosts a b (sim_now s) left end) (finish_check a b r1 r2 s')"
    if "\<forall>ds. r2 = Some ds \<longrightarrow> r = Ready ds" for r2 left "end"
    by (rule checked_mono) (use that now in \<open>auto simp: polled_def on_time_def\<close>)
  show "checked (polled hosts a b (sim_now s) (if deadline \<le> sim_now s then 0 else 1) deadline)
      (case r of Ready es \<Rightarrow> finish_check a b r1 (Some es) s'
       | Pending \<Rightarrow> if deadline \<le> sim_now s' then finish_check a b r1 None s'
                    else Inr \<lparr>cc_sim = s', cc_phase = AwaitSecond r1 deadline f'\<rparr>)"
    using fin ok d1 now
    by (cases r) (simp_all add: polled_def check_ok_def phase_ok_def on_time_def)
qed

lemma await_first_checked:
  assumes "sim_ok hosts s" and "a < length hosts" and "b < length hosts"
    and "snd (hosts ! a) \<noteq> None" and "snd (hosts ! b) \<noteq> None"
  shows "checked (\<lambda>c. polled hosts a b (sim_now s) (if deadline \<le> sim_now s then 1 else 2)
      (max deadline (sim_now s) + check_timeout) c) (await_first a b w deadline f s)"
  unfolding await_first_def
proof (rule checked_bind [OF poll_host_checked [OF assms(1,3,5)]], clarify)
  fix r f' s'
  assume g: "goes_on hosts s s'" and now: "sim_now s' = sim_now s"
    and ds: "\<forall>ds. r = Ready ds \<longrightarrow> ds \<noteq> [] \<and> (\<forall>d \<in> set ds. arrived (sim_log s') (hosts ! b) (dt_data d))"
  have ok: "sim_ok hosts s'" using g by (simp add: goes_on_def)
  have next_wait: "checked (polled hosts a b (sim_now s) (if deadline \<le> sim_now s then 1 else 2) (max deadline (sim_now s) + check_timeout))
      (await_second a b w r1 (sim_now s' + check_timeout) (next_packet_delivery_new 1) s')"
    if "\<forall>ds. r1 = Some ds \<longrightarrow> r = Ready ds" for r1
  proof -
    have "delivered_ok (sim_log s') (hosts ! b) r1" using ds that by (auto simp: delivered_ok_def)
    from await_second_checked [OF ok assms(2,3,4) this] show ?thesis
      by (rule checked_mono) (use now in \<open>auto simp: polled_def split: if_splits\<close>)
  qed
  show "checked (polled hosts a b (sim_now s) (if deadline \<le> sim_now s then 1 else 2) (max deadline (sim_now s) + check_timeout))
      (let next = \<lambda>a_to_b. await_second a b w a_to_b (sim_now s' + check_timeout) (next_packet_delivery_new 1) s'
       in case r of Ready ds \<Rightarrow> next (Some ds)
          | Pending \<Rightarrow> if deadline \<le> sim_now s' then next None
                       else Inr \<lparr>cc_sim = s', cc_phase = AwaitFirst deadline f'\<rparr>)"
    using next_wait ok now
    by (cases r) (auto simp: Let_def polled_def check_ok_def phase_ok_def on_time_def)
qed

definition hosts_ok :: "(id \<times> socket_addr option) list \<Rightarrow> nat \<Rightarrow> nat \<Rightarrow> bool" where
  "hosts_ok hosts a b \<longleftrightarrow>
     a < length hosts \<and> b < length hosts \<and> snd (hosts ! a) \<noteq> None \<and> snd (hosts ! b) \<noteq> None"

definition advances ::
  "(id \<times> socket_addr option) list \<Rightarrow> nat \<Rightarrow> nat \<Rightarrow> 'r connectivity_check \<Rightarrow> nat \<Rightarrow> 'r connectivity_check \<Rightarrow> bool"
where
  "advances hosts a b c n c' \<longleftrightarrow>
     check_ok hosts a b c' \<and> n + polls_left (cc_phase c') \<le> polls_left (cc_phase c) \<and>
     (on_time c \<longrightarrow> ends_by (cc_phase c') \<le> ends_by (cc_phase c))"

lemma check_poll_checked:
  assumes "check_ok hosts a b c" and "hosts_ok hosts a b"
  shows "checked (advances hosts a b c (if timer_due c then 1 else 0)) (check_poll ops a b w c)"
proof (cases "cc_phase c")
  case (Rounds left t)
  let ?s = "cc_sim c"
  have ok: "sim_ok hosts ?s" using assms(1) by (simp add: check_ok_def)
  show ?thesis
  proof (cases "sim_now ?s < t")
    case True
    with assms(1) Rounds show ?thesis
      by (simp add: check_poll_def advances_def timer_due_def)
  next
    case late: False
    show ?thesis
    proof (cases left)
      case 0
      with Rounds late have "check_poll ops a b w c =
          await_first a b w (sim_now ?s + check_timeout) (next_packet_delivery_new 1) ?s"
        by (simp add: check_poll_def Let_def)
      then have "checked (polled hosts a b (sim_now ?s) 2 (sim_now ?s + check_timeout + check_timeout))
          (check_poll ops a b w c)"
        using await_first_checked [OF ok, of a b "sim_now ?s + check_timeout" w "next_packet_delivery_new 1"] assms(2)
        by (simp add: hosts_ok_def check_timeout_def millis_def)
      then show ?thesis
        by (rule checked_mono)
          (use Rounds 0 late in \<open>auto simp: polled_def advances_def timer_due_def on_time_def split: if_splits\<close>)
    next
      case (Suc k)
      have "checked (advances hosts a b c (if timer_due c then 1 else 0))
          (bind_ok (send_probe ops a b ?s) (\<lambda>s1. bind_ok (send_probe ops b a s1) (\<lambda>s2.
             Inr \<lparr>cc_sim = s2, cc_phase = Rounds k (sim_now s2 + check_pause)\<rparr>)))"
      proof (rule checked_bind [OF send_checked [OF ok]])
        fix s1
        assume s1: "goes_on hosts ?s s1 \<and> sim_now s1 = sim_now ?s"
        then have "sim_ok hosts s1" by (simp add: goes_on_def)
        from send_checked [OF this, of b a ops] assms(2)
        have "checked (\<lambda>s'. goes_on hosts s1 s' \<and> sim_now s' = sim_now s1) (send_probe ops b a s1)"
          by (simp add: hosts_ok_def)
        then show "checked (advances hosts a b c (if timer_due c then 1 else 0)) (bind_ok (send_probe ops b a s1)
            (\<lambda>s2. Inr \<lparr>cc_sim = s2, cc_phase = Rounds k (sim_now s2 + check_pause)\<rparr>))"
          by (rule checked_bind)
            (use Rounds Suc late s1 in \<open>auto simp: advances_def check_ok_def phase_ok_def goes_on_def on_time_def\<close>)
      qed (use assms(2) in \<open>simp_all add: hosts_ok_def\<close>)
      with Rounds late Suc show ?thesis by (simp add: check_poll_def)
    qed
  qed
next
  case (AwaitFirst t f)
  have "sim_ok hosts (cc_sim c)" using assms(1) by (simp add: check_ok_def)
  from await_first_checked [OF this, of a b t w f] assms(2)
  have "checked (polled hosts a b (sim_now (cc_sim c)) (if t \<le> sim_now (cc_sim c) then 1 else 2)
      (max t (sim_now (cc_sim c)) + check_timeout)) (check_poll ops a b w c)"
    by (simp add: hosts_ok_def check_poll_def AwaitFirst)
  then show ?thesis
    by (rule checked_mono) (use AwaitFirst in \<open>auto simp: polled_def advances_def timer_due_def on_time_def split: if_splits\<close>)
next
  case (AwaitSecond r t f)
  have "sim_ok hosts (cc_sim c)" "delivered_ok (sim_log (cc_sim c)) (hosts ! b) r"
    using assms(1) AwaitSecond by (simp_all add: check_ok_def phase_ok_def)
  from await_second_checked [OF this(1) _ _ _ this(2), of a t w f] assms(2)
  have "checked (polled hosts a b (sim_now (cc_sim c)) (if t \<le> sim_now (cc_sim c) then 0 else 1) t)
      (check_poll ops a b w c)"
    by (simp add: hosts_ok_def check_poll_def AwaitSecond)
  then show ?thesis
    by (rule checked_mono) (use AwaitSecond in \<open>auto simp: polled_def advances_def timer_due_def on_time_def split: if_splits\<close>)
qed (use assms(1) in \<open>simp add: check_poll_def advances_def timer_due_def\<close>)

lemma check_step_advances:
  assumes "check_ok hosts a b c" and "hosts_ok hosts a b" and "check_step ops a b lab c = Inr c'"
  shows "advances hosts a b c (if timer_due c \<and> (\<exists>w. lab = PollCheck w) then 1 else 0) c'"
proof (cases lab)
  case (Background l)
  with assms(3) obtain s' where s': "sim_step ops l (cc_sim c) = Inr s'" "c' = c\<lparr>cc_sim := s'\<rparr>"
    by (auto simp: check_step_def map_sum_id_Inr)
  have "goes_on hosts (cc_sim c) s'" using assms(1) goes_on_step [OF _ s'(1)] by (auto simp: check_ok_def)
  with assms(1) show ?thesis
    by (auto simp: advances_def check_ok_def goes_on_def s'(2) phase_ok_more Background)
next
  case (PollCheck w)
  with check_poll_checked [OF assms(1,2), of ops w] assms(3) show ?thesis
    by (simp add: check_step_def)
qed

section \<open>Runs\<close>

definition check_run ::
  "'r rng_ops \<Rightarrow> nat \<Rightarrow> nat \<Rightarrow> check_label list \<Rightarrow> 'r connectivity_check \<Rightarrow> panic + 'r connectivity_check" where
  "check_run ops a b labs c = fold_ok (\<lambda>c lab. check_step ops a b lab c) c labs"

text \<open>The polls of a run at or after the time the task waits for, and runs that are never late.\<close>

fun due_polls :: "'r rng_ops \<Rightarrow> nat \<Rightarrow> nat \<Rightarrow> check_label list \<Rightarrow> 'r connectivity_check \<Rightarrow> nat" where
  "due_polls ops a b [] c = 0"
| "due_polls ops a b (lab # labs) c =
     (case check_step ops a b lab c of
        Inl e \<Rightarrow> 0
      | Inr c' \<Rightarrow> (if timer_due c \<and> (\<exists>w. lab = PollCheck w) then 1 else 0) + due_polls ops a b labs c')"

fun punctual :: "'r rng_ops \<Rightarrow> nat \<Rightarrow> nat \<Rightarrow> check_label list \<Rightarrow> 'r connectivity_check \<Rightarrow> bool" where
  "punctual ops a b [] c \<longleftrightarrow> on_time c"
| "punctual ops a b (lab # labs) c \<longleftrightarrow>
     on_time c \<and>
     (case check_step ops a b lab c of Inl e \<Rightarrow> True | Inr c' \<Rightarrow> punctual ops a b labs c')"

lemma check_run_advances:
  assumes "check_run ops a b labs c = Inr c'" and "check_ok hosts a b c" and "hosts_ok hosts a b"
  shows "check_ok hosts a b c' \<and> due_polls ops a b labs c + polls_left (cc_phase c') \<le> polls_left (cc_phase c) \<and>
    (punctual ops a b labs c \<longrightarrow> on_time c' \<and> ends_by (cc_phase c') \<le> ends_by (cc_phase c))"
  using assms(1,2)
proof (induction labs arbitrary: c)
  case (Cons lab labs)
  then obtain d where d: "check_step ops a b lab c = Inr d" and r: "check_run ops a b labs d = Inr c'"
    by (auto simp: check_run_def bind_ok_Inr_iff)
  note adv = check_step_advances [OF Cons.prems(2) assms(3) d]
  then have "check_ok hosts a b d" by (simp add: advances_def)
  from Cons.IH [OF r this] adv d show ?case
    by (auto simp: advances_def split: if_splits)
qed (simp add: check_run_def)

lemma check_new_ok:
  assumes "started spec s"
  shows "check_ok (map host_name (nw_nodes (sim_network s))) a b (check_new s)"
proof -
  have "sim.reach spec ops s" for ops using assms by (rule sim.reach_initial)
  then have clock: "clock_ok s" and tables: "tables_ok (sim_network s)"
    using clock_ok_reach started_links [OF assms] by blast+
  obtain nw es1 es2 where nw: "nw_nodes nw = map initial_node (initial_nodes spec)" "sim_network s =
      fold (process_node_event (sim_now s)) es2 (fold (process_link_event (sim_now s)) es1 nw)"
    using assms by (elim started_network) blast
  have "quiet_step nw (process_node_event (sim_now s) e nw)" "quiet_step nw (process_link_event (sim_now s) e' nw)"
    for e e' and nw :: "'a network"
    using quiet_process_event [of nw "sim_now s" "NodeEvent e"] quiet_process_event [of nw "sim_now s" "LinkEvent e'"]
    by (simp_all add: process_event_def)
  then have q: "quiet_step nw (sim_network s)"
    unfolding nw(2) by (intro quiet_trans [OF quiet_fold quiet_fold])
  have "heard (map host_name (nw_nodes nw)) nw"
    by (auto simp: heard_def nw(1) initial_node_def node_of_spec_def host_queue_def inbound_queue_new_def
        split: option.splits if_splits)
  from heard_quiet [OF this q] have "heard (map host_name (nw_nodes (sim_network s))) (sim_network s)"
    by (auto simp: heard_def)
  with clock tables show ?thesis by (simp add: check_ok_def sim_ok_def check_new_def phase_ok_def)
qed

section \<open>A run of the check\<close>

text \<open>The two hosts of the scenario with a link in each direction; a packet arrives.\<close>

definition link_ba :: network_link_spec where
  "link_ba = link_ab\<lparr>ls_id := ''m'', ls_source := V4 2, ls_target := V4 1\<rparr>"

definition duplex_spec :: network_spec where
  "duplex_spec = \<lparr>spec_nodes = [host_a, host_b], spec_links = [link_ab, link_ba]\<rparr>"

definition duplex_network :: "init_error + nat simulation" where
  "duplex_network =
     initialize duplex_spec (network_events_new [] (spec_nodes duplex_spec) (spec_links duplex_spec))
       (tracer_new 0 duplex_spec) 0 0 False 0"

definition duplex_labels :: "check_label list" where
  "duplex_labels =
     PollCheck 0 # map Background [RunNode 0, RunLink 0, Tick (millis 10), RunForwarder 0]"

lemma duplex_runs:
  obtains s c where "duplex_network = Inr s" "started duplex_spec s" "sim_now s = 0"
    "hosts_ok (map host_name (nw_nodes (sim_network s))) 0 1"
    "check_run counter_rng 0 1 duplex_labels (check_new s) = Inr c"
    "punctual counter_rng 0 1 duplex_labels (check_new s)" "cc_phase c = Rounds 99 check_pause"
proof -
  have "case duplex_network of Inl _ \<Rightarrow> False
      | Inr s \<Rightarrow> sim_now s = 0 \<and> hosts_ok (map host_name (nw_nodes (sim_network s))) 0 1 \<and>
          punctual counter_rng 0 1 duplex_labels (check_new s) \<and>
          (case check_run counter_rng 0 1 duplex_labels (check_new s) of Inl _ \<Rightarrow> False
           | Inr c \<Rightarrow> cc_phase c = Rounds 99 check_pause)"
    by code_simp
  then obtain s c where s: "duplex_network = Inr s" and c: "sim_now s = 0"
    "hosts_ok (map host_name (nw_nodes (sim_network s))) 0 1"
    "check_run counter_rng 0 1 duplex_labels (check_new s) = Inr c"
    "punctual counter_rng 0 1 duplex_labels (check_new s)" "cc_phase c = Rounds 99 check_pause"
    by (auto split: sum.splits)
  have "fresh_tracer 0 duplex_spec (tracer_new 0 duplex_spec)" by (simp add: fresh_tracer_def)
  with s have "started duplex_spec s" unfolding duplex_network_def started_def by blast
  with s c show ?thesis by (intro that)
qed

text \<open>
  C8. The connectivity check ends. However its polls interleave with the tasks of the network, at
  most 103 of them find its timer expired, and after 103 it has finished. While it is not finished
  and was never woken late, at most 100 minutes and 180 days have passed.
\<close>

theorem connectivity_check_ends:
  assumes "started spec s" and "hosts_ok (map host_name (nw_nodes (sim_network s))) a b"
    and "check_run ops a b labs (check_new s) = Inr c"
  shows "due_polls ops a b labs (check_new s) \<le> 103 \<and>
    (due_polls ops a b labs (check_new s) = 103 \<longrightarrow> (\<exists>r. cc_phase c = Finished r)) \<and>
    (punctual ops a b labs (check_new s) \<and> (\<nexists>r. cc_phase c = Finished r) \<longrightarrow>
       sim_now (cc_sim c) \<le> sim_now s + 100 * check_pause + 2 * check_timeout)"
proof -
  note adv = check_run_advances [OF assms(3) check_new_ok [OF assms(1)] assms(2)]
  have "sim_now (cc_sim c) \<le> ends_by (cc_phase c)" if "on_time c" "\<nexists>r. cc_phase c = Finished r"
    using that by (cases "cc_phase c") (auto simp: on_time_def)
  moreover have "\<exists>r. cc_phase c = Finished r" if "polls_left (cc_phase c) = 0"
    using that by (cases "cc_phase c") auto
  ultimately show ?thesis
    using adv by (auto simp: check_new_def check_attempts_def)
qed

theorem connectivity_check_ends_witness:
  "\<exists>s c. duplex_network = Inr s \<and> check_run counter_rng 0 1 duplex_labels (check_new s) = Inr c \<and>
     sim_now (cc_sim c) \<le> 100 * check_pause + 2 * check_timeout"
proof -
  obtain s c where s: "duplex_network = Inr s" "started duplex_spec s" "sim_now s = 0"
    "hosts_ok (map host_name (nw_nodes (sim_network s))) 0 1"
    "check_run counter_rng 0 1 duplex_labels (check_new s) = Inr c"
    "punctual counter_rng 0 1 duplex_labels (check_new s)" "cc_phase c = Rounds 99 check_pause"
    by (rule duplex_runs)
  with connectivity_check_ends [OF s(2,4,5)] show ?thesis by auto
qed

text \<open>
  C7. The unwraps of the connectivity check cannot fail: a poll stops only where sending does, at a
  node that has lost its channel. When the check succeeds, a packet addressed to each of the two
  hosts was logged there, for the first time at the instant reported.
\<close>

theorem connectivity_check_sound:
  assumes "started spec s" and "hosts_ok (map host_name (nw_nodes (sim_network s))) a b"
    and "check_run ops a b labs (check_new s) = Inr c"
  shows "(\<forall>w e. check_poll ops a b w c = Inl e \<longrightarrow> (\<exists>i. e = ReceiverDropped i)) \<and>
    (\<forall>t u. cc_phase c = Finished (Inr (t, u)) \<longrightarrow>
       reported (sim_log (cc_sim c)) (host_name (sim_node (cc_sim c) b)) t \<and>
       reported (sim_log (cc_sim c)) (host_name (sim_node (cc_sim c) a)) u)"
proof -
  let ?hosts = "map host_name (nw_nodes (sim_network s))"
  have ok: "check_ok ?hosts a b c"
    using check_run_advances [OF assms(3) check_new_ok [OF assms(1)] assms(2)] by blast
  have "?hosts ! i = host_name (sim_node (cc_sim c) i)" if "i < length ?hosts" for i
    using ok that unfolding check_ok_def sim_ok_def heard_def by (metis length_map nth_map)
  then have "?hosts ! a = host_name (sim_node (cc_sim c) a)" "?hosts ! b = host_name (sim_node (cc_sim c) b)"
    using assms(2) unfolding hosts_ok_def by blast+
  moreover have "\<exists>i. e = ReceiverDropped i" if "check_poll ops a b w c = Inl e" for w e
    using check_poll_checked [OF ok assms(2), of ops w] by (simp add: that)
  ultimately show ?thesis using ok by (auto simp: check_ok_def phase_ok_def)
qed

theorem connectivity_check_sound_witness:
  "\<exists>s c. duplex_network = Inr s \<and> check_run counter_rng 0 1 duplex_labels (check_new s) = Inr c \<and>
     (\<forall>w e. check_poll counter_rng 0 1 w c = Inl e \<longrightarrow> (\<exists>i. e = ReceiverDropped i))"
proof -
  obtain s c where s: "duplex_network = Inr s" "started duplex_spec s" "sim_now s = 0"
    "hosts_ok (map host_name (nw_nodes (sim_network s))) 0 1"
    "check_run counter_rng 0 1 duplex_labels (check_new s) = Inr c"
    "punctual counter_rng 0 1 duplex_labels (check_new s)" "cc_phase c = Rounds 99 check_pause"
    by (rule duplex_runs)
  with connectivity_check_sound [OF s(2,4,5)] show ?thesis by blast
qed

text \<open>
  Without a way back the check does not report a failure: the task of the second host ends at the
  first packet without a route, and the second attempt panics.
\<close>

lemma unroutable_check_panics:
  "case pair_network [] of
     Inl _ \<Rightarrow> False
   | Inr s \<Rightarrow>
       (case check_run counter_rng 0 1
           [PollCheck 0, Background (RunNode 1), Background (Tick check_pause), PollCheck 0] (check_new s) of
          Inl e \<Rightarrow> e = ReceiverDropped ''b''
        | Inr _ \<Rightarrow> False)"
  by code_simp

end
