(* ===== verification/Replay_Run.thy ===== *)
theory Replay_Run
  imports Network_Replay
begin

text \<open>
  The book of a run. A packet offered to several links has one offer, keyed by its watch channel;
  the invariant says that every packet a link task still may send is the one of its offer. It holds
  in every reachable state, so the log of a run fits its book.
\<close>

section \<open>Offers\<close>

definition offered :: "offers \<Rightarrow> 'r simulation \<Rightarrow> outgoing_packet \<Rightarrow> bool" where
  "offered off s p \<longleftrightarrow>
     (already_handled s p \<or> off (op_handled p) = Some (op_src_node p, pkt_id (op_data p)))"

definition offers_match :: "offers \<Rightarrow> 'r simulation \<Rightarrow> bool" where
  "offers_match off s \<longleftrightarrow>
     (\<forall>h. off h \<noteq> None \<longrightarrow> h < length (sim_handled s)) \<and>
     (\<forall>l < length (nw_links (sim_network s)). \<forall>p \<in> set (link_packets s l). offered off s p)"

definition sim_booked :: "id set \<Rightarrow> id set \<Rightarrow> ('r \<Rightarrow> uuid set) \<Rightarrow> offers \<Rightarrow> 'r simulation \<Rightarrow> bool" where
  "sim_booked ns ls seen off s \<longleftrightarrow>
     net_booked ns ls seen off [] (sim_network s) \<and> offers_match off s"

lemma offers_keep:
  assumes "offers_match off s" and "links_keep nothing_new (sim_network s) (sim_network s')"
    and "sim_link_tasks s' = sim_link_tasks s" and "sim_handled s' = sim_handled s"
  shows "offers_match off s'"
  using assms
  by (fastforce simp: offers_match_def offered_def already_handled_def links_keep_def same_tables_def
      link_packets_def)

section \<open>The task of a link\<close>

definition hand_booked ::
  "id set \<Rightarrow> id set \<Rightarrow> ('r \<Rightarrow> uuid set) \<Rightarrow> nat \<Rightarrow> offers \<Rightarrow> outgoing_packet \<Rightarrow> 'r simulation \<Rightarrow> bool" where
  "hand_booked ns ls seen l off p s \<longleftrightarrow>
     sim_booked ns ls seen off s \<and> packet_ok s p \<and> offered off s p \<and>
     l < length (nw_links (sim_network s)) \<and> length (sim_link_tasks s) = length (nw_links (sim_network s))"

lemma offers_put_phase:
  assumes "hand_booked ns ls seen l off p s"
    and "\<forall>q \<in> set (phase_packets ph). op_handled q = op_handled p \<and> op_src_node q = op_src_node p \<and>
      op_data q = op_data p"
  shows "sim_booked ns ls seen off (put_phase l ph s)"
  using assms
  by (auto simp: hand_booked_def sim_booked_def offers_match_def offered_def already_handled_def
      link_packets_def put_phase_def nth_list_update_if split: if_splits)

lemma hand_booked_set_link:
  assumes "hand_booked ns ls seen l off p s" and "nl_id link = nl_id (sim_link s l)"
    and "nl_in_transit link = nl_in_transit (sim_link s l)"
    and "set (nl_outgoing_queue link) \<subseteq> set (nl_outgoing_queue (sim_link s l))"
  shows "hand_booked ns ls seen l off p (set_link l link s)"
proof -
  have "net_booked ns ls seen off [] (put_link l link (sim_network s))"
    using assms(1-3) by (intro net_booked_put_link)
      (simp_all add: hand_booked_def sim_booked_def flight_items_def link_spot_def)
  moreover have "set (link_packets (set_link l link s) k) \<subseteq> set (link_packets s k)" for k
    using assms(1,4)
    by (cases "k = l") (auto simp: hand_booked_def link_packets_def set_link_def)
  then have "offers_match off (set_link l link s)"
    using assms(1) unfolding hand_booked_def sim_booked_def offers_match_def offered_def already_handled_def
    by (simp add: set_link_def) blast
  ultimately show ?thesis
    using assms(1) by (simp add: hand_booked_def sim_booked_def packet_ok_def offered_def
        already_handled_def set_link_def)
qed

text \<open>Handling a packet takes it out of the offers.\<close>

lemma offers_handle:
  assumes "offers_match off s" and "sim_handled s' = (sim_handled s)[op_handled p := True]"
    and "op_handled p < length (sim_handled s)"
    and "sim_link_tasks s' = (sim_link_tasks s)[l := Idle]"
    and "length (sim_link_tasks s) = length (nw_links (sim_network s))"
    and "length (nw_links (sim_network s')) = length (nw_links (sim_network s))"
    and "\<forall>k < length (nw_links (sim_network s)). nl_outgoing_queue (sim_link s' k) = nl_outgoing_queue (sim_link s k)"
  shows "offers_match (off(op_handled p := None)) s'"
proof -
  have "offered (off(op_handled p := None)) s' q"
    if k: "k < length (nw_links (sim_network s'))" and q: "q \<in> set (link_packets s' k)" for k q
  proof -
    have "q \<in> set (link_packets s k)"
      using q k assms(4-7) by (auto simp: link_packets_def nth_list_update_if split: if_splits)
    with assms(1,6) k have "offered off s q" by (simp add: offers_match_def)
    with assms(2,3) show ?thesis
      by (cases "op_handled q = op_handled p") (simp_all add: offered_def already_handled_def)
  qed
  with assms(1,2) show ?thesis by (auto simp: offers_match_def)
qed

lemma booked_ready_to_send:
  assumes "hand_booked ns ls seen l off p s" and "ready_to_send l p s = Inr s'"
  shows "\<exists>off. sim_booked ns ls seen off s'"
proof -
  let ?i = "op_src_node p" and ?h = "op_handled p" and ?nw = "sim_network s"
  let ?x = "pkt_id (op_data p)"
  have net: "net_booked ns ls seen off [] ?nw" and match: "offers_match off s"
    and i: "?i < length (nw_nodes ?nw)" and h: "?h < length (sim_handled s)"
    and l: "l < length (nw_links ?nw)" "length (sim_link_tasks s) = length (nw_links ?nw)"
    and o: "\<not> already_handled s p \<Longrightarrow> off ?h = Some (?i, ?x)"
    using assms(1) by (auto simp: hand_booked_def sim_booked_def packet_ok_def offered_def)
  note ids = known_ids(1) [OF net i] known_ids(2) [OF net l(1)]
  from assms(2) show ?thesis
  proof (cases rule: ready_to_send_cases)
    case handled
    with offers_put_phase [OF assms(1), of Idle] show ?thesis by auto
  next
    case cleared
    have b: "net_booked ns ls seen (off(?h := None)) [(?x, node_spot (nw_nodes ?nw ! ?i))] ?nw"
      by (rule offer_to_hand [OF net o [OF cleared(1)]])
    have "net_booked ns ls seen (off(?h := None)) [] (put_tracer (track_dropped_by_buffer_clear_event
        (sim_now s) (nd_id (sim_node s ?i)) (op_data p) (nw_tracer ?nw)) ?nw)"
      by (rule hand_drop [OF hand_log [OF b, where v = None]], simp add: track_defs)
        (use ids in \<open>simp add: step_fits_defs node_spot_def\<close>)
    moreover have "offers_match (off(?h := None)) s'"
      by (rule offers_handle [OF match _ h _ l(2)]) (use cleared(3) in \<open>auto simp: put_phase_def\<close>)
    ultimately show ?thesis using cleared(3) by (auto simp: sim_booked_def put_phase_def)
  next
    case (sent link n t)
    let ?off = "off(?h := None)" and ?nw1 = "put_tracer t (put_node ?i n ?nw)"
    from sent(3) obtain d pacer where d: "d = op_data p \<or> d = mark_congestion (op_data p)"
      and link: "link = (sim_link s l)\<lparr>nl_pacer := pacer,
          nl_in_transit := fst (queue_send (sim_now s) (nl_in_transit (sim_link s l)) d
            (nl_delay (sim_link s l) + pa_extra_delay (op_anomalies p)))\<rparr>"
      and n: "n = (sim_node s ?i)\<lparr>nd_outbound_buffer := release (nd_outbound_buffer (sim_node s ?i)) (pkt_size (op_data p))\<rparr>"
      and t: "t = track_packet_in_transit (sim_now s) (nd_id (sim_node s ?i)) (nl_id (sim_link s l)) (op_data p) (nw_tracer ?nw)"
      by (elim link_send_InrE) blast
    from d have id: "pkt_id d = ?x" by auto
    have b: "net_booked ns ls seen ?off [(?x, node_spot (nw_nodes ?nw ! ?i))] ?nw"
      by (rule offer_to_hand [OF net o [OF sent(1)]])
    have b1: "net_booked ns ls seen ?off [(?x, node_spot (nw_nodes ?nw ! ?i))] (put_node ?i n ?nw)"
      by (rule net_booked_put_node [OF b])
        (simp_all add: n host_items_def channel_items_def node_spot_def split: option.split)
    have b2: "net_booked ns ls seen ?off [(?x, link_spot (sim_link s l))] ?nw1"
      by (rule hand_log [OF b1], simp add: t track_defs)
        (use ids in \<open>simp add: step_fits_defs node_spot_def link_spot_def\<close>)
    have "net_booked ns ls seen ?off [] (put_link l link ?nw1)"
      by (rule hand_to_link [OF b2])
        (simp_all add: link l(1) id flight_items_def link_spot_def queue_send_def)
    moreover have "offers_match ?off s'"
      by (rule offers_handle [OF match _ h _ l(2)])
        (use sent(4) in \<open>auto simp: put_phase_def link nth_list_update_if\<close>)
    moreover have "sim_network s' = put_link l link ?nw1" using sent(4) by (simp add: put_phase_def)
    ultimately show ?thesis unfolding sim_booked_def by metis
  qed simp
qed

lemma booked_link_queue:
  assumes "sim_booked ns ls seen off s" and "tasks_ok s" and "l < length (nw_links (sim_network s))"
    and "process_link_queue l s = Inr s'"
  shows "\<exists>off. sim_booked ns ls seen off s'"
proof (rule link_task_rule [where H = "\<lambda>p s. \<exists>off. hand_booked ns ls seen l off p s"
      and G = "\<lambda>s. \<exists>off. sim_booked ns ls seen off s"])
  show "\<exists>off. hand_booked ns ls seen l off p s" if "p \<in> set (link_packets s l)" for p
    using assms(1-3) that by (auto simp: hand_booked_def tasks_ok_def sim_booked_def offers_match_def)
  show "\<exists>off. hand_booked ns ls seen l off p (set_link l ((sim_link s l)\<lparr>nl_outgoing_queue := rest\<rparr>) s)"
    if "nl_outgoing_queue (sim_link s l) = p # rest" "\<exists>off. hand_booked ns ls seen l off p s" for p rest
    using that(2) by (elim exE) (rule exI, rule hand_booked_set_link, assumption, use that(1) in auto)
  show "\<exists>off. hand_booked ns ls seen l off (p\<lparr>op_preferred_links := ks\<rparr>) s"
    if "\<exists>off. hand_booked ns ls seen l off p s" for p ks and s :: "'a simulation"
    using that by (simp add: hand_booked_def packet_ok_def offered_def already_handled_def)
  show "\<exists>off. sim_booked ns ls seen off s'"
    if "\<exists>off. hand_booked ns ls seen l off p s" "ready_to_send l p s = Inr s'" for p and s s' :: "'a simulation"
    using that booked_ready_to_send by blast
  show "\<exists>off. sim_booked ns ls seen off (put_phase l ph s)"
    if "\<exists>off. hand_booked ns ls seen l off p s" and "\<forall>q \<in> set (phase_packets ph).
      op_handled q = op_handled p \<and> op_src_node q = op_src_node p \<and> op_data q = op_data p"
    for p ph and s :: "'a simulation"
    using that offers_put_phase by blast
  show "\<exists>off. hand_booked ns ls seen l off p (set_link l ((sim_link s l)\<lparr>nl_semaphore := k\<rparr>) s)"
    if "\<exists>off. hand_booked ns ls seen l off p s" for p k and s :: "'a simulation"
    using that by (elim exE) (rule exI, rule hand_booked_set_link, assumption, auto)
qed (use assms in auto)

section \<open>The other steps\<close>

lemma booked_quiet:
  assumes "sim_booked ns ls seen off s" and "links_keep nothing_new (sim_network s) (sim_network s')"
    and "net_booked ns ls seen off [] (sim_network s')"
    and "sim_link_tasks s' = sim_link_tasks s" and "sim_handled s' = sim_handled s"
  shows "sim_booked ns ls seen off s'"
  using assms(1,3) offers_keep [OF _ assms(2,4,5)] by (simp add: sim_booked_def)

lemma booked_no_route:
  assumes "sim_booked ns ls seen off s" and "i < length (nw_nodes (sim_network s))"
    and "s' = s\<lparr>sim_network := put_node i ((sim_node s i)\<lparr>nd_outbound := [], nd_receiver := False\<rparr>)
           (sim_network s)\<rparr>"
  shows "sim_booked ns ls seen off s'"
proof (rule booked_quiet [OF assms(1)])
  let ?n = "(sim_node s i)\<lparr>nd_outbound := [], nd_receiver := False\<rparr>"
  have b: "net_booked ns ls seen off [] (sim_network s)" using assms(1) by (simp add: sim_booked_def)
  have "net_booked ns ls seen off (channel_items (sim_node s i) @ []) (put_node i ?n (sim_network s))"
    by (rule channel_to_hand [OF b _ assms(2)]) (simp_all add: host_items_def channel_items_def node_spot_def split: option.split)
  then show "net_booked ns ls seen off [] (sim_network s')"
    by (simp add: assms(3)) (erule hand_perm, simp)
  show "links_keep nothing_new (sim_network s) (sim_network s')"
    by (simp add: assms(3) links_keep_def same_tables_def)
qed (simp_all add: assms(3))

lemma booked_offered:
  assumes "fresh_ids ops seen" and "sim_booked ns ls seen off s" and "i < length (nw_nodes (sim_network s))"
    and "tasks_ok s" and "nd_outbound (sim_node s i) = p # rest" and "h = length (sim_handled s)"
    and "s' = s\<lparr>sim_handled := sim_handled s @ [False],
               sim_network := fold (offer_packet ops i p links h) ks
                 (put_node i ((sim_node s i)\<lparr>nd_outbound := rest\<rparr>) (sim_network s))\<rparr>"
  shows "sim_booked ns ls seen (off(h \<mapsto> (i, pkt_id (bp_data p)))) s'"
proof -
  let ?off = "off(h \<mapsto> (i, pkt_id (bp_data p)))" and ?n = "(sim_node s i)\<lparr>nd_outbound := rest\<rparr>"
  let ?nw = "put_node i ?n (sim_network s)"
  let ?new = "\<lambda>q. op_handled q = h \<and> op_src_node q = i \<and> op_data q = bp_data p"
  have b: "net_booked ns ls seen off [] (sim_network s)" and m: "offers_match off s"
    using assms(2) by (simp_all add: sim_booked_def)
  have "net_booked ns ls seen off ([(pkt_id (bp_data p), node_spot (sim_node s i))] @ []) ?nw"
    by (rule channel_to_hand [OF b _ assms(3)])
      (simp_all add: assms(5) host_items_def channel_items_def node_spot_def split: option.split)
  moreover have "node_spot (nw_nodes ?nw ! i) = node_spot (sim_node s i)"
    using assms(3) by (simp add: node_spot_def)
  ultimately have "net_booked ns ls seen off [(pkt_id (bp_data p), node_spot (nw_nodes ?nw ! i))] ?nw"
    by simp
  moreover have "off h = None" using m unfolding offers_match_def assms(6) by (metis less_irrefl)
  ultimately have "net_booked ns ls seen ?off [] ?nw" by (rule hand_to_offer)
  then have net: "net_booked ns ls seen ?off [] (sim_network s')"
    by (simp add: assms(7) booked_offers [OF assms(1)])
  have keep: "links_keep ?new ?nw (sim_network s')" by (simp add: assms(7) links_keep_offers)
  have "offered ?off s' q"
    if l: "l < length (nw_links (sim_network s'))" and q: "q \<in> set (link_packets s' l)" for l q
  proof -
    have l': "l < length (nw_links (sim_network s))" using l keep by (simp add: links_keep_def same_tables_def)
    have "q \<in> set (link_packets s l) \<or> ?new q"
      using q keep l' by (auto simp: link_packets_def links_keep_def assms(7))
    then show ?thesis
    proof
      assume old: "q \<in> set (link_packets s l)"
      then have "op_handled q < h" "offered off s q"
        using assms(4) m l' by (auto simp: tasks_ok_def packet_ok_def assms(6) offers_match_def)
      then show ?thesis by (simp add: offered_def already_handled_def assms(6,7) nth_append)
    qed (simp add: offered_def)
  qed
  moreover have "\<forall>k. ?off k \<noteq> None \<longrightarrow> k < length (sim_handled s')"
    using m by (auto simp: offers_match_def assms(6,7) less_SucI)
  ultimately show ?thesis using net by (simp add: sim_booked_def offers_match_def)
qed

lemma booked_node_buffer:
  assumes "fresh_ids ops seen" and "sim_booked ns ls seen off s" and "tasks_ok s"
    and "i < length (nw_nodes (sim_network s))" and "process_buffer_for_node ops i s = Inr s'"
  shows "\<exists>off. sim_booked ns ls seen off s'"
  using assms(5)
proof (cases rule: process_buffer_cases)
  case no_route
  with booked_no_route [OF assms(2,4)] show ?thesis by blast
next
  case (offered p rest ls)
  with booked_offered [OF assms(1,2,4,3) offered(1) refl offered(2)] show ?thesis by blast
qed (use assms(2) in blast)

lemma booked_forwarder:
  assumes "fresh_ids ops seen" and "sim_booked ns ls seen off s"
    and "forward_packets_from_link_to_node ops l s = Inr s'" and "l < length (nw_links (sim_network s))"
  shows "sim_booked ns ls seen off s'"
proof -
  obtain r f q where p: "poll (sim_now s) l (sim_forwarders s ! l) (nl_in_transit (sim_link s l)) = (r, f, q)"
    by (cases "poll (sim_now s) l (sim_forwarders s ! l) (nl_in_transit (sim_link s l))")
  from p obtain ds where q: "iq_queue (nl_in_transit (sim_link s l)) = ds @ iq_queue q"
    and r: "r = (if ds = [] then Pending else Ready (map to_delivered ds))" by (rule poll_front)
  let ?k = "(sim_link s l)\<lparr>nl_in_transit := q\<rparr>"
  let ?nw = "put_link l ?k (sim_network s)"
  let ?items = "map (\<lambda>d. (pkt_id (dt_data d), link_spot (sim_link s l))) (map to_delivered ds)"
  have b: "net_booked ns ls seen off [] (sim_network s)" using assms(2) by (simp add: sim_booked_def)
  have b1: "net_booked ns ls seen off (?items @ []) ?nw"
    by (rule link_to_hand [OF b _ assms(4)]) (simp_all add: flight_items_def link_spot_def q to_delivered_def)
  have k: "links_keep nothing_new (sim_network s) ?nw" by (rule links_keep_put_link) auto
  have s: "sim_link_tasks s' = sim_link_tasks s" "sim_handled s' = sim_handled s"
    and n: "if ds = [] then sim_network s' = ?nw
      else fold_ok (forward_delivered ops (sim_now s) l) ?nw (map to_delivered ds) = Inr (sim_network s')"
    using assms(3) p r
    by (auto simp: forward_packets_from_link_to_node_def Let_def set_link_def map_sum_id_Inr
        split: if_splits)
  from n have "links_keep nothing_new ?nw (sim_network s')"
    using links_keep_at_nodes [OF at_nodes_forward_all] by (auto split: if_splits)
  with k have "links_keep nothing_new (sim_network s) (sim_network s')" by (rule links_keep_trans)
  moreover have "net_booked ns ls seen off [] (sim_network s')"
  proof (cases "ds = []")
    case False
    with n have f: "fold_ok (forward_delivered ops (sim_now s) l) ?nw (map to_delivered ds) = Inr (sim_network s')"
      by simp
    have "link_spot (nw_links ?nw ! l) = link_spot (sim_link s l)" using assms(4) by (simp add: link_spot_def)
    with b1 assms(4) show ?thesis by (intro booked_forward_all [OF assms(1) f]) simp_all
  qed (use n b1 in simp)
  ultimately show ?thesis using booked_quiet [OF assms(2)] s by blast
qed

lemma booked_send_from:
  assumes "fresh_ids ops seen" and "sim_booked ns ls seen off s"
    and "send_from ops i t s = Inr s'" and "i < length (nw_nodes (sim_network s))"
  shows "sim_booked ns ls seen off s'"
proof -
  obtain d nw nw' where d: "in_transit_data ops i t (sim_network s) = Inr (d, nw)"
    and nw': "forward ops (sim_now s) i d nw = Inr nw'" and s': "s' = s\<lparr>sim_network := nw'\<rparr>"
    using assms(3) by (auto simp: send_from_def bind_ok_Inr_iff map_sum_id_Inr)
  have b: "net_booked ns ls seen off [] (sim_network s)" using assms(2) by (simp add: sim_booked_def)
  obtain u nw1 where u: "new_packet_id ops (sim_network s) = (u, nw1)"
    by (cases "new_packet_id ops (sim_network s)")
  with d have id: "pkt_id d = u"
    and nw: "nw = nw1\<lparr>nw_next_transmit_number := add64 (nw_next_transmit_number nw1) 1\<rparr>"
    by (auto simp: in_transit_data_def Let_def split: option.splits)
  have b1: "net_booked ns ls seen off [(pkt_id d, None)] nw"
    unfolding id nw by (rule net_booked_silent(2) [OF net_booked_draw [OF assms(1) b u]])
  have "i < length (nw_nodes nw)"
    using assms(4) at_nodes_same(1) [OF at_nodes_in_transit_data [OF d]] by simp
  from booked_forward [OF assms(1) b1 _ this nw'] have "net_booked ns ls seen off [] nw'" by simp
  with links_keep_at_nodes [OF at_nodes_trans [OF at_nodes_in_transit_data [OF d] at_nodes_forward [OF nw']]]
  show ?thesis by (intro booked_quiet [OF assms(2)]) (simp_all add: s')
qed

lemma booked_read_at:
  assumes "sim_booked ns ls seen off s" and "read_at i w m s = Inr (ds, s')"
    and "i < length (nw_nodes (sim_network s))"
  shows "sim_booked ns ls seen off s'"
proof -
  have b: "net_booked ns ls seen off [] (sim_network s)" using assms(1) by (simp add: sim_booked_def)
  obtain e where e: "nd_udp_endpoint (sim_node s i) = Some e"
    using assms(2) by (auto simp: read_at_def Let_def split: option.splits)
  define f0 where "f0 = (case sim_sockets s ! i of Some f \<Rightarrow> f | None \<Rightarrow> next_packet_delivery_new m)"
  obtain r f q where p: "poll (sim_now s) w f0 (ue_inbound e) = (r, f, q)"
    by (cases "poll (sim_now s) w f0 (ue_inbound e)")
  from p obtain xs where q: "iq_queue (ue_inbound e) = xs @ iq_queue q"
    and r: "r = (if xs = [] then Pending else Ready (map to_delivered xs))" by (rule poll_front)
  let ?n = "(sim_node s i)\<lparr>nd_udp_endpoint := Some (e\<lparr>ue_inbound := q\<rparr>)\<rparr>"
  let ?nw = "put_node i ?n (sim_network s)"
  let ?read = "take m (map to_delivered xs)"
  let ?items = "map (\<lambda>d. (pkt_id (dt_data d), node_spot (sim_node s i)))"
  have nw': "sim_network s' = (if xs = [] then ?nw else put_tracer
      (fold (\<lambda>d. track_read_by_host (sim_now s) (nd_id (sim_node s i)) (dt_data d)) ?read (nw_tracer ?nw)) ?nw)"
    and s: "sim_link_tasks s' = sim_link_tasks s" "sim_handled s' = sim_handled s"
    using assms(2) r p by (auto simp: read_at_def Let_def e f0_def split: if_splits)
  have "net_booked ns ls seen off (?items (map to_delivered xs) @ []) ?nw"
    by (rule host_to_hand [OF b _ assms(3)])
      (simp_all add: host_items_def channel_items_def node_spot_def e q to_delivered_def)
  then have b1: "net_booked ns ls seen off (?items ?read) ?nw"
  proof (rule hand_perm)
    have "?items (map to_delivered xs) = ?items ?read @ ?items (drop m (map to_delivered xs))"
      by (simp flip: map_append)
    then show "mset (?items (map to_delivered xs) @ []) = mset (?items (drop m (map to_delivered xs)) @ ?items ?read)"
      by simp
  qed
  have spot: "nd_id (nw_nodes ?nw ! i) = nd_id (sim_node s i)" "node_spot (nw_nodes ?nw ! i) = node_spot (sim_node s i)"
    using assms(3) by (simp_all add: node_spot_def)
  have "net_booked ns ls seen off [] (sim_network s')"
  proof (cases "xs = []")
    case False
    then show ?thesis
      using b1 booked_read [of ns ls seen off ?nw i ?read "[]" "sim_now s"] spot assms(3)
      unfolding nw' by simp
  qed (use b1 nw' in simp)
  moreover have "links_keep nothing_new (sim_network s) (sim_network s')"
    by (simp add: nw' links_keep_def same_tables_def)
  ultimately show ?thesis using booked_quiet [OF assms(1)] s by blast
qed

lemma booked_step:
  assumes "fresh_ids ops seen" and "\<exists>off. sim_booked ns ls seen off s" and "tasks_ok s" and "net_step ops s lab t"
  shows "\<exists>off. sim_booked ns ls seen off t"
proof -
  obtain off where b: "sim_booked ns ls seen off s" using assms(2) by blast
  show ?thesis
  proof (cases lab)
    case (RunNode i)
    with assms(4) booked_node_buffer [OF assms(1) b assms(3)] b show ?thesis
      by (auto simp: net_step_def sim_step_def split: if_splits)
  next
    case (RunLink l)
    with assms(4) booked_link_queue [OF b assms(3)] b show ?thesis
      by (auto simp: net_step_def sim_step_def split: if_splits)
  next
    case (RunForwarder l)
    with assms(4) booked_forwarder [OF assms(1) b] b show ?thesis
      by (auto simp: net_step_def sim_step_def split: if_splits)
  next
    case RunEvents
    have "net_booked ns ls seen off [] (sim_network s)" using b by (simp add: sim_booked_def)
    moreover from this have "net_booked ns ls seen off [] (process_event now k (sim_network s))" for now k
      by (rule booked_process_event)
    ultimately show ?thesis
      using assms(4) RunEvents
      by (auto simp: net_step_def sim_step_def run_events_def links_keep_process_event b
          intro!: exI [of _ off] booked_quiet [OF b] split: list.splits if_splits)
  next
    case (Tick d)
    with assms(4) have t: "t = s\<lparr>sim_now := sim_now s + d\<rparr>" by (simp add: net_step_def sim_step_def)
    have "sim_booked ns ls seen off t"
      by (rule booked_quiet [OF b]) (use b in \<open>simp_all add: t sim_booked_def\<close>)
    then show ?thesis by blast
  next
    case (Transmit i u)
    with assms(4) booked_send_from [OF assms(1) b] b show ?thesis
      by (auto simp: net_step_def sim_step_def split: if_splits)
  next
    case (Receive i w m)
    with assms(4) booked_read_at [OF b] b show ?thesis
      by (auto simp: net_step_def sim_step_def map_sum_id_Inr split: if_splits) blast
  qed
qed

section \<open>The start of a run\<close>

lemma fold_ok_dom:
  assumes "fold_ok f t xs = Inr t'" and "\<And>t x t'. f t x = Inr t' \<Longrightarrow> dom (g t') = insert (k x) (dom (g t))"
  shows "dom (g t') = k ` set xs \<union> dom (g t)"
  using assms(1)
proof (induction xs arbitrary: t)
  case (Cons x xs)
  then obtain u where "f t x = Inr u" "fold_ok f u xs = Inr t'" by (auto simp: bind_ok_Inr_iff)
  with Cons.IH assms(2) show ?case by simp
qed simp

definition node_ids :: "network_spec \<Rightarrow> id set" where "node_ids spec = ns_id ` set (spec_nodes spec)"
definition link_ids :: "network_spec \<Rightarrow> id set" where "link_ids spec = ls_id ` set (spec_links spec)"

lemma verifier_new_ids:
  assumes "verifier_new steps spec = Inr v"
  shows "dom (sv_nodes v) = node_ids spec" "dom (sv_links v) = link_ids spec"
proof -
  obtain nt links md where nt: "fold_ok add_node
        \<lparr>nt_node_metadata = Map.empty, nt_replayed_nodes = Map.empty, nt_host_nodes = {},
         nt_ip_to_node = Map.empty\<rparr> (spec_nodes spec) = Inr nt"
    and l: "fold_ok (add_link (nt_ip_to_node nt)) (Map.empty, Map.empty) (spec_links spec) = Inr (links, md)"
    and v: "sv_nodes v = nt_replayed_nodes nt" "sv_links v = links"
    using assms by (auto simp: verifier_new_def Let_def bind_ok_Inr_iff)
  have "dom (nt_replayed_nodes nt) = ns_id ` set (spec_nodes spec) \<union> dom (nt_replayed_nodes
        \<lparr>nt_node_metadata = Map.empty, nt_replayed_nodes = Map.empty, nt_host_nodes = {},
         nt_ip_to_node = Map.empty\<rparr>)"
    by (rule fold_ok_dom [OF nt]) (auto simp: add_node_def bind_ok_Inr_iff)
  then show "dom (sv_nodes v) = node_ids spec" by (simp add: v node_ids_def)
  have "dom (fst (links, md)) = ls_id ` set (spec_links spec) \<union>
      dom (fst (Map.empty :: id \<rightharpoonup> replayed_link, Map.empty :: id \<rightharpoonup> link_metadata))"
    by (rule fold_ok_dom [OF l]) (auto simp: add_link_def split: option.splits)
  then show "dom (sv_links v) = link_ids spec" by (simp add: v link_ids_def)
qed

lemma known_built:
  assumes "build_network spec t rng = Inr nw"
  shows "known (node_ids spec) (link_ids spec) nw"
proof -
  let ?hosts = "filter (\<lambda>n. ns_kind n = Host) (spec_nodes spec)"
  let ?routers = "filter (\<lambda>n. ns_kind n \<noteq> Host) (spec_nodes spec)"
  note built = build_network_Inr [OF assms]
  obtain hs ls ns where hs: "fold_ok add_host ([], Map.empty, Map.empty) ?hosts = Inr hs"
    and ls: "fold_ok add_network_link ([], Map.empty, Map.empty) (spec_links spec) = Inr ls"
    and ns: "fold_ok add_router hs ?routers = Inr ns"
    and nw: "nw_nodes_by_id nw = snd (snd ns)" "nw_links_by_id nw = snd (snd ls)"
    using assms by (auto simp: build_network_def Let_def bind_ok_Inr_iff split: if_splits prod.splits)
  have host_id: "nd_id n = ns_id host" if "node_host host = Inr (n, e)" for host n e
    using node_host_Inr [OF that] by (simp add: initial_node_def node_of_spec_def)
  have h: "dom (snd (snd hs)) = ns_id ` set ?hosts \<union> dom (snd (snd (([], Map.empty, Map.empty) :: node_table)))"
    by (rule fold_ok_dom [OF hs])
      (auto simp: add_host_def bind_ok_Inr_iff Let_def split: if_splits dest!: host_id)
  have r: "dom (snd (snd ns)) = ns_id ` set ?routers \<union> dom (snd (snd hs))"
    by (rule fold_ok_dom [OF ns])
      (auto simp: add_router_def bind_ok_Inr_iff Let_def node_router_def node_of_spec_def split: if_splits)
  have l: "dom (snd (snd ls)) = ls_id ` set (spec_links spec) \<union> dom (snd (snd (([], Map.empty, Map.empty) :: link_table)))"
    by (rule fold_ok_dom [OF ls]) (auto simp: add_network_link_def split: if_splits option.splits)
  have n: "nd_id (nw_nodes nw ! i) \<in> node_ids spec" if "i < length (nw_nodes nw)" for i
  proof -
    have "initial_nodes spec ! i \<in> set (initial_nodes spec)" using that by (simp add: built(1))
    then have "initial_nodes spec ! i \<in> set (spec_nodes spec)" by (auto simp: initial_nodes_def)
    with that show ?thesis by (simp add: built(1) node_ids_def initial_node_def node_of_spec_def)
  qed
  have k: "nl_id (nw_links nw ! i) \<in> link_ids spec" if "i < length (nw_links nw)" for i
    using that by (simp add: built(2) link_ids_def link_new_def)
  show ?thesis
    using n k h r l built(4) by (auto simp: known_def nw node_ids_def link_ids_def tables_ok_def)
qed

lemma booked_built:
  assumes "build_network spec t rng = Inr nw" and "log_of t = []"
  shows "net_booked (node_ids spec) (link_ids spec) seen Map.empty [] nw"
proof -
  note built = build_network_Inr [OF assms(1)]
  have "content Map.empty [] nw P = []" for P
    by (cases P) (auto simp: built(1,2) host_items_def channel_items_def flight_items_def initial_node_def
        node_of_spec_def inbound_queue_new_def link_new_def)
  then have "settled (content Map.empty [] nw) (spots []) used" for used by (simp add: settled_def)
  with known_built [OF assms(1)] show ?thesis
    by (simp add: net_booked_def booked_def built(3) assms(2))
qed

lemma booked_started:
  fixes s :: "'r simulation"
  assumes "started spec s"
  shows "sim_booked (node_ids spec) (link_ids spec) seen Map.empty s"
  using assms
proof (rule started_network)
  fix nw :: "'r network"
  let ?P = "net_booked (node_ids spec) (link_ids spec) seen Map.empty []"
  assume a: "log_of (nw_tracer nw) = []" "build_network spec (nw_tracer nw) (nw_rng nw) = Inr nw"
    "\<exists>es1 es2. sim_network s =
       fold (process_node_event (sim_now s)) es2 (fold (process_link_event (sim_now s)) es1 nw)"
  from a(3) obtain es1 es2 where n: "sim_network s =
      fold (process_node_event (sim_now s)) es2 (fold (process_link_event (sim_now s)) es1 nw)" by blast
  have ev: "?P (process_node_event now e nw)" "?P (process_link_event now e' nw)"
    if "?P nw" for now e e' and nw :: "'r network"
    using booked_process_event [OF that, of now "NodeEvent e"] booked_process_event [OF that, of now "LinkEvent e'"]
    by (simp_all add: process_event_def)
  have "?P (sim_network s)"
    unfolding n
    by (rule fold_invariant [where Q = "\<lambda>_. True"]; (rule fold_invariant [where Q = "\<lambda>_. True"])?)
      (use booked_built [OF a(2,1)] ev in auto)
  moreover have "offers_match Map.empty s"
    using assms by (rule started_links) (simp add: offers_match_def)
  ultimately show ?thesis by (simp add: sim_booked_def)
qed

lemma booked_reach:
  assumes "sim.reach spec ops s" and "fresh_ids ops seen"
  shows "\<exists>off. sim_booked (node_ids spec) (link_ids spec) seen off s"
  using assms(1)
proof (rule sim.reach_invariant)
  show "\<exists>off. sim_booked (node_ids spec) (link_ids spec) seen off s" if "started spec s" for s :: "'a simulation"
    using booked_started [OF that] by blast
  show "\<exists>off. sim_booked (node_ids spec) (link_ids spec) seen off t"
    if "sim.reach spec ops s" "\<exists>off. sim_booked (node_ids spec) (link_ids spec) seen off s" "net_step ops s lab t"
    for s t lab
    using booked_step [OF assms(2) that(2) tasks_ok_reach [OF that(1)] that(3)] .
qed

lemma traced_spec_reach: "sim.reach spec ops s \<Longrightarrow> tr_network_spec (nw_tracer (sim_network s)) = spec"
proof (erule sim.reach_invariant)
  show "tr_network_spec (nw_tracer (sim_network s)) = spec" if "started spec s" for s :: "'a simulation"
    using that by (rule started_network) (simp add: evolves_def grows_def)
  fix s t :: "'a simulation" and lab
  assume r: "sim.reach spec ops s" and s: "tr_network_spec (nw_tracer (sim_network s)) = spec"
    and step: "net_step ops s lab t"
  show "tr_network_spec (nw_tracer (sim_network t)) = spec"
  proof (cases "\<exists>d. lab = Tick d")
    case True
    with s step show ?thesis by (auto simp: net_step_def sim_step_def)
  next
    case False
    then have "sim_evolves s t"
      using step clock_ok_reach [OF r] by (intro sim_step_evolves) (auto simp: net_step_def)
    with s show ?thesis by (simp add: sim_evolves_def evolves_def grows_def)
  qed
qed

section \<open>The log of a run replays\<close>

lemma log_verifies:
  assumes "sim.reach spec ops s" and "fresh_ids ops seen" and "seen (nw_rng (sim_network s)) \<noteq> UNIV"
    and "tracer_verifier (nw_tracer (sim_network s)) = Inr v"
    and "sum_list (map step_bytes (log_of (nw_tracer (sim_network s)))) < 2 ^ 64"
  obtains r where "verify order v = Inr r" "dom (stats_by_node r) = node_ids spec"
    "dom (stats_by_link r) = link_ids spec"
proof -
  let ?log = "log_of (nw_tracer (sim_network s))"
  obtain off where "sim_booked (node_ids spec) (link_ids spec) seen off s"
    using booked_reach [OF assms(1,2)] by blast
  then have "fits (node_ids spec) (link_ids spec) Map.empty ?log"
    using assms(3) by (simp add: sim_booked_def net_booked_def booked_def)
  moreover have new: "verifier_new ?log spec = Inr v"
    using assms(4) traced_spec_reach [OF assms(1)] by (simp add: tracer_verifier_def log_of_def)
  moreover have "sv_steps v = ?log"
    using verifier_new_Inr(7) [OF new] clock_ok_reach [OF assms(1)]
    by (simp add: clock_ok_def chronological_def)
  ultimately have "no_fatal (\<lambda>r. dom (stats_by_node r) = node_ids spec \<and> dom (stats_by_link r) = link_ids spec)
      (verify order v)"
    using verify_fits [OF new] verifier_new_ids [OF new] by simp
  moreover have "no_panic (\<lambda>r. True) (verify order v)" by (rule verify_no_panic [OF new assms(5)])
  ultimately show thesis using that by (auto simp: no_fatal_def no_panic_def split: sum.splits)
qed

text \<open>
  C1. Whatever the schedule, the log of a run can be replayed by the verifier to its end, whatever
  the order in which it visits the nodes: no step refers to a node, link or packet the verifier does
  not know at that point, so the verdict is never a fatal error and never a panic. Needed are
  random packet ids that are fresh and, against overflow, fewer than \<open>2^64\<close> bytes of packets.
\<close>

theorem recorded_log_verifies:
  assumes "sim.reach spec ops s" and "fresh_ids ops seen" and "seen (nw_rng (sim_network s)) \<noteq> UNIV"
    and "tracer_verifier (nw_tracer (sim_network s)) = Inr v"
    and "sum_list (map step_bytes (log_of (nw_tracer (sim_network s)))) < 2 ^ 64"
  shows "\<exists>r. verify order v = Inr r"
  by (rule log_verifies [OF assms]) blast

text \<open>The counting generator never repeats an id before the supply runs out.\<close>

lemma counter_fresh: "fresh_ids counter_rng (\<lambda>n. of_nat ` {..<n})"
proof -
  have full: "of_nat ` {..<m} = (UNIV :: uuid set)" if "(of_nat n :: uuid) \<in> of_nat ` {..<n}" "n \<le> m" for n m
  proof -
    from that(1) obtain j where j: "(of_nat n :: uuid) = of_nat j" "j \<in> {..<n}" by (rule imageE)
    have "2 ^ 128 \<le> n"
    proof (rule ccontr)
      assume "\<not> 2 ^ 128 \<le> n"
      then have "unat (of_nat j :: uuid) = j" "unat (of_nat n :: uuid) = n"
        using j(2) by (simp_all add: unat_of_nat take_bit_nat_eq_self)
      with j show False by (metis lessThan_iff less_irrefl)
    qed
    moreover have "unat w < 2 ^ 128" for w :: uuid using unsigned_less [of w] by simp
    ultimately have "w \<in> of_nat ` {..<m}" for w :: uuid
      using that(2) by (intro image_eqI [of _ _ "unat w"]) (auto intro: less_le_trans)
    then show ?thesis by blast
  qed
  show ?thesis
    using full [OF _ le_SucI [OF order_refl]] by (auto simp: fresh_ids_def counter_rng_def lessThan_Suc)
qed

lemma one_packet_log:
  obtains s v where "pair_run [] one_packet = Some s" "nw_rng (sim_network s) = 1"
    "tracer_verifier (nw_tracer (sim_network s)) = Inr v"
    "sum_list (map step_bytes (log_of (nw_tracer (sim_network s)))) < 2 ^ 64"
proof -
  have "case pair_run [] one_packet of
      None \<Rightarrow> False
    | Some s \<Rightarrow> nw_rng (sim_network s) = 1 \<and>
        (case tracer_verifier (nw_tracer (sim_network s)) of Inl e \<Rightarrow> False | Inr v \<Rightarrow> True) \<and>
        sum_list (map step_bytes (log_of (nw_tracer (sim_network s)))) < 2 ^ 64"
    by code_simp
  then show ?thesis using that by (auto split: option.splits sum.splits)
qed

theorem recorded_log_verifies_witness:
  "\<exists>s v r. pair_run [] one_packet = Some s \<and> tracer_verifier (nw_tracer (sim_network s)) = Inr v \<and>
     verify [''a'', ''b''] v = Inr r"
proof -
  obtain s v where s: "pair_run [] one_packet = Some s" "nw_rng (sim_network s) = 1"
    "tracer_verifier (nw_tracer (sim_network s)) = Inr v"
    "sum_list (map step_bytes (log_of (nw_tracer (sim_network s)))) < 2 ^ 64" by (rule one_packet_log)
  have "(1 :: uuid) \<notin> of_nat ` {..<1}" by auto
  then have "of_nat ` {..<nw_rng (sim_network s)} \<noteq> (UNIV :: uuid set)" unfolding s(2) by blast
  from recorded_log_verifies [OF pair_run_reach [OF s(1)] counter_fresh this s(3,4)] s(1,3)
  show ?thesis by blast
qed

end
