(* ===== verification/Pcap.thy ===== *)
theory Pcap
  imports Node Float64
begin

text \<open>
  The capture of a host's traffic, \<^verbatim>\<open>in-memory-network/src/pcap_exporter.rs\<close>: the log of TLS
  secrets, the block of a capture file that carries it, the IP packet written for a transmit, and
  the exporter, which holds packets back until enough secrets are known.

  The codecs of \<^verbatim>\<open>pnet_packet\<close> and the block parser of \<^verbatim>\<open>pcap_file\<close> are outside the repository:
  a \<open>packet_codec\<close> stands for them. The file is the list of blocks handed to the writer; the
  random-access counters and locks are fields of the exporter's record. Strings are lists of bytes.
\<close>

section \<open>Bytes\<close>

type_synonym byte = "8 word"

definition to_be_bytes :: "32 word \<Rightarrow> byte list" where
  "to_be_bytes w = map (\<lambda>k. ucast (drop_bit k w)) [24, 16, 8, 0]"

definition as_bytes :: "string \<Rightarrow> byte list" where
  "as_bytes = map of_char"

fun join_lines :: "string \<Rightarrow> string list \<Rightarrow> string" where
  "join_lines sep [] = []"
| "join_lines sep [x] = x"
| "join_lines sep (x # y # xs) = x @ sep @ join_lines sep (y # xs)"

section \<open>The log of secrets and its block\<close>

text \<open>The log is shared with the TLS library, which appends to it; \<open>hex\<close> is the encoder of \<^verbatim>\<open>hex\<close>.\<close>

type_synonym keylog = "string list"

definition keylog_log ::
  "(byte list \<Rightarrow> string) \<Rightarrow> string \<Rightarrow> byte list \<Rightarrow> byte list \<Rightarrow> keylog \<Rightarrow> keylog" where
  "keylog_log hex label client_random secret lines =
     lines @ [label @ '' '' @ hex client_random @ '' '' @ hex secret]"

definition newline :: string where "newline = [CHR 0x0A]"

definition keylog_secrets :: "keylog \<Rightarrow> string" where
  "keylog_secrets lines = join_lines newline lines @ newline"

function pad_block :: "byte list \<Rightarrow> byte list" where
  "pad_block block = (if length block mod 4 \<noteq> 0 then pad_block (block @ [0]) else block)"
  by pat_completeness auto
termination
proof (relation "measure (\<lambda>block. (4 - length block mod 4) mod 4)")
  fix block :: "byte list"
  assume "length block mod 4 \<noteq> 0"
  moreover have "length block mod 4 < 4" by simp
  ultimately consider "length block mod 4 = 1" | "length block mod 4 = 2" | "length block mod 4 = 3"
    by linarith
  then show "(block @ [0], block) \<in> measure (\<lambda>block. (4 - length block mod 4) mod 4)"
    by cases (simp_all add: mod_Suc)
qed simp

declare pad_block.simps [simp del]

definition secrets_block :: "keylog \<Rightarrow> byte list" where
  "secrets_block lines =
     (let secrets = as_bytes (keylog_secrets lines);
          block_type = 0x0000000A; secrets_type = 0x544c534b;
          secrets_length = of_nat (length secrets);
          block = pad_block (to_be_bytes block_type @ [0, 0, 0, 0] @ to_be_bytes secrets_type @
                             to_be_bytes secrets_length @ secrets);
          total_length = of_nat (length block) + 4;
          block' = block @ to_be_bytes total_length
      in take 4 block' @ to_be_bytes total_length @ drop 8 block')"

section \<open>The packet written for a transmit\<close>

text \<open>Each setter of the codec writes into the buffer, or panics (None).\<close>

datatype udp_field =
    UdpSource nat
  | UdpDestination nat
  | UdpLength "16 word"
  | UdpPayload "byte list"
  | UdpChecksum "16 word"

datatype ipv4_field =
    Ipv4Version nat
  | Ipv4HeaderLength nat
  | Ipv4Dscp nat
  | Ipv4Identification nat
  | Ipv4Flags nat
  | Ipv4FragmentOffset nat
  | Ipv4Ttl nat
  | Ipv4NextLevelProtocol nat
  | Ipv4Source "32 word"
  | Ipv4Destination "32 word"
  | Ipv4Payload "byte list"
  | Ipv4TotalLength "16 word"
  | Ipv4Ecn nat
  | Ipv4Checksum "16 word"

record packet_codec =
  set_udp :: "udp_field \<Rightarrow> byte list \<Rightarrow> byte list option"
  udp_ipv4_checksum :: "byte list \<Rightarrow> 32 word \<Rightarrow> 32 word \<Rightarrow> 16 word"
  set_ipv4 :: "ipv4_field \<Rightarrow> byte list \<Rightarrow> byte list option"
  ipv4_checksum :: "byte list \<Rightarrow> 16 word"
  ipv4_packet_size :: "byte list \<Rightarrow> nat"
  raw_block_from_slice :: "byte list \<Rightarrow> bool"

definition set_fields ::
  "('f \<Rightarrow> byte list \<Rightarrow> byte list option) \<Rightarrow> 'f list \<Rightarrow> byte list \<Rightarrow> panic + byte list" where
  "set_fields set_field fs buffer =
     fold_ok (\<lambda>b f. case set_field f b of None \<Rightarrow> Inl PcapFailed | Some b' \<Rightarrow> Inr b') buffer fs"

definition buffer_prefix :: "nat \<Rightarrow> byte list \<Rightarrow> panic + byte list" where
  "buffer_prefix n buffer = (if length buffer < n then Inl PcapFailed else Inr (take n buffer))"

definition udp_length :: "owned_transmit \<Rightarrow> 16 word" where
  "udp_length t = 8 + of_nat (length (tx_contents t))"

definition write_udp ::
  "packet_codec \<Rightarrow> 32 word \<Rightarrow> nat \<Rightarrow> 32 word \<Rightarrow> owned_transmit \<Rightarrow> byte list \<Rightarrow> panic + byte list" where
  "write_udp lib source source_port dest t buffer =
     bind_ok (set_fields (set_udp lib)
                [UdpSource source_port, UdpDestination (sa_port (tx_destination t)),
                 UdpLength (udp_length t), UdpPayload (tx_contents t)] buffer)
       (\<lambda>b. set_fields (set_udp lib) [UdpChecksum (udp_ipv4_checksum lib b source dest)] b)"

definition write_ipv4 ::
  "packet_codec \<Rightarrow> 32 word \<Rightarrow> 32 word \<Rightarrow> owned_transmit \<Rightarrow> byte list \<Rightarrow> byte list \<Rightarrow>
   panic + byte list" where
  "write_ipv4 lib source dest t udp_packet buffer =
     bind_ok (set_fields (set_ipv4 lib)
                [Ipv4Version 4, Ipv4HeaderLength 5, Ipv4Dscp 0, Ipv4Identification 0, Ipv4Flags 2,
                 Ipv4FragmentOffset 0, Ipv4Ttl 64, Ipv4NextLevelProtocol 17, Ipv4Source source,
                 Ipv4Destination dest, Ipv4Payload udp_packet,
                 Ipv4TotalLength (20 + udp_length t),
                 Ipv4Ecn (case tx_ecn t of None \<Rightarrow> 0 | Some c \<Rightarrow> ecn_bits c)] buffer)
       (\<lambda>b. set_fields (set_ipv4 lib) [Ipv4Checksum (ipv4_checksum lib b)] b)"

definition ip_packet :: "packet_codec \<Rightarrow> socket_addr \<Rightarrow> owned_transmit \<Rightarrow> panic + byte list" where
  "ip_packet lib source_addr t =
     (case (sa_ip source_addr, sa_ip (tx_destination t)) of
        (V4 source, V4 dest) \<Rightarrow>
          bind_ok (write_udp lib source (sa_port source_addr) dest t (replicate 2000 0)) (\<lambda>buffer.
          bind_ok (buffer_prefix (unat (udp_length t)) buffer) (\<lambda>udp_packet.
          bind_ok (write_ipv4 lib source dest t udp_packet buffer) (\<lambda>buffer'.
          buffer_prefix (ipv4_packet_size lib buffer') buffer')))
      | _ \<Rightarrow> Inl NotIpv4)"

section \<open>Timestamps\<close>

definition as_secs_f64 :: "duration \<Rightarrow> f64" where
  "as_secs_f64 d =
     f64_round (f64_round (of_nat (d div 10 ^ 9)) + f64_round (of_nat (d mod 10 ^ 9) / 10 ^ 9))"

definition from_secs_f64 :: "f64 \<Rightarrow> duration" where
  "from_secs_f64 x = nat (round_half_even (x * 10 ^ 9))"

text \<open>\<^verbatim>\<open>f64::round\<close> on the values at hand, which are not negative: halves are rounded up.\<close>

definition correct_timestamp :: "duration \<Rightarrow> duration" where
  "correct_timestamp d =
     (let milliseconds = of_int \<lfloor>f64_round (as_secs_f64 d * 1000) + 1 / 2\<rfloor>
      in from_secs_f64 (f64_round (milliseconds / 1000000)))"

section \<open>The exporter\<close>

datatype pcap_block =
    SectionHeaderBlock nat nat
  | InterfaceDescriptionBlock nat
  | SecretsBlock "byte list"
  | EnhancedPacketBlock duration nat "byte list"

record pcap_exporter =
  pe_capture_start :: instant
  pe_total_tracked_packets :: nat
  pe_written :: "pcap_block list"
  pe_buffered_packets :: "(socket_addr \<times> owned_transmit) list"
  pe_has_keylog :: bool
  pe_keylog_written :: bool

definition exporter_new :: "instant \<Rightarrow> bool \<Rightarrow> pcap_exporter" where
  "exporter_new now has_keylog =
     \<lparr>pe_capture_start = now, pe_total_tracked_packets = 0,
      pe_written = [SectionHeaderBlock 1 0, InterfaceDescriptionBlock 65535],
      pe_buffered_packets = [], pe_has_keylog = has_keylog, pe_keylog_written = False\<rparr>"

definition write_pcapng_transmit ::
  "packet_codec \<Rightarrow> instant \<Rightarrow> pcap_exporter \<Rightarrow> socket_addr \<times> owned_transmit \<Rightarrow> panic + pcap_exporter" where
  "write_pcapng_transmit lib now e p =
     (case p of (source_addr, t) \<Rightarrow>
        bind_ok (ip_packet lib source_addr t) (\<lambda>data.
          Inr (e\<lparr>pe_total_tracked_packets := add64 (pe_total_tracked_packets e) 1,
                 pe_written := pe_written e @
                   [EnhancedPacketBlock (correct_timestamp (now - pe_capture_start e))
                      (length data mod 2 ^ 32) data]\<rparr>)))"

definition flush_buffered :: "packet_codec \<Rightarrow> instant \<Rightarrow> pcap_exporter \<Rightarrow> panic + pcap_exporter" where
  "flush_buffered lib now e =
     fold_ok (write_pcapng_transmit lib now) (e\<lparr>pe_buffered_packets := []\<rparr>) (pe_buffered_packets e)"

definition write_secrets :: "packet_codec \<Rightarrow> keylog \<Rightarrow> pcap_exporter \<Rightarrow> panic + pcap_exporter" where
  "write_secrets lib lines e =
     (let block = secrets_block lines
      in if raw_block_from_slice lib block
         then Inr (e\<lparr>pe_keylog_written := True, pe_written := pe_written e @ [SecretsBlock block]\<rparr>)
         else Inl PcapFailed)"

definition track_transmit ::
  "packet_codec \<Rightarrow> keylog \<Rightarrow> instant \<Rightarrow> socket_addr \<Rightarrow> owned_transmit \<Rightarrow> pcap_exporter \<Rightarrow>
   panic + pcap_exporter" where
  "track_transmit lib lines now source_addr t e =
     (if pe_has_keylog e \<and> \<not> pe_keylog_written e then
        if length lines < 5
        then Inr (e\<lparr>pe_buffered_packets := pe_buffered_packets e @ [(source_addr, t)]\<rparr>)
        else bind_ok (write_secrets lib lines e) (\<lambda>e1.
             bind_ok (flush_buffered lib now e1) (\<lambda>e2.
             write_pcapng_transmit lib now e2 (source_addr, t)))
      else write_pcapng_transmit lib now e (source_addr, t))"

definition exporter_drop :: "packet_codec \<Rightarrow> instant \<Rightarrow> pcap_exporter \<Rightarrow> panic + pcap_exporter" where
  "exporter_drop lib now e = flush_buffered lib now e"

section \<open>The block of secrets is well formed\<close>

text \<open>A reader of the block, by the capture format: type, lengths, secrets type, secrets, padding.\<close>

definition from_be_bytes :: "byte list \<Rightarrow> 32 word" where
  "from_be_bytes bs = foldl (\<lambda>w b. push_bit 8 w OR ucast b) 0 bs"

definition read_u32 :: "nat \<Rightarrow> byte list \<Rightarrow> nat" where
  "read_u32 k bs = unat (from_be_bytes (take 4 (drop k bs)))"

definition read_secrets :: "byte list \<Rightarrow> byte list option" where
  "read_secrets b =
     (let total = read_u32 4 b; n = read_u32 12 b
      in if read_u32 0 b = 0x0A \<and> total = length b \<and> 4 dvd total \<and> read_u32 8 b = 0x544c534b \<and>
            16 + n + 4 \<le> total \<and> read_u32 (total - 4) b = total
         then Some (take n (drop 16 b)) else None)"

lemma length_to_be_bytes [simp]: "length (to_be_bytes w) = 4"
  by (simp add: to_be_bytes_def)

lemma from_to_be_bytes [simp]: "from_be_bytes (to_be_bytes w) = w"
proof (rule bit_word_eqI)
  fix n
  assume "n < LENGTH(32)"
  then consider "n < 8" | "8 \<le> n" "n < 16" | "16 \<le> n" "n < 24" | "24 \<le> n" "n < 32"
    by fastforce
  then show "bit (from_be_bytes (to_be_bytes w)) n \<longleftrightarrow> bit w n"
    by cases (auto simp: from_be_bytes_def to_be_bytes_def bit_simps)
qed

lemma read_u32_at [simp]:
  "length bs = k \<Longrightarrow> read_u32 k (bs @ to_be_bytes w @ cs) = unat w"
  by (simp add: read_u32_def)

lemma pad_block_eq: "pad_block b = b @ replicate ((4 - length b mod 4) mod 4) 0"
proof (induction b rule: pad_block.induct)
  case (1 b)
  show ?case
  proof (cases "length b mod 4 = 0")
    case False
    define r where "r = length b mod 4"
    have r: "r = 1 \<or> r = 2 \<or> r = 3" using False by (auto simp: r_def)
    have "(4 - length (b @ [0::byte]) mod 4) mod 4 = (4 - (r + 1) mod 4) mod 4"
      by (simp add: r_def mod_Suc)
    also have "Suc \<dots> = (4 - r) mod 4" using r by auto
    finally have "Suc ((4 - length (b @ [0::byte]) mod 4) mod 4) = (4 - length b mod 4) mod 4"
      by (simp add: r_def)
    with 1 False show ?thesis by (simp add: pad_block.simps [of b] flip: replicate_Suc)
  qed (simp add: pad_block.simps [of b])
qed

lemma pad_block_aligned: "4 dvd length (pad_block b)"
proof -
  have "(n + (4 - n mod 4) mod 4) mod 4 = 0" for n :: nat
  proof -
    have "(n + (4 - n mod 4) mod 4) mod 4 = (n mod 4 + (4 - n mod 4) mod 4) mod 4"
      by (rule mod_add_left_eq [symmetric])
    also have "(r + (4 - r) mod 4) mod 4 = 0" if "r < 4" for r :: nat
    proof -
      from that consider "r = 0" | "r = 1" | "r = 2" | "r = 3" by linarith
      then show ?thesis by cases simp_all
    qed
    then have "(n mod 4 + (4 - n mod 4) mod 4) mod 4 = 0" by simp
    finally show ?thesis .
  qed
  from this [of "length b"] show ?thesis
    by (simp only: pad_block_eq length_append length_replicate dvd_eq_mod_eq_0)
qed

definition zero_padding :: "byte list \<Rightarrow> byte list" where
  "zero_padding b = replicate ((4 - length b mod 4) mod 4) 0"

lemma secrets_block_layout:
  defines "secrets \<equiv> \<lambda>lines. as_bytes (keylog_secrets lines)"
  shows "\<exists>padding total. secrets_block lines =
      to_be_bytes 0x0A @ to_be_bytes total @ to_be_bytes 0x544c534b @
      to_be_bytes (of_nat (length (secrets lines))) @ secrets lines @ padding @ to_be_bytes total \<and>
    total = of_nat (length (secrets_block lines)) \<and> 4 dvd length (secrets_block lines) \<and>
    length (secrets_block lines) < length (secrets lines) + 24"
proof -
  define b where "b = to_be_bytes 0x0A @ [0, 0, 0, 0] @ to_be_bytes 0x544c534b @
    to_be_bytes (of_nat (length (secrets lines))) @ secrets lines"
  define total :: "32 word" where "total = of_nat (length (pad_block b)) + 4"
  have pb: "pad_block b = b @ zero_padding b" by (simp add: pad_block_eq zero_padding_def)
  have "secrets_block lines = (let block = pad_block b @ to_be_bytes total
      in take 4 block @ to_be_bytes total @ drop 8 block)"
    by (simp only: secrets_block_def Let_def secrets_def b_def total_def)
  also have "\<dots> = to_be_bytes 0x0A @ to_be_bytes total @ to_be_bytes 0x544c534b @
      to_be_bytes (of_nat (length (secrets lines))) @ secrets lines @ zero_padding b @ to_be_bytes total"
    unfolding pb Let_def by (simp add: b_def)
  finally have block: "secrets_block lines = to_be_bytes 0x0A @ to_be_bytes total @ to_be_bytes 0x544c534b @
      to_be_bytes (of_nat (length (secrets lines))) @ secrets lines @ zero_padding b @ to_be_bytes total" .
  then have len: "length (secrets_block lines) = length (pad_block b) + 4"
    using arg_cong [OF pb, of length] by (simp add: b_def)
  moreover have "length (pad_block b) < length b + 4" by (simp add: pad_block_eq)
  then have "length (secrets_block lines) < length (secrets lines) + 24" by (simp add: len b_def)
  ultimately show ?thesis
    using block pad_block_aligned [of b] by (intro exI [of _ "zero_padding b"] exI [of _ total]) (auto simp: total_def)
qed

text \<open>
  C30. The block of secrets the exporter writes is one that a reader of the capture format decodes,
  and it decodes to the lines of the key log, each ended by a newline.
\<close>

theorem secrets_block_decodes:
  assumes "length (keylog_secrets lines) < 2 ^ 32 - 24"
  shows "read_secrets (secrets_block lines) = Some (as_bytes (keylog_secrets lines))"
proof -
  let ?s = "as_bytes (keylog_secrets lines)" and ?b = "secrets_block lines"
  obtain padding total where b: "?b = to_be_bytes 0x0A @ to_be_bytes total @ to_be_bytes 0x544c534b @
      to_be_bytes (of_nat (length ?s)) @ ?s @ padding @ to_be_bytes total"
    and total: "total = of_nat (length ?b)" and four: "4 dvd length ?b" and small: "length ?b < length ?s + 24"
    using secrets_block_layout [of lines] by blast
  have n: "length ?s < 2 ^ 32 - 24" using assms by (simp add: as_bytes_def)
  have t: "unat total = length ?b" "unat (of_nat (length ?s) :: 32 word) = length ?s"
    using n small by (simp_all add: total unat_of_nat)
  have len: "length ?b = length ?s + length padding + 20" by (subst b) simp
  have r: "read_u32 0 ?b = 0x0A" "read_u32 4 ?b = length ?b" "read_u32 8 ?b = 0x544c534b"
    "read_u32 12 ?b = length ?s"
    using read_u32_at [of "[]" 0 "0x0A"] read_u32_at [of "to_be_bytes 0x0A" 4 total]
      read_u32_at [of "to_be_bytes 0x0A @ to_be_bytes total" 8 "0x544c534b"]
      read_u32_at [of "to_be_bytes 0x0A @ to_be_bytes total @ to_be_bytes 0x544c534b" 12 "of_nat (length ?s)"]
    by (subst b, simp add: t)+
  have e: "read_u32 (length ?b - 4) ?b = length ?b"
    using read_u32_at [of "to_be_bytes 0x0A @ to_be_bytes total @ to_be_bytes 0x544c534b @
      to_be_bytes (of_nat (length ?s)) @ ?s @ padding" "length ?b - 4" total "[]"]
    by (subst (2) b) (simp add: len t)
  have "take (length ?s) (drop 16 ?b) = ?s" by (subst b) simp
  then show ?thesis using r e four len by (simp add: read_secrets_def)
qed

theorem secrets_block_decodes_witness:
  "read_secrets (secrets_block [''CLIENT_RANDOM ab cd'']) = Some (as_bytes (''CLIENT_RANDOM ab cd'' @ newline))"
  using secrets_block_decodes [of "[''CLIENT_RANDOM ab cd'']"] by (simp add: keylog_secrets_def newline_def)

section \<open>What the file holds\<close>

definition enhanced :: "duration \<Rightarrow> byte list \<Rightarrow> pcap_block" where
  "enhanced elapsed data =
     EnhancedPacketBlock (correct_timestamp elapsed) (length data mod 2 ^ 32) data"

abbreviation packet_of :: "packet_codec \<Rightarrow> socket_addr \<times> owned_transmit \<Rightarrow> panic + byte list" where
  "packet_of lib p \<equiv> ip_packet lib (fst p) (snd p)"

lemma write_pcapng_transmit_Inr:
  "write_pcapng_transmit lib now e p = Inr e' \<longleftrightarrow>
     (\<exists>data. packet_of lib p = Inr data \<and>
        e' = e\<lparr>pe_total_tracked_packets := add64 (pe_total_tracked_packets e) 1,
               pe_written := pe_written e @ [enhanced (now - pe_capture_start e) data]\<rparr>)"
  by (cases p) (auto simp: write_pcapng_transmit_def enhanced_def bind_ok_Inr_iff)

text \<open>\<open>writes\<close>: the state after packets with the given bytes were written.\<close>

definition writes :: "instant \<Rightarrow> byte list list \<Rightarrow> pcap_exporter \<Rightarrow> pcap_exporter" where
  "writes now packets e =
     e\<lparr>pe_total_tracked_packets := wrap64 (pe_total_tracked_packets e + length packets),
       pe_written := pe_written e @ map (enhanced (now - pe_capture_start e)) packets\<rparr>"

lemma add64_wrap64: "wrap64 (add64 a (Suc 0) + n) = wrap64 (Suc (a + n))"
  by (simp add: add64_def wrap64_def mod_simps)

lemma fold_write_Inr:
  assumes "fold_ok (write_pcapng_transmit lib now) e ps = Inr e'"
    and "pe_total_tracked_packets e < 2 ^ 64"
  shows "\<exists>packets. map (packet_of lib) ps = map Inr packets \<and> e' = writes now packets e"
  using assms
proof (induction ps arbitrary: e)
  case Nil
  then show ?case by (auto simp: writes_def wrap_simps intro!: exI [of _ "[]"])
next
  case (Cons p ps)
  then obtain data where d: "packet_of lib p = Inr data"
    and rest: "fold_ok (write_pcapng_transmit lib now)
      (e\<lparr>pe_total_tracked_packets := add64 (pe_total_tracked_packets e) 1,
         pe_written := pe_written e @ [enhanced (now - pe_capture_start e) data]\<rparr>) ps = Inr e'"
    by (auto simp: bind_ok_Inr_iff write_pcapng_transmit_Inr)
  let ?e1 = "e\<lparr>pe_total_tracked_packets := add64 (pe_total_tracked_packets e) 1,
    pe_written := pe_written e @ [enhanced (now - pe_capture_start e) data]\<rparr>"
  have "pe_total_tracked_packets ?e1 < 2 ^ 64"
    using wrap64_less [of "pe_total_tracked_packets e + 1"] by (simp add: add64_def)
  with Cons.IH [OF rest] obtain packets where "map (packet_of lib) ps = map Inr packets"
    "e' = writes now packets ?e1" by blast
  with d show ?case
    by (intro exI [of _ "data # packets"]) (simp add: writes_def add64_wrap64)
qed

type_synonym tracked_call = "keylog \<times> instant \<times> socket_addr \<times> owned_transmit"

definition track_all :: "packet_codec \<Rightarrow> tracked_call list \<Rightarrow> pcap_exporter \<Rightarrow> panic + pcap_exporter" where
  "track_all lib calls e =
     fold_ok (\<lambda>e (lines, now, source_addr, t). track_transmit lib lines now source_addr t e) e calls"

definition file_header :: "pcap_block list" where
  "file_header = [SectionHeaderBlock 1 0, InterfaceDescriptionBlock 65535]"

text \<open>
  What the exporter has done of a list of calls: the packets it wrote and those it holds back are
  the tracked ones in order; it holds packets only while the secrets are missing, and then it has
  written none.
\<close>

definition exported ::
  "packet_codec \<Rightarrow> instant \<Rightarrow> bool \<Rightarrow> tracked_call list \<Rightarrow> pcap_exporter \<Rightarrow> bool" where
  "exported lib start k calls e \<longleftrightarrow>
     pe_capture_start e = start \<and> pe_has_keylog e = k \<and> pe_total_tracked_packets e < 2 ^ 64 \<and>
     (k \<and> \<not> pe_keylog_written e \<or> pe_buffered_packets e = []) \<and>
     (\<exists>secrets packets.
        pe_written e = file_header @ secrets @ map (\<lambda>(ts, d). enhanced ts d) packets \<and>
        (if pe_keylog_written e
         then \<exists>c \<in> set calls. k \<and> 5 \<le> length (fst c) \<and> secrets = [SecretsBlock (secrets_block (fst c))]
         else secrets = [] \<and> (k \<longrightarrow> packets = [] \<and> (\<forall>c \<in> set calls. length (fst c) < 5))) \<and>
        map (Inr \<circ> snd) packets @ map (packet_of lib) (pe_buffered_packets e) =
          map (packet_of lib \<circ> snd \<circ> snd) calls \<and>
        pe_total_tracked_packets e = wrap64 (length packets))"

lemma exported_new: "exported lib start k [] (exporter_new start k)"
  by (simp add: exported_def exporter_new_def file_header_def wrap64_def)

lemma exported_write:
  assumes "exported lib start k calls e" and "pe_buffered_packets e = []"
    and "k \<longrightarrow> pe_keylog_written e" and "packet_of lib (snd (snd c)) = Inr data"
  shows "exported lib start k (calls @ [c]) (writes now [data] e)"
proof -
  obtain secrets packets where w: "pe_written e = file_header @ secrets @ map (\<lambda>(ts, d). enhanced ts d) packets"
    "if pe_keylog_written e
     then \<exists>c \<in> set calls. k \<and> 5 \<le> length (fst c) \<and> secrets = [SecretsBlock (secrets_block (fst c))]
     else secrets = [] \<and> (k \<longrightarrow> packets = [] \<and> (\<forall>c \<in> set calls. length (fst c) < 5))"
    "map (Inr \<circ> snd) packets = map (packet_of lib \<circ> snd \<circ> snd) calls"
    "pe_total_tracked_packets e = wrap64 (length packets)"
    using assms(1,2) by (auto simp: exported_def)
  show ?thesis
    unfolding exported_def
  proof (intro conjI exI [of _ secrets] exI [of _ "packets @ [(now - pe_capture_start e, data)]"])
    show "if pe_keylog_written (writes now [data] e)
      then \<exists>c' \<in> set (calls @ [c]). k \<and> 5 \<le> length (fst c') \<and> secrets = [SecretsBlock (secrets_block (fst c'))]
      else secrets = [] \<and> (k \<longrightarrow> packets @ [(now - pe_capture_start e, data)] = [] \<and>
        (\<forall>c' \<in> set (calls @ [c]). length (fst c') < 5))"
      using w(2) assms(3) by (auto simp: writes_def split: if_splits)
  qed (use assms w in \<open>auto simp: exported_def writes_def wrap64_def mod_simps\<close>)
qed

lemma exported_flush:
  assumes "flush_buffered lib now e = Inr e'" and "exported lib start k calls e"
  shows "\<exists>packets. map (packet_of lib) (pe_buffered_packets e) = map Inr packets \<and>
    e' = writes now packets (e\<lparr>pe_buffered_packets := []\<rparr>)"
  using fold_write_Inr [OF assms(1) [unfolded flush_buffered_def]] assms(2) by (auto simp: exported_def)

lemma exported_track:
  assumes "track_transmit lib lines now source_addr t e = Inr e'" and "exported lib start k calls e"
  shows "exported lib start k (calls @ [(lines, now, source_addr, t)]) e'"
proof -
  let ?c = "(lines, now, source_addr, t)"
  have k: "pe_has_keylog e = k" and buffered: "k \<and> \<not> pe_keylog_written e \<or> pe_buffered_packets e = []"
    using assms(2) by (simp_all add: exported_def)
  consider (plain) "\<not> (k \<and> \<not> pe_keylog_written e)" | (hold) "k" "\<not> pe_keylog_written e" "length lines < 5"
    | (flush) "k" "\<not> pe_keylog_written e" "5 \<le> length lines" by linarith
  then show ?thesis
  proof cases
    case plain
    then obtain data where "packet_of lib (source_addr, t) = Inr data" "e' = writes now [data] e"
      using assms(1) k by (auto simp: track_transmit_def write_pcapng_transmit_Inr writes_def add64_def)
    then show ?thesis
      using exported_write [OF assms(2), of ?c data now] plain buffered by auto
  next
    case hold
    then have "e' = e\<lparr>pe_buffered_packets := pe_buffered_packets e @ [(source_addr, t)]\<rparr>"
      using assms(1) k by (simp add: track_transmit_def)
    then show ?thesis using assms(2) hold by (fastforce simp: exported_def)
  next
    case flush
    then obtain e1 e2 where w: "write_secrets lib lines e = Inr e1" "flush_buffered lib now e1 = Inr e2"
      "write_pcapng_transmit lib now e2 (source_addr, t) = Inr e'"
      using assms(1) k by (auto simp: track_transmit_def bind_ok_Inr_iff)
    have e1: "e1 = e\<lparr>pe_keylog_written := True, pe_written := pe_written e @ [SecretsBlock (secrets_block lines)]\<rparr>"
      using w(1) by (auto simp: write_secrets_def Let_def split: if_splits)
    have written: "pe_written e = file_header" "pe_total_tracked_packets e = 0"
      "map (packet_of lib) (pe_buffered_packets e) = map (packet_of lib \<circ> snd \<circ> snd) calls"
      using assms(2) flush by (auto simp: exported_def wrap64_def)
    obtain packets where p: "map (packet_of lib) (pe_buffered_packets e) = map Inr packets"
      "e2 = writes now packets (e1\<lparr>pe_buffered_packets := []\<rparr>)"
      using fold_write_Inr [OF w(2) [unfolded flush_buffered_def]] written(2) by (auto simp: e1)
    obtain data where d: "packet_of lib (source_addr, t) = Inr data" "e' = writes now [data] e2"
      using w(3) by (auto simp: write_pcapng_transmit_Inr writes_def add64_def)
    let ?ps = "map (\<lambda>d. (now - start, d)) (packets @ [data])"
    have start: "pe_capture_start e = start" using assms(2) by (simp add: exported_def)
    show ?thesis
      unfolding exported_def
      by (intro conjI exI [of _ "[SecretsBlock (secrets_block lines)]"] exI [of _ ?ps])
        (use flush k start written p d in \<open>auto simp: e1 writes_def wrap64_def mod_simps o_def\<close>)
  qed
qed

lemma exported_track_all:
  assumes "track_all lib calls (exporter_new start k) = Inr e"
  shows "exported lib start k calls e"
  using assms
proof (induction calls arbitrary: e rule: rev_induct)
  case Nil
  then show ?case using exported_new by (auto simp: track_all_def)
next
  case (snoc c calls)
  obtain lines now source_addr t where c: "c = (lines, now, source_addr, t)" by (cases c)
  from snoc.prems obtain e1 where e1: "track_all lib calls (exporter_new start k) = Inr e1"
    "track_transmit lib lines now source_addr t e1 = Inr e"
    by (auto simp: track_all_def fold_ok_append bind_ok_Inr_iff c)
  show ?case unfolding c by (rule exported_track [OF e1(2) snoc.IH [OF e1(1)]])
qed

text \<open>A codec for examples: payloads are written, the headers are left as they are.\<close>

definition put_bytes :: "nat \<Rightarrow> byte list \<Rightarrow> byte list \<Rightarrow> byte list option" where
  "put_bytes k bs b =
     (if k + length bs \<le> length b then Some (take k b @ bs @ drop (k + length bs) b) else None)"

definition sample_codec :: packet_codec where
  "sample_codec =
     \<lparr>set_udp = (\<lambda>f b. case f of UdpPayload d \<Rightarrow> put_bytes 8 d b | _ \<Rightarrow> Some b),
      udp_ipv4_checksum = (\<lambda>b s d. 0),
      set_ipv4 = (\<lambda>f b. case f of Ipv4Payload d \<Rightarrow> put_bytes 20 d b | _ \<Rightarrow> Some b),
      ipv4_checksum = (\<lambda>b. 0),
      ipv4_packet_size = (\<lambda>b. 29),
      raw_block_from_slice = (\<lambda>b. read_secrets b \<noteq> None)\<rparr>"

definition sample_transmit :: owned_transmit where
  "sample_transmit =
     \<lparr>tx_destination = \<lparr>sa_ip = V4 2, sa_port = 8080\<rparr>, tx_ecn = None, tx_contents = [7],
      tx_segment_size = None\<rparr>"

definition sample_source :: socket_addr where
  "sample_source = \<lparr>sa_ip = V4 1, sa_port = 8080\<rparr>"

definition sample_calls :: "tracked_call list" where
  "sample_calls =
     [([], 0, sample_source, sample_transmit),
      ([''A'', ''B'', ''C'', ''D'', ''E''], 5000000, sample_source, sample_transmit)]"

lemma sample_packet: "\<exists>data. ip_packet sample_codec sample_source sample_transmit = Inr data"
  by (simp add: ip_packet_def sample_source_def sample_transmit_def write_udp_def write_ipv4_def
      set_fields_def sample_codec_def put_bytes_def buffer_prefix_def udp_length_def)

lemma sample_capture:
  obtains e e' where "track_all sample_codec sample_calls (exporter_new 0 True) = Inr e"
    "exporter_drop sample_codec 0 e = Inr e'"
proof -
  obtain data where d: "ip_packet sample_codec sample_source sample_transmit = Inr data"
    using sample_packet by blast
  have "read_secrets (secrets_block [''A'', ''B'', ''C'', ''D'', ''E'']) \<noteq> None"
    using secrets_block_decodes [of "[''A'', ''B'', ''C'', ''D'', ''E'']"] by (simp add: keylog_secrets_def newline_def)
  then have "\<exists>e. track_all sample_codec sample_calls (exporter_new 0 True) = Inr e \<and> pe_buffered_packets e = []"
    using d by (simp add: track_all_def sample_calls_def track_transmit_def exporter_new_def write_secrets_def
        flush_buffered_def write_pcapng_transmit_def sample_codec_def)
  then show ?thesis using that by (auto simp: exporter_drop_def flush_buffered_def)
qed

text \<open>
  C21. The file of an exporter that is dropped after any sequence of transmits holds each of them
  exactly once and in order, whenever the secrets became known: after the header come at most one
  block of secrets and then the packets. The block is there if and only if the exporter has a key log
  and some call found at least five secrets in it, and its secrets are those of such a call.
\<close>

theorem capture_in_order:
  assumes "track_all lib calls (exporter_new start k) = Inr e" and "exporter_drop lib now e = Inr e'"
  shows "\<exists>secrets packets.
    pe_written e' = file_header @ secrets @ map (\<lambda>(ts, d). enhanced ts d) packets \<and>
    map (Inr \<circ> snd) packets = map (\<lambda>(lines, now, source_addr, t). ip_packet lib source_addr t) calls \<and>
    pe_total_tracked_packets e' = wrap64 (length calls) \<and>
    (if k \<and> (\<exists>c \<in> set calls. 5 \<le> length (fst c))
     then \<exists>c \<in> set calls. 5 \<le> length (fst c) \<and> secrets = [SecretsBlock (secrets_block (fst c))]
     else secrets = [])"
proof -
  have x: "exported lib start k calls e" by (rule exported_track_all [OF assms(1)])
  obtain secrets packets where w: "pe_written e = file_header @ secrets @ map (\<lambda>(ts, d). enhanced ts d) packets"
    "if pe_keylog_written e
     then \<exists>c \<in> set calls. k \<and> 5 \<le> length (fst c) \<and> secrets = [SecretsBlock (secrets_block (fst c))]
     else secrets = [] \<and> (k \<longrightarrow> packets = [] \<and> (\<forall>c \<in> set calls. length (fst c) < 5))"
    "map (Inr \<circ> snd) packets @ map (packet_of lib) (pe_buffered_packets e) =
       map (packet_of lib \<circ> snd \<circ> snd) calls"
    "pe_total_tracked_packets e = wrap64 (length packets)"
    using x by (auto simp: exported_def)
  obtain ds where d: "map (packet_of lib) (pe_buffered_packets e) = map Inr ds"
    "e' = writes now ds (e\<lparr>pe_buffered_packets := []\<rparr>)"
    using exported_flush [OF assms(2) [unfolded exporter_drop_def] x] by blast
  let ?ps = "packets @ map (\<lambda>d. (now - start, d)) ds"
  have ps: "map (Inr \<circ> snd) ?ps = map (packet_of lib \<circ> snd \<circ> snd) calls"
    using w(3) by (simp add: d(1) o_def)
  then have n: "length ?ps = length calls" by (rule map_eq_imp_length_eq)
  have fun_eq: "packet_of lib \<circ> snd \<circ> snd = (\<lambda>(lines, now, source_addr, t). ip_packet lib source_addr t)"
    by (auto simp: fun_eq_iff)
  have "pe_written e' = file_header @ secrets @ map (\<lambda>(ts, d). enhanced ts d) ?ps"
    using x by (simp add: d(2) writes_def w(1) exported_def o_def)
  moreover have "pe_total_tracked_packets e' = wrap64 (length calls)"
    using n by (simp add: d(2) writes_def w(4) wrap64_def mod_simps)
  moreover have "if k \<and> (\<exists>c \<in> set calls. 5 \<le> length (fst c))
     then \<exists>c \<in> set calls. 5 \<le> length (fst c) \<and> secrets = [SecretsBlock (secrets_block (fst c))]
     else secrets = []"
    using w(2) by (cases "pe_keylog_written e") (auto simp: not_le)
  ultimately show ?thesis using ps unfolding fun_eq by blast
qed

theorem capture_in_order_witness:
  "\<exists>e. (\<exists>e0. track_all sample_codec sample_calls (exporter_new 0 True) = Inr e0 \<and>
          exporter_drop sample_codec 0 e0 = Inr e) \<and> pe_total_tracked_packets e = 2"
proof -
  obtain e0 e where e: "track_all sample_codec sample_calls (exporter_new 0 True) = Inr e0"
    "exporter_drop sample_codec 0 e0 = Inr e" by (rule sample_capture)
  from capture_in_order [OF e] have "pe_total_tracked_packets e = 2"
    by (auto simp: sample_calls_def wrap64_def)
  with e show ?thesis by blast
qed

lemma held_back:
  assumes "\<forall>c \<in> set calls. length (fst c) < 5" and "e = exporter_new start True"
  shows "track_all lib calls e = Inr (e\<lparr>pe_buffered_packets := map (snd \<circ> snd) calls\<rparr>)"
  using assms(1)
proof (induction calls rule: rev_induct)
  case Nil
  then show ?case by (simp add: track_all_def assms(2) exporter_new_def)
next
  case (snoc c calls)
  obtain lines now source_addr t where "c = (lines, now, source_addr, t)" by (cases c)
  with snoc show ?case
    by (simp add: track_all_def fold_ok_append track_transmit_def assms(2) exporter_new_def)
qed

text \<open>
  Packets that were held back lose the time of their transmission: when the secrets become
  known, every packet so far is written with the time of that moment.
\<close>

lemma held_back_timestamps:
  assumes "\<forall>c \<in> set calls. length (fst c) < 5" and "5 \<le> length lines"
    and "track_all lib (calls @ [(lines, now, source_addr, t)]) (exporter_new start True) = Inr e"
  shows "\<exists>packets. length packets = Suc (length calls) \<and>
    pe_written e = file_header @ SecretsBlock (secrets_block lines) # map (enhanced (now - start)) packets"
proof -
  let ?e = "exporter_new start True"
  let ?held = "?e\<lparr>pe_buffered_packets := map (snd \<circ> snd) calls\<rparr>"
  have "track_all lib calls ?e = Inr ?held" by (rule held_back [OF assms(1)]) (rule refl)
  then have "track_transmit lib lines now source_addr t ?held = Inr e"
    using assms(3) by (simp add: track_all_def fold_ok_append bind_ok_Inr_iff)
  then obtain e1 e2 where w: "write_secrets lib lines ?held = Inr e1" "flush_buffered lib now e1 = Inr e2"
    "write_pcapng_transmit lib now e2 (source_addr, t) = Inr e"
    using assms(2) by (auto simp: track_transmit_def exporter_new_def bind_ok_Inr_iff)
  have e1: "e1 = ?held\<lparr>pe_keylog_written := True, pe_written := file_header @ [SecretsBlock (secrets_block lines)]\<rparr>"
    using w(1) by (auto simp: write_secrets_def Let_def exporter_new_def file_header_def split: if_splits)
  obtain packets where p: "map (packet_of lib) (map (snd \<circ> snd) calls) = map Inr packets"
    "e2 = writes now packets (e1\<lparr>pe_buffered_packets := []\<rparr>)"
    using fold_write_Inr [OF w(2) [unfolded flush_buffered_def]]
    by (auto simp: e1 exporter_new_def simp del: map_map)
  obtain data where d: "e = writes now [data] e2"
    using w(3) by (auto simp: write_pcapng_transmit_Inr writes_def add64_def)
  have "length packets = length calls" using map_eq_imp_length_eq [OF p(1)] by simp
  then show ?thesis
    by (intro exI [of _ "packets @ [data]"]) (simp add: d p(2) e1 writes_def exporter_new_def)
qed

section \<open>The time of a packet\<close>

lemma f64_round_near: "0 \<le> x \<Longrightarrow> \<bar>f64_round x - x\<bar> \<le> x / 9007199254740992"
  using f64_round_error [of x] by (cases "x = 0") (simp add: f64_round_def, simp)

lemma round_half_even_near:
  assumes "\<bar>x - of_int m\<bar> < 1 / 2"
  shows "round_half_even x = m"
proof -
  have "\<bar>of_int (round_half_even x) - (of_int m :: rat)\<bar> < 1"
    using round_half_even_error [of x] assms by linarith
  then have "(of_int \<bar>round_half_even x - m\<bar> :: rat) < of_int 1" by simp
  then show ?thesis by (simp only: of_int_less_iff)
qed

lemma as_secs_f64_near:
  assumes "d < 2 ^ 50"
  defines "t \<equiv> rat_of_nat d / 1000000000"
  shows "0 \<le> as_secs_f64 d" and "\<bar>as_secs_f64 d - t\<bar> \<le> 3 * t / 9007199254740992"
proof -
  define s n where "s = rat_of_nat (d div 10 ^ 9)" and "n = rat_of_nat (d mod 10 ^ 9) / 10 ^ 9"
  have t: "t = s + n"
  proof -
    have "rat_of_nat d = of_nat (d div 10 ^ 9 * 10 ^ 9 + d mod 10 ^ 9)" by simp
    then have "rat_of_nat d = of_nat (d div 10 ^ 9) * 10 ^ 9 + of_nat (d mod 10 ^ 9)"
      by (simp only: of_nat_add of_nat_mult of_nat_power of_nat_numeral)
    then show ?thesis by (simp add: t_def s_def n_def)
  qed
  have "d div 10 ^ 9 < 2 ^ 53" using assms(1) by (simp add: less_mult_imp_div_less)
  then have s: "f64_round s = s" unfolding s_def by (rule f64_round_of_nat)
  have pos: "0 \<le> s" "0 \<le> n" by (simp_all add: s_def n_def)
  define f where "f = f64_round n"
  have f: "\<bar>f - n\<bar> \<le> n / 9007199254740992" unfolding f_def by (rule f64_round_near [OF pos(2)])
  then have sf: "0 \<le> s + f" using pos by linarith
  then have "\<bar>f64_round (s + f) - (s + f)\<bar> \<le> (s + f) / 9007199254740992" by (rule f64_round_near)
  moreover have "as_secs_f64 d = f64_round (s + f)"
    unfolding as_secs_f64_def s_def [symmetric] n_def [symmetric] s f_def [symmetric] ..
  ultimately have x: "\<bar>as_secs_f64 d - (s + f)\<bar> \<le> (s + f) / 9007199254740992" by simp
  have "(s + f) / 9007199254740992 \<le> s + f" using sf by simp
  with x show "0 \<le> as_secs_f64 d" by linarith
  have "n / 9007199254740992 \<le> n" using pos(2) by simp
  then have "f \<le> 2 * n" using f by linarith
  then have "(s + f) / 9007199254740992 + n / 9007199254740992 \<le> 3 * t / 9007199254740992"
    using pos by (simp add: t add_divide_distrib [symmetric])
  then show "\<bar>as_secs_f64 d - t\<bar> \<le> 3 * t / 9007199254740992" using x f unfolding t by linarith
qed

text \<open>
  The timestamp of a packet is its elapsed time rounded to the nearest millisecond and divided
  by a thousand; the floating-point arithmetic in between loses nothing in the first thirteen days.
\<close>

lemma correct_timestamp_rounds:
  assumes "d < 2 ^ 50"
  shows "\<exists>k. correct_timestamp d = 1000 * k \<and> \<bar>1000000 * int k - int d\<bar> \<le> 500000"
proof -
  define t x y where "t = rat_of_nat d / 1000000000" and "x = as_secs_f64 d" and "y = f64_round (x * 1000)"
  have x: "0 \<le> x" "\<bar>x - t\<bar> \<le> 3 * t / 9007199254740992"
    using as_secs_f64_near [OF assms] by (simp_all add: x_def t_def)
  have "rat_of_nat d < of_nat (2 ^ 50)" using assms by (simp only: of_nat_less_iff)
  then have d: "rat_of_nat d < 1125899906842624" by simp
  have y: "\<bar>y - x * 1000\<bar> \<le> x * 1000 / 9007199254740992" unfolding y_def by (rule f64_round_near) (simp add: x)
  have "\<bar>y - rat_of_nat d / 1000000\<bar> \<le> 3 / 5000000"
    using x y d unfolding t_def by linarith
  moreover define k where "k = \<lfloor>y + 1 / 2\<rfloor>"
  moreover have "of_int k \<le> y + 1 / 2" "y + 1 / 2 < of_int k + 1" unfolding k_def by linarith+
  ultimately have kd: "\<bar>of_int k - rat_of_nat d / 1000000\<bar> \<le> 1 / 2 + 3 / 5000000" by linarith
  then have "\<bar>1000000 * rat_of_int k - rat_of_nat d\<bar> < 500001" by linarith
  then have "(of_int \<bar>1000000 * k - int d\<bar> :: rat) < of_int 500001" by simp
  then have near: "\<bar>1000000 * k - int d\<bar> \<le> 500000" by (simp only: of_int_less_iff)
  have "0 \<le> k" and small: "k < 2 ^ 32" using near assms by auto
  then have k: "rat_of_int k = of_nat (nat k)" "0 \<le> rat_of_int k / 1000000" by simp_all
  have "\<bar>f64_round (of_int k / 1000000) - of_int k / 1000000\<bar> \<le> of_int k / 1000000 / 9007199254740992"
    by (rule f64_round_near [OF k(2)])
  moreover have "rat_of_int k < of_int (2 ^ 32)" using small by (simp only: of_int_less_iff)
  then have "rat_of_int k < 4294967296" by simp
  ultimately have "\<bar>f64_round (of_int k / 1000000) * 1000000000 - 1000 * of_int k\<bar> < 1 / 2"
    by linarith
  then have "\<bar>f64_round (of_int k / 1000000) * 10 ^ 9 - of_int (1000 * k)\<bar> < 1 / 2" by simp
  then have "round_half_even (f64_round (of_int k / 1000000) * 10 ^ 9) = 1000 * k"
    by (rule round_half_even_near)
  then have "correct_timestamp d = nat (1000 * k)"
    by (simp only: correct_timestamp_def from_secs_f64_def Let_def x_def [symmetric] y_def [symmetric]
        k_def [symmetric])
  then show ?thesis using near \<open>0 \<le> k\<close> by (intro exI [of _ "nat k"]) simp
qed

end
