(* ===== verification/Quinn_Socket.thy ===== *)
theory Quinn_Socket
  imports Pcap Scenario
begin

text \<open>
  The UDP socket the QUIC library and the UDP simulations use on a host,
  \<^verbatim>\<open>in-memory-network/src/quinn_interop.rs\<close>: sending, polling for packets into the caller's
  buffers, and reading them. Its state is the simulation (the network, and the delivery the socket
  keeps) and the exporter of the host. The lemmas show that a socket only makes the steps
  \<open>Transmit\<close> and \<open>Receive\<close> of the network, and what the caller finds in its buffers.
\<close>

section \<open>Sending\<close>

type_synonym 'r socket_state = "'r simulation \<times> pcap_exporter"

definition try_send ::
  "packet_codec \<Rightarrow> 'r rng_ops \<Rightarrow> keylog \<Rightarrow> nat \<Rightarrow> owned_transmit \<Rightarrow> 'r socket_state \<Rightarrow>
   panic + 'r socket_state" where
  "try_send lib ops lines i transmit st =
     (case st of (s, e) \<Rightarrow>
        if tx_segment_size transmit \<noteq> None then Inl SegmentedTransmit
        else case quic_addr (sim_node s i) of
          None \<Rightarrow> Inl NotAHost
        | Some source_addr \<Rightarrow>
            bind_ok (track_transmit lib lines (sim_now s) source_addr transmit e) (\<lambda>e'.
              map_sum id (\<lambda>s'. (s', e')) (send_from ops i transmit s)))"

section \<open>Receiving\<close>

record recv_meta =
  rm_addr :: socket_addr
  rm_len :: nat
  rm_stride :: nat
  rm_ecn :: "ecn_codepoint option"
  rm_dst_ip :: "ip_addr option"

definition recv_meta_of :: "in_transit_data \<Rightarrow> recv_meta" where
  "recv_meta_of data =
     (let transmit = pkt_transmit data; len = length (tx_contents transmit)
      in \<lparr>rm_addr = pkt_source_endpoint data, rm_len = len,
          rm_stride = (case tx_segment_size transmit of None \<Rightarrow> len | Some n \<Rightarrow> n),
          rm_ecn = tx_ecn transmit, rm_dst_ip = Some (sa_ip (tx_destination transmit))\<rparr>)"

text \<open>The loop over delivered packets, metas and buffers stops at the end of the shortest.\<close>

fun fill_buffers ::
  "packet_codec \<Rightarrow> keylog \<Rightarrow> instant \<Rightarrow> id \<Rightarrow> delivered_transmit list \<Rightarrow> recv_meta list \<Rightarrow>
   byte list list \<Rightarrow> tracer \<times> pcap_exporter \<Rightarrow>
   panic + (recv_meta list \<times> byte list list) \<times> tracer \<times> pcap_exporter" where
  "fill_buffers lib lines now host (d # ds) (m # ms) (b # bs) (t, e) =
     (let data = dt_data d; contents = tx_contents (pkt_transmit data);
          t' = track_read_by_host now host data t
      in if length b < length contents then Inl BufferTooSmall
         else bind_ok (track_transmit lib lines now (pkt_source_endpoint data) (pkt_transmit data) e)
                (\<lambda>e'. map_sum id (\<lambda>((ms', bs'), st). ((recv_meta_of data # ms',
                                    (contents @ drop (length contents) b) # bs'), st))
                        (fill_buffers lib lines now host ds ms bs (t', e'))))"
| "fill_buffers lib lines now host ds ms bs st = Inr ((ms, bs), st)"

record bufs_and_meta =
  bm_bufs :: "byte list list"
  bm_meta :: "recv_meta list"

definition bufs_and_meta_new :: "recv_meta \<Rightarrow> nat \<Rightarrow> nat \<Rightarrow> bufs_and_meta" where
  "bufs_and_meta_new default_meta max_packet_size max_packets_per_read =
     \<lparr>bm_bufs = replicate max_packets_per_read (replicate max_packet_size 0),
      bm_meta = replicate max_packets_per_read default_meta\<rparr>"

text \<open>\<open>poll_recv\<close> returns the number of delivered packets, or None while none is ready.\<close>

definition poll_recv ::
  "packet_codec \<Rightarrow> keylog \<Rightarrow> nat \<Rightarrow> waker \<Rightarrow> bufs_and_meta \<Rightarrow> 'r socket_state \<Rightarrow>
   panic + nat option \<times> bufs_and_meta \<times> 'r socket_state" where
  "poll_recv lib lines i w bm st =
     (case st of (s, e) \<Rightarrow>
       (let n = sim_node s i; max_transmits = length (bm_meta bm) in
        if length (bm_bufs bm) < max_transmits then Inl TooManyMetas
        else case nd_udp_endpoint n of
          None \<Rightarrow> Inl NotAHost
        | Some endpoint \<Rightarrow>
            (let delivery = (case sim_sockets s ! i of
                               Some f \<Rightarrow> f | None \<Rightarrow> next_packet_delivery_new max_transmits)
             in case poll (sim_now s) w delivery (ue_inbound endpoint) of
                  (r, f, q) \<Rightarrow>
                    let nw = put_node i (n\<lparr>nd_udp_endpoint := Some (endpoint\<lparr>ue_inbound := q\<rparr>)\<rparr>)
                               (sim_network s);
                        s1 = s\<lparr>sim_network := nw, sim_sockets := (sim_sockets s)[i := Some f]\<rparr>
                    in case r of
                         Pending \<Rightarrow> Inr (None, bm, (s1, e))
                       | Ready delivered \<Rightarrow>
                           map_sum id
                             (\<lambda>((ms, bs), t, e'). (Some (length delivered), \<lparr>bm_bufs = bs, bm_meta = ms\<rparr>,
                                (s1\<lparr>sim_network := put_tracer t nw\<rparr>, e')))
                             (fill_buffers lib lines (sim_now s) (nd_id n) delivered (bm_meta bm)
                                (bm_bufs bm) (nw_tracer nw, e)))))"

text \<open>\<open>receive\<close>, once the poll is ready: one packet per index, which may lie beyond the metas.\<close>

record udp_packet =
  up_source_addr :: socket_addr
  up_payload :: "byte list"

definition received_packet :: "bufs_and_meta \<Rightarrow> nat \<Rightarrow> panic + udp_packet" where
  "received_packet bm i =
     (if length (bm_meta bm) \<le> i \<or> length (bm_bufs bm) \<le> i then Inl IndexOutOfBounds
      else let meta = bm_meta bm ! i; buf = bm_bufs bm ! i
           in if length buf < rm_len meta then Inl IndexOutOfBounds
              else Inr \<lparr>up_source_addr = rm_addr meta, up_payload = take (rm_len meta) buf\<rparr>)"

definition receive :: "nat \<Rightarrow> bufs_and_meta \<Rightarrow> panic + udp_packet list" where
  "receive packets bm =
     fold_ok (\<lambda>result i. bind_ok (received_packet bm i) (\<lambda>p. Inr (result @ [p]))) [] [0..<packets]"

section \<open>A socket makes steps of the network\<close>

definition filled :: "delivered_transmit \<Rightarrow> byte list \<Rightarrow> byte list" where
  "filled d b =
     (let contents = tx_contents (pkt_transmit (dt_data d)) in contents @ drop (length contents) b)"

abbreviation contents_of :: "delivered_transmit \<Rightarrow> byte list" where
  "contents_of d \<equiv> tx_contents (pkt_transmit (dt_data d))"

lemma fill_buffers_Cons:
  "fill_buffers lib lines now host (d # ds) (m # ms) (b # bs) (t, e) = Inr ((ms2, bs2), t2, e2) \<longleftrightarrow>
     length (contents_of d) \<le> length b \<and>
     (\<exists>e1 ms1 bs1.
        track_transmit lib lines now (pkt_source_endpoint (dt_data d)) (pkt_transmit (dt_data d)) e = Inr e1 \<and>
        fill_buffers lib lines now host ds ms bs (track_read_by_host now host (dt_data d) t, e1) =
          Inr ((ms1, bs1), t2, e2) \<and>
        ms2 = recv_meta_of (dt_data d) # ms1 \<and> bs2 = filled d b # bs1)"
  by (cases "track_transmit lib lines now (pkt_source_endpoint (dt_data d)) (pkt_transmit (dt_data d)) e")
    (auto simp: Let_def map_sum_def filled_def split: sum.splits)

lemma fill_buffers_Inr:
  assumes "fill_buffers lib lines now host ds ms bs (t, e) = Inr ((ms2, bs2), t2, e2)"
    and "length ms \<le> length bs"
  shows "t2 = fold (\<lambda>d. track_read_by_host now host (dt_data d)) (take (length ms) ds) t \<and>
    length ms2 = length ms \<and> length bs2 = length bs \<and>
    (\<forall>k < length ds. k < length ms \<longrightarrow>
       ms2 ! k = recv_meta_of (dt_data (ds ! k)) \<and> bs2 ! k = filled (ds ! k) (bs ! k) \<and>
       length (contents_of (ds ! k)) \<le> length (bs ! k)) \<and>
    (\<forall>k \<ge> length ds. ms2 ! k = ms ! k \<and> bs2 ! k = bs ! k)"
  using assms
proof (induction ds arbitrary: ms bs t e ms2 bs2)
  case (Cons d ds)
  show ?case
  proof (cases ms)
    case Nil
    with Cons.prems show ?thesis by simp
  next
    case (Cons m ms')
    then obtain b bs' where bs: "bs = b # bs'" using Cons.prems(2) by (cases bs) auto
    from Cons.prems(1) [unfolded Cons bs fill_buffers_Cons] obtain e1 ms1 bs1 where
      d: "length (contents_of d) \<le> length b" and
      rest: "fill_buffers lib lines now host ds ms' bs' (track_read_by_host now host (dt_data d) t, e1) =
        Inr ((ms1, bs1), t2, e2)" and
      out: "ms2 = recv_meta_of (dt_data d) # ms1" "bs2 = filled d b # bs1" by blast
    have "length ms' \<le> length bs'" using Cons.prems(2) Cons bs by simp
    note IH = Cons.IH [OF rest this]
    show ?thesis
    proof (intro conjI allI impI)
      fix k
      assume "k < length (d # ds)" "k < length ms"
      then show "ms2 ! k = recv_meta_of (dt_data ((d # ds) ! k))" "bs2 ! k = filled ((d # ds) ! k) (bs ! k)"
        "length (contents_of ((d # ds) ! k)) \<le> length (bs ! k)"
        using IH d out Cons bs by (cases k; simp)+
    next
      fix k
      assume "length (d # ds) \<le> k"
      then show "ms2 ! k = ms ! k" "bs2 ! k = bs ! k" using IH out Cons bs by (cases k; simp)+
    qed (use IH out Cons bs in simp_all)
  qed
qed auto

text \<open>The delivery a socket keeps returns at most as many packets as its first poll had metas for.\<close>

definition socket_limit :: "'r simulation \<Rightarrow> nat \<Rightarrow> nat \<Rightarrow> bool" where
  "socket_limit s i m \<longleftrightarrow>
     i < length (sim_sockets s) \<and> (\<forall>f. sim_sockets s ! i = Some f \<longrightarrow> np_max_transmits f = m)"

lemma poll_loop_length:
  "poll_loop now m d sleep h = (x, d2, sleep2, h2) \<Longrightarrow> length d2 \<le> max m (length d)"
proof (induction now m d sleep h arbitrary: x d2 sleep2 h2 rule: poll_loop.induct)
  case (1 now m d sleep h)
  show ?case
    using "1.prems" "1.IH"
    by (subst (asm) poll_loop.simps) (fastforce split: if_splits list.splits)
qed

lemma poll_limit:
  assumes "poll now w f q = (r, f2, q2)"
  shows "np_max_transmits f2 = np_max_transmits f"
    and "r = Ready delivered \<Longrightarrow> length delivered \<le> np_max_transmits f"
  using assms poll_loop_length
  by (fastforce simp: poll_def Let_def split: prod.splits loop_exit.splits if_splits)+

text \<open>What a poll of the socket does is the network's \<open>read_at\<close>, with the packets copied out.\<close>

lemma poll_recv_None:
  assumes "poll_recv lib lines i w bm (s, e) = Inr (None, bm2, s2, e2)"
  shows "read_at i w (length (bm_meta bm)) s = Inr ([], s2)" and "bm2 = bm" and "e2 = e"
  using assms
  by (auto simp: poll_recv_def read_at_def Let_def map_sum_def
      split: if_splits option.splits prod.splits poll_result.splits sum.splits)

lemma poll_recv_Some:
  assumes "poll_recv lib lines i w bm (s, e) = Inr (Some n, bm2, s2, e2)"
  shows "\<exists>delivered.
    read_at i w (length (bm_meta bm)) s = Inr (take (length (bm_meta bm)) delivered, s2) \<and>
    n = length delivered \<and> length (bm_meta bm2) = length (bm_meta bm) \<and>
    (socket_limit s i (length (bm_meta bm)) \<longrightarrow>
       n \<le> length (bm_meta bm) \<and> socket_limit s2 i (length (bm_meta bm))) \<and>
    length (bm_meta bm) \<le> length (bm_bufs bm) \<and> length (bm_bufs bm2) = length (bm_bufs bm) \<and>
    (\<forall>k < n. k < length (bm_meta bm) \<longrightarrow>
       bm_meta bm2 ! k = recv_meta_of (dt_data (delivered ! k)) \<and>
       bm_bufs bm2 ! k = filled (delivered ! k) (bm_bufs bm ! k))"
proof -
  let ?n = "sim_node s i"
  from assms obtain endpoint where bound: "length (bm_meta bm) \<le> length (bm_bufs bm)"
    and endpoint: "nd_udp_endpoint ?n = Some endpoint"
    by (auto simp: poll_recv_def Let_def split: if_splits option.splits)
  define delivery where "delivery =
    (case sim_sockets s ! i of Some f \<Rightarrow> f | None \<Rightarrow> next_packet_delivery_new (length (bm_meta bm)))"
  obtain r f q where p: "poll (sim_now s) w delivery (ue_inbound endpoint) = (r, f, q)"
    by (cases "poll (sim_now s) w delivery (ue_inbound endpoint)")
  define nw where "nw = put_node i (?n\<lparr>nd_udp_endpoint := Some (endpoint\<lparr>ue_inbound := q\<rparr>)\<rparr>) (sim_network s)"
  define s1 where "s1 = s\<lparr>sim_network := nw, sim_sockets := (sim_sockets s)[i := Some f]\<rparr>"
  have poll: "poll_recv lib lines i w bm (s, e) = (case r of
      Pending \<Rightarrow> Inr (None, bm, (s1, e))
    | Ready delivered \<Rightarrow>
        map_sum id (\<lambda>((ms, bs), t, e2). (Some (length delivered), \<lparr>bm_bufs = bs, bm_meta = ms\<rparr>,
            (s1\<lparr>sim_network := put_tracer t nw\<rparr>, e2)))
          (fill_buffers lib lines (sim_now s) (nd_id ?n) delivered (bm_meta bm) (bm_bufs bm) (nw_tracer nw, e)))"
    using bound
    by (cases r) (simp_all add: poll_recv_def endpoint Let_def p delivery_def [symmetric] nw_def s1_def)
  then obtain delivered where r: "r = Ready delivered" using assms by (cases r) auto
  with poll assms obtain ms bs t where
    fill: "fill_buffers lib lines (sim_now s) (nd_id ?n) delivered (bm_meta bm) (bm_bufs bm) (nw_tracer nw, e) =
      Inr ((ms, bs), t, e2)" and
    out: "n = length delivered" "bm2 = \<lparr>bm_bufs = bs, bm_meta = ms\<rparr>" "s2 = s1\<lparr>sim_network := put_tracer t nw\<rparr>"
    by (auto simp: map_sum_def split: sum.splits)
  note filled = fill_buffers_Inr [OF fill bound]
  have "read_at i w (length (bm_meta bm)) s = Inr (take (length (bm_meta bm)) delivered, s2)"
    using filled
    by (simp add: read_at_def endpoint Let_def p delivery_def [symmetric] nw_def s1_def r out(3))
  moreover have "np_max_transmits f = length (bm_meta bm) \<and> n \<le> length (bm_meta bm)"
    if "socket_limit s i (length (bm_meta bm))"
    using poll_limit [OF p] that r
    by (auto simp: delivery_def socket_limit_def next_packet_delivery_new_def out(1) split: option.splits)
  moreover have "socket_limit s2 i (length (bm_meta bm))"
    if "socket_limit s i (length (bm_meta bm))" "np_max_transmits f = length (bm_meta bm)"
    using that by (auto simp: out(3) s1_def socket_limit_def)
  ultimately show ?thesis using filled bound by (auto simp: out(1,2))
qed

lemma receive_ok:
  assumes "n \<le> length (bm_meta bm)" and "length (bm_meta bm) \<le> length (bm_bufs bm)"
    and "\<forall>k < n. rm_len (bm_meta bm ! k) \<le> length (bm_bufs bm ! k)"
  shows "receive n bm = Inr (map (\<lambda>k. \<lparr>up_source_addr = rm_addr (bm_meta bm ! k),
    up_payload = take (rm_len (bm_meta bm ! k)) (bm_bufs bm ! k)\<rparr>) [0..<n])"
  using assms unfolding receive_def
  by (induction n) (simp_all add: fold_ok_append received_packet_def Let_def not_less)

lemma receive_too_many:
  assumes "length (bm_meta bm) < n" and "length (bm_meta bm) \<le> length (bm_bufs bm)"
    and "\<forall>k < length (bm_meta bm). rm_len (bm_meta bm ! k) \<le> length (bm_bufs bm ! k)"
  shows "receive n bm = Inl IndexOutOfBounds"
proof -
  let ?m = "length (bm_meta bm)"
  have "[0..<n] = [0..<?m] @ ?m # [Suc ?m..<n]"
    using assms(1) by (metis le_add_diff_inverse less_imp_le upt_add_eq_append upt_conv_Cons zero_le)
  moreover obtain result where "receive ?m bm = Inr result" using receive_ok [OF _ assms(2,3)] by blast
  ultimately show ?thesis by (simp add: receive_def fold_ok_append received_packet_def)
qed

definition udp_packet_of :: "delivered_transmit \<Rightarrow> udp_packet" where
  "udp_packet_of d = \<lparr>up_source_addr = pkt_source_endpoint (dt_data d), up_payload = contents_of d\<rparr>"

lemma receive_delivered:
  assumes "poll_recv lib lines i w bm (s, e) = Inr (Some n, bm2, s2, e2)"
  shows "\<exists>ds. read_at i w (length (bm_meta bm)) s = Inr (ds, s2) \<and>
    receive n bm2 = (if n \<le> length (bm_meta bm) then Inr (map udp_packet_of ds) else Inl IndexOutOfBounds)"
proof -
  obtain delivered where d: "read_at i w (length (bm_meta bm)) s = Inr (take (length (bm_meta bm)) delivered, s2)"
    "n = length delivered" "length (bm_meta bm2) = length (bm_meta bm)"
    "length (bm_meta bm2) \<le> length (bm_bufs bm2)"
    and filled: "\<And>k. k < n \<Longrightarrow> k < length (bm_meta bm) \<Longrightarrow>
      bm_meta bm2 ! k = recv_meta_of (dt_data (delivered ! k)) \<and>
      bm_bufs bm2 ! k = filled (delivered ! k) (bm_bufs bm ! k)"
    using poll_recv_Some [OF assms] by auto
  have len: "rm_len (bm_meta bm2 ! k) \<le> length (bm_bufs bm2 ! k)" if "k < n" "k < length (bm_meta bm)" for k
    using filled [OF that] by (simp add: recv_meta_of_def filled_def Let_def)
  show ?thesis
  proof (cases "n \<le> length (bm_meta bm)")
    case True
    then have "receive n bm2 = Inr (map (\<lambda>k. \<lparr>up_source_addr = rm_addr (bm_meta bm2 ! k),
        up_payload = take (rm_len (bm_meta bm2 ! k)) (bm_bufs bm2 ! k)\<rparr>) [0..<n])"
      using d len by (intro receive_ok) auto
    also have "map (\<lambda>k. \<lparr>up_source_addr = rm_addr (bm_meta bm2 ! k),
        up_payload = take (rm_len (bm_meta bm2 ! k)) (bm_bufs bm2 ! k)\<rparr>) [0..<n] = map udp_packet_of delivered"
      by (rule nth_equalityI)
        (use True filled in \<open>auto simp: d(2) udp_packet_of_def recv_meta_of_def filled_def Let_def\<close>)
    finally show ?thesis using True d(1,2) by simp
  next
    case False
    then have "receive n bm2 = Inl IndexOutOfBounds" using d len by (intro receive_too_many) auto
    then show ?thesis using False d(1) by auto
  qed
qed

section \<open>Properties\<close>

text \<open>
  C29. The socket refines the steps of the network: a successful send is the step \<open>Transmit\<close>, and
  a poll is the step \<open>Receive\<close> with as many transmits as the caller has metas. So everything that
  holds in every reachable state holds after any use of the sockets.
\<close>

theorem socket_refines_network:
  assumes "i < length (nw_nodes (sim_network s))"
  shows "(case try_send lib ops lines i transmit (s, e) of
      Inl p \<Rightarrow> True | Inr (s2, e2) \<Rightarrow> sim_step ops (Transmit i transmit) s = Inr s2) \<and>
    (case poll_recv lib lines i w bm (s, e) of
      Inl p \<Rightarrow> True | Inr (r, bm2, s2, e2) \<Rightarrow> sim_step ops (Receive i w (length (bm_meta bm))) s = Inr s2)"
proof
  show "case try_send lib ops lines i transmit (s, e) of
      Inl p \<Rightarrow> True | Inr (s2, e2) \<Rightarrow> sim_step ops (Transmit i transmit) s = Inr s2"
    using assms
    by (auto simp: try_send_def sim_step_def bind_ok_def map_sum_def split: sum.splits if_splits option.splits)
  show "case poll_recv lib lines i w bm (s, e) of
      Inl p \<Rightarrow> True | Inr (r, bm2, s2, e2) \<Rightarrow> sim_step ops (Receive i w (length (bm_meta bm))) s = Inr s2"
  proof (cases "poll_recv lib lines i w bm (s, e)")
    case (Inr x)
    then obtain r bm2 s2 e2 where p: "poll_recv lib lines i w bm (s, e) = Inr (r, bm2, s2, e2)" by (cases x) auto
    have "\<exists>ds. read_at i w (length (bm_meta bm)) s = Inr (ds, s2)"
    proof (cases r)
      case None
      then show ?thesis using poll_recv_None(1) p by blast
    next
      case (Some n)
      then show ?thesis using receive_delivered [of lib lines i w bm s e n] p by blast
    qed
    with p assms show ?thesis by (auto simp: sim_step_def)
  qed simp
qed

theorem socket_refines_network_witness:
  "\<exists>s. pair_run [] one_packet = Some s \<and>
     (case try_send sample_codec counter_rng [] 0 datagram (s, exporter_new 0 True) of
        Inl p \<Rightarrow> True | Inr (s2, e2) \<Rightarrow> sim_step counter_rng (Transmit 0 datagram) s = Inr s2)"
proof -
  obtain s where s: "pair_run [] one_packet = Some s" using one_packet_runs by blast
  have "0 < length (nw_nodes (sim_network s))" using pair_nodes [OF s] by simp
  with s socket_refines_network [where i = 0 and lib = sample_codec and ops = counter_rng and lines = "[]"
    and transmit = datagram and e = "exporter_new 0 True"]
  show ?thesis by blast
qed

text \<open>Host b waits with two metas while two datagrams for itself are sent at it.\<close>

definition two_waiting :: "label list" where
  "two_waiting = [Receive 1 0 2, Transmit 1 datagram, Transmit 1 datagram]"

definition blank_meta :: recv_meta where
  "blank_meta =
     \<lparr>rm_addr = \<lparr>sa_ip = V6 0, sa_port = 0\<rparr>, rm_len = 0, rm_stride = 0, rm_ecn = None, rm_dst_ip = None\<rparr>"

definition poll_b :: "nat \<Rightarrow> nat simulation \<Rightarrow> panic + nat option \<times> bufs_and_meta \<times> nat socket_state" where
  "poll_b metas s =
     poll_recv sample_codec [] 1 0 (bufs_and_meta_new blank_meta 50 metas) (s, exporter_new 0 True)"

lemma two_waiting_polled:
  obtains s1 bm1 s2 e2 bm3 s4 e4 where "pair_run [] two_waiting = Some s1" "socket_limit s1 1 2"
    "poll_b 2 s1 = Inr (Some 2, bm1, s2, e2)" "poll_b 1 s1 = Inr (Some 2, bm3, s4, e4)"
proof -
  have "case pair_run [] two_waiting of None \<Rightarrow> False
      | Some s \<Rightarrow> length (sim_sockets s) = 2 \<and> map_option np_max_transmits (sim_sockets s ! 1) = Some 2 \<and>
          (case poll_b 2 s of Inl p \<Rightarrow> False | Inr (r, x) \<Rightarrow> r = Some 2) \<and>
          (case poll_b 1 s of Inl p \<Rightarrow> False | Inr (r, x) \<Rightarrow> r = Some 2)"
    by code_simp
  then show ?thesis using that by (fastforce simp: socket_limit_def split: option.splits sum.splits)
qed

text \<open>
  C28. After a poll that is ready, \<open>receive\<close> returns exactly the packets the network handed over, each
  with the address of its sender and its own contents, if the poll delivered no more packets than the caller
  has metas, and panics otherwise. A host that has always polled with the same number of metas is
  in the first case, and stays there.
\<close>

theorem socket_delivers_datagrams:
  assumes "poll_recv lib lines i w bm (s, e) = Inr (Some n, bm2, s2, e2)"
  shows "(\<exists>ds. read_at i w (length (bm_meta bm)) s = Inr (ds, s2) \<and>
      receive n bm2 = (if n \<le> length (bm_meta bm) then Inr (map udp_packet_of ds) else Inl IndexOutOfBounds)) \<and>
    (socket_limit s i (length (bm_meta bm)) \<longrightarrow>
       n \<le> length (bm_meta bm) \<and> socket_limit s2 i (length (bm_meta bm)))"
  using receive_delivered [OF assms] poll_recv_Some [OF assms] by blast

theorem socket_delivers_datagrams_witness:
  "\<exists>s1 bm2 s2 e2 ds. pair_run [] two_waiting = Some s1 \<and> poll_b 2 s1 = Inr (Some 2, bm2, s2, e2) \<and>
     receive 2 bm2 = Inr (map udp_packet_of ds)"
proof -
  obtain s1 bm1 s2 e2 where s: "pair_run [] two_waiting = Some s1" "socket_limit s1 1 2"
    "poll_b 2 s1 = Inr (Some 2, bm1, s2, e2)" using two_waiting_polled by metis
  have "length (bm_meta (bufs_and_meta_new blank_meta 50 2)) = 2" by (simp add: bufs_and_meta_new_def)
  then have "socket_limit s1 1 (length (bm_meta (bufs_and_meta_new blank_meta 50 2)))" using s(2) by simp
  from socket_delivers_datagrams [OF s(3) [unfolded poll_b_def]] this s show ?thesis by fastforce
qed

end
