(* ===== verification/Workbench_Config.thy ===== *)
theory Workbench_Config
  imports Net_Spec
begin

text \<open>
  The configuration of the workbench: the records that the JSON files and the command line are
  parsed into (\<^verbatim>\<open>quinn-workbench/src/config/network.rs\<close>, \<^verbatim>\<open>quinn.rs\<close>, \<^verbatim>\<open>cli.rs\<close>) and their
  conversion into the simulator's specification and events. The parsers of \<^verbatim>\<open>serde\<close> and \<^verbatim>\<open>clap\<close>
  are outside the repository; fields they skip (\<^verbatim>\<open>_type\<close>) are left out.
\<close>

section \<open>QUIC settings of a host\<close>

datatype congestion_control_algorithm = Cubic | NewReno | NoCc | EcnReno

record ack_frequency_json =
  ack_eliciting_threshold :: "nat option"
  max_ack_delay_ms :: "nat option"

record quinn_json =
  initial_rtt_ms :: "nat option"
  maximum_idle_timeout_ms :: "nat option"
  packet_threshold :: "nat option"
  mtu_discovery :: "bool option"
  maximize_send_and_receive_windows :: "bool option"
  ack_frequency_config :: "ack_frequency_json option"
  congestion_controller :: "congestion_control_algorithm option"
  initial_congestion_window_packets :: "nat option"

definition quinn_json_default :: quinn_json where
  "quinn_json_default =
     \<lparr>initial_rtt_ms = None, maximum_idle_timeout_ms = None, packet_threshold = None,
      mtu_discovery = None, maximize_send_and_receive_windows = None, ack_frequency_config = None,
      congestion_controller = None, initial_congestion_window_packets = None\<rparr>"

section \<open>The network graph\<close>

datatype node_kind_json = RouterJson | HostJson

record interface_json =
  ij_addresses :: "ipv4_cidr list"
  ij_routes :: "route list"

record node_json =
  nj_id :: string
  nj_buffer_size_bytes :: nat
  nj_kind :: node_kind_json
  nj_quic :: "quinn_json option"
  nj_interfaces :: "interface_json list"
  nj_packet_duplication_ratio :: f64
  nj_packet_loss_ratio :: f64

record link_json =
  lj_id :: string
  lj_source :: ip_addr
  lj_target :: ip_addr
  lj_bandwidth_bps :: nat
  lj_delay_ms :: nat
  lj_extra_delay_ms :: nat
  lj_extra_delay_ratio :: f64
  lj_congestion_event_ratio :: f64

record network_spec_json =
  nsj_nodes :: "node_json list"
  nsj_links :: "link_json list"

text \<open>A later host with the same id replaces the settings of an earlier one.\<close>

definition quic_configs :: "network_spec_json \<Rightarrow> string \<rightharpoonup> quinn_json" where
  "quic_configs spec =
     fold (\<lambda>n configs.
             case nj_kind n of
               HostJson \<Rightarrow> configs(nj_id n \<mapsto> (case nj_quic n of None \<Rightarrow> quinn_json_default | Some q \<Rightarrow> q))
             | RouterJson \<Rightarrow> configs)
       (nsj_nodes spec) Map.empty"

definition node_of_json :: "node_json \<Rightarrow> network_node_spec" where
  "node_of_json n =
     \<lparr>ns_id = nj_id n, ns_buffer_size_bytes = nj_buffer_size_bytes n,
      ns_kind = (case nj_kind n of RouterJson \<Rightarrow> Router | HostJson \<Rightarrow> Host),
      ns_interfaces = map (\<lambda>i. \<lparr>ni_addresses = ij_addresses i, ni_routes = ij_routes i\<rparr>) (nj_interfaces n),
      ns_packet_loss_ratio = nj_packet_loss_ratio n,
      ns_packet_duplication_ratio = nj_packet_duplication_ratio n\<rparr>"

definition link_of_json :: "link_json \<Rightarrow> network_link_spec" where
  "link_of_json l =
     \<lparr>ls_id = lj_id l, ls_source = lj_source l, ls_target = lj_target l, ls_delay = millis (lj_delay_ms l),
      ls_bandwidth_bps = lj_bandwidth_bps l, ls_congestion_event_ratio = lj_congestion_event_ratio l,
      ls_extra_delay = millis (lj_extra_delay_ms l), ls_extra_delay_ratio = lj_extra_delay_ratio l\<rparr>"

definition spec_of_json :: "network_spec_json \<Rightarrow> network_spec" where
  "spec_of_json json =
     \<lparr>spec_nodes = map node_of_json (nsj_nodes json), spec_links = map link_of_json (nsj_links json)\<rparr>"

section \<open>The network events\<close>

datatype status_json = UpJson | DownJson

record node_event_json =
  nej_id :: string
  nej_status :: "status_json option"
  nej_clear_buffer :: bool

record link_event_json =
  lej_id :: string
  lej_status :: "status_json option"
  lej_bandwidth_bps :: "nat option"
  lej_delay_ms :: "nat option"
  lej_extra_delay_ms :: "nat option"
  lej_extra_delay_ratio :: "f64 option"
  lej_packet_duplication_ratio :: "f64 option"
  lej_packet_loss_ratio :: "f64 option"
  lej_congestion_event_ratio :: "f64 option"

datatype event_payload_json = NodePayload node_event_json | LinkPayload link_event_json

record raw_event_json =
  rej_relative_time_ms :: nat
  rej_link :: "link_event_json option"
  rej_node :: "node_event_json option"

record event_json =
  ej_relative_time_ms :: nat
  ej_payload :: event_payload_json

datatype event_error = BothLinkAndNode | NeitherLinkNorNode

definition event_try_from :: "raw_event_json \<Rightarrow> event_error + event_json" where
  "event_try_from raw =
     bind_ok
       (case (rej_link raw, rej_node raw) of
          (Some l, None) \<Rightarrow> Inr (LinkPayload l)
        | (None, Some n) \<Rightarrow> Inr (NodePayload n)
        | (Some _, Some _) \<Rightarrow> Inl BothLinkAndNode
        | (None, None) \<Rightarrow> Inl NeitherLinkNorNode)
       (\<lambda>payload. Inr \<lparr>ej_relative_time_ms = rej_relative_time_ms raw, ej_payload = payload\<rparr>)"

definition node_payload_of :: "node_event_json \<Rightarrow> node_event_payload" where
  "node_payload_of n =
     \<lparr>nep_node_id = nej_id n,
      nep_status = map_option (\<lambda>s. case s of UpJson \<Rightarrow> NodeUp | DownJson \<Rightarrow> NodeDown) (nej_status n),
      nep_clear_buffer = nej_clear_buffer n\<rparr>"

definition link_payload_of :: "link_event_json \<Rightarrow> link_event_payload" where
  "link_payload_of l =
     \<lparr>lep_link_id = lej_id l,
      lep_status = map_option (\<lambda>s. case s of UpJson \<Rightarrow> LinkUp | DownJson \<Rightarrow> LinkDown) (lej_status l),
      lep_bandwidth_bps = lej_bandwidth_bps l, lep_delay = map_option millis (lej_delay_ms l),
      lep_extra_delay = map_option millis (lej_extra_delay_ms l),
      lep_extra_delay_ratio = lej_extra_delay_ratio l,
      lep_packet_duplication_ratio = lej_packet_duplication_ratio l,
      lep_packet_loss_ratio = lej_packet_loss_ratio l,
      lep_congestion_event_ratio = lej_congestion_event_ratio l\<rparr>"

definition event_of_json :: "event_json \<Rightarrow> network_event" where
  "event_of_json json =
     \<lparr>ev_relative_time = millis (ej_relative_time_ms json),
      ev_kind = (case ej_payload json of
                   NodePayload n \<Rightarrow> NodeEvent (node_payload_of n)
                 | LinkPayload l \<Rightarrow> LinkEvent (link_payload_of l))\<rparr>"

section \<open>The command line\<close>

record network_opt =
  client_ip_address :: ip_addr
  server_ip_address :: ip_addr
  non_deterministic :: bool
  quinn_rng_seed :: nat
  network_rng_seed :: nat
  network_graph :: string
  network_events_path :: string

record quic_opt =
  disable_time_warping :: bool
  qo_requests :: nat
  concurrent_connections :: nat
  concurrent_streams_per_connection :: nat
  response_size :: nat
  request_interval_ms :: "nat option"
  verbose_node_stats :: bool
  qo_network :: network_opt

record ping_opt =
  po_duration_ms :: nat
  po_interval_ms :: nat
  po_deadline_ms :: nat
  po_network :: network_opt

record throughput_opt =
  to_duration_ms :: nat
  to_send_bps :: "nat option"
  to_network :: network_opt

datatype workbench_command = Quic quic_opt | Ping ping_opt | Throughput throughput_opt | Rt

section \<open>Properties\<close>

definition host_configs :: "node_json list \<Rightarrow> (string \<times> quinn_json) list" where
  "host_configs ns =
     map (\<lambda>n. (nj_id n, case nj_quic n of None \<Rightarrow> quinn_json_default | Some q \<Rightarrow> q))
       (filter (\<lambda>n. ns_kind (node_of_json n) = Host) ns)"

lemma quic_configs_fold:
  "fold (\<lambda>n configs. case nj_kind n of
        HostJson \<Rightarrow> configs(nj_id n \<mapsto> (case nj_quic n of None \<Rightarrow> quinn_json_default | Some q \<Rightarrow> q))
      | RouterJson \<Rightarrow> configs) ns m = m ++ map_of (rev (host_configs ns))"
  by (induction ns arbitrary: m) (auto simp: host_configs_def node_of_json_def fun_eq_iff map_add_def
      split: node_kind_json.splits option.splits)

text \<open>
  Every host of the converted specification has QUIC settings, and no other node has: those of
  the last host of the graph with its id, or the defaults where the file gives none. So the lookups
  of the client's and the server's settings cannot fail.
\<close>

lemma quic_configs_of_hosts:
  "(quic_configs json i = None \<longleftrightarrow>
      i \<notin> ns_id ` {n \<in> set (spec_nodes (spec_of_json json)). ns_kind n = Host}) \<and>
   quic_configs json i = map_of (rev (host_configs (nsj_nodes json))) i"
proof
  show "quic_configs json i = map_of (rev (host_configs (nsj_nodes json))) i"
    unfolding quic_configs_def quic_configs_fold by simp
  moreover have "fst ` set (host_configs (nsj_nodes json)) =
      ns_id ` {n \<in> set (spec_nodes (spec_of_json json)). ns_kind n = Host}"
    by (force simp: host_configs_def spec_of_json_def node_of_json_def)
  ultimately show "quic_configs json i = None \<longleftrightarrow>
      i \<notin> ns_id ` {n \<in> set (spec_nodes (spec_of_json json)). ns_kind n = Host}"
    by (simp add: map_of_eq_None_iff)
qed

end
