(* ===== verification/Udp_Throughput.thy ===== *)
theory Udp_Throughput
  imports Quinn_Socket Sliding_Window Workbench_Config
begin

text \<open>
  The throughput simulation, \<^verbatim>\<open>quinn-workbench/src/udp/throughput.rs\<close>: how much the sender offers
  per interval and in which packets, what the receiver records, and the smoothed throughput
  computed from it. The lemmas relate the packets to the configured rate and the running maximum to
  its definition by windows.
\<close>

section \<open>The sender\<close>

definition max_link_bps :: "network_spec \<Rightarrow> nat option" where
  "max_link_bps spec =
     (case map ls_bandwidth_bps (spec_links spec) of [] \<Rightarrow> None | b # bs \<Rightarrow> Some (fold max bs b))"

definition send_bps_of :: "throughput_opt \<Rightarrow> network_spec \<Rightarrow> nat option" where
  "send_bps_of opt spec =
     map_option (\<lambda>m. case to_send_bps opt of Some bps \<Rightarrow> bps | None \<Rightarrow> mul64 2 m) (max_link_bps spec)"

definition send_interval_ms :: nat where "send_interval_ms = 50"

definition send_bytes_per_interval :: "nat \<Rightarrow> nat" where
  "send_bytes_per_interval send_bps =
     (let send_bytes_per_second = send_bps div 8
      in send_bytes_per_second div (1000 div send_interval_ms))"

definition max_bytes_per_transmit :: nat where "max_bytes_per_transmit = 1200"

text \<open>The sizes of the packets of one interval, and the sends themselves.\<close>

function packet_sizes :: "nat \<Rightarrow> nat list" where
  "packet_sizes bytes_left =
     (if 0 < bytes_left
      then let next_packet_size_bytes = min max_bytes_per_transmit bytes_left
           in next_packet_size_bytes # packet_sizes (bytes_left - next_packet_size_bytes)
      else [])"
  by pat_completeness auto
termination
  by (relation "measure id") (auto simp: max_bytes_per_transmit_def)

declare packet_sizes.simps [simp del]

definition send_interval ::
  "packet_codec \<Rightarrow> 'r rng_ops \<Rightarrow> nat \<Rightarrow> ip_addr \<Rightarrow> nat \<Rightarrow> 'r socket_state \<Rightarrow> panic + 'r socket_state" where
  "send_interval lib ops client server_ip bytes st =
     fold_ok (\<lambda>st n. try_send lib ops [] client
                \<lparr>tx_destination = \<lparr>sa_ip = server_ip, sa_port = 8080\<rparr>, tx_ecn = None,
                 tx_contents = replicate n 0, tx_segment_size = None\<rparr> st)
       st (packet_sizes bytes)"

section \<open>The receiver\<close>

text \<open>The loop over the packets of one read; None is the failed assertion on the source address.\<close>

definition record_arrivals ::
  "ip_addr \<Rightarrow> duration \<Rightarrow> udp_packet list \<Rightarrow> (duration \<times> nat) list \<Rightarrow> (duration \<times> nat) list option" where
  "record_arrivals client_ip elapsed packets arrived =
     (if \<forall>p \<in> set packets. sa_ip (up_source_addr p) = client_ip
      then Some (arrived @ map (\<lambda>p. (elapsed, length (up_payload p))) packets) else None)"

section \<open>The smoothed throughput\<close>

definition window_duration :: duration where "window_duration = millis 100"

record throughput_state =
  ts_window :: "(duration \<times> nat) list"
  ts_bytes_in_window :: nat
  ts_max_smoothed_throughput_bps :: nat

definition throughput_start :: throughput_state where
  "throughput_start =
     \<lparr>ts_window = [], ts_bytes_in_window = 0, ts_max_smoothed_throughput_bps = 0\<rparr>"

fun leave_window :: "duration \<Rightarrow> nat \<Rightarrow> (duration \<times> nat) list \<Rightarrow> nat \<times> (duration \<times> nat) list" where
  "leave_window arrived_at bytes_in_window [] = (bytes_in_window, [])"
| "leave_window arrived_at bytes_in_window ((t, bytes) # rest) =
     (if t + window_duration < arrived_at
      then leave_window arrived_at (sub64 bytes_in_window bytes) rest
      else (bytes_in_window, (t, bytes) # rest))"

definition packet_arrived :: "duration \<Rightarrow> nat \<Rightarrow> throughput_state \<Rightarrow> throughput_state" where
  "packet_arrived arrived_at bytes s =
     (case leave_window arrived_at (ts_bytes_in_window s) (ts_window s) of
        (bytes_in_window, window) \<Rightarrow>
          let bytes_in_window' = add64 bytes_in_window bytes;
              smoothed_throughput_bps = mul64 (mul64 bytes_in_window' 8) 10
          in \<lparr>ts_window = window @ [(arrived_at, bytes)], ts_bytes_in_window = bytes_in_window',
              ts_max_smoothed_throughput_bps =
                max (ts_max_smoothed_throughput_bps s) smoothed_throughput_bps\<rparr>)"

definition max_smoothed_throughput :: "(duration \<times> nat) list \<Rightarrow> nat" where
  "max_smoothed_throughput packets =
     ts_max_smoothed_throughput_bps (fold (\<lambda>(t, n). packet_arrived t n) packets throughput_start)"

lemma leave_window_window: "snd (leave_window now n ps) = dropWhile (\<lambda>p. fst p + window_duration < now) ps"
  by (induction now n ps rule: leave_window.induct) auto

lemma leave_window_bytes:
  "n = weight ps \<Longrightarrow> fst (leave_window now n ps) = weight (dropWhile (\<lambda>p. fst p + window_duration < now) ps)"
  by (induction now n ps rule: leave_window.induct) (auto simp: sub64_def)

lemma packet_arrived_window:
  "ts_window (packet_arrived t n s) = dropWhile (\<lambda>p. fst p + window_duration < t) (ts_window s) @ [(t, n)]"
  using leave_window_window [of t "ts_bytes_in_window s" "ts_window s"]
  by (auto simp: packet_arrived_def Let_def split: prod.splits)

interpretation tw: sliding_window window_duration "\<lambda>n. n" packet_arrived ts_window ts_bytes_in_window
proof unfold_locales
  show "ts_window (packet_arrived t n s) =
      dropWhile (\<lambda>p. fst p + window_duration < t) (ts_window s) @ [(t, n)]" for t n s
    by (simp add: packet_arrived_window)
  fix t n and s :: throughput_state
  assume a: "ts_bytes_in_window s = weight (ts_window s)" "ts_bytes_in_window s + n < 2 ^ 64"
  have "weight (dropWhile (\<lambda>p. fst p + window_duration < t) (ts_window s)) + n < 2 ^ 64"
    using weight_dropWhile_le [of _ "ts_window s"] a by (metis add_le_mono1 le_less_trans)
  then show "ts_bytes_in_window (packet_arrived t n s) = weight (ts_window (packet_arrived t n s))"
    using leave_window_bytes [OF a(1), of t]
    unfolding packet_arrived_window
    by (auto simp: packet_arrived_def Let_def add64_id split: prod.splits)
qed

lemma packet_sizes_spec:
  "sum_list (packet_sizes b) = b \<and> (\<forall>n \<in> set (packet_sizes b). 0 < n \<and> n \<le> 1200) \<and>
   (\<forall>n \<in> set (butlast (packet_sizes b)). n = 1200)"
proof (induction b rule: packet_sizes.induct)
  case (1 b)
  show ?case
  proof (cases "0 < b")
    case True
    define n where "n = min max_bytes_per_transmit b"
    have n: "0 < n" "n \<le> 1200" "n \<le> b" "n = 1200 \<or> n = b"
      using True by (auto simp: n_def max_bytes_per_transmit_def)
    have "packet_sizes b = n # packet_sizes (b - n)"
      using True by (subst packet_sizes.simps) (simp add: n_def Let_def)
    moreover have "packet_sizes 0 = []" by (simp add: packet_sizes.simps)
    ultimately show ?thesis using "1.IH" [OF True n_def] n by auto
  qed (simp add: packet_sizes.simps [of 0])
qed

section \<open>Properties\<close>

text \<open>
  C31. The packets the sender offers in each interval of 50 ms carry exactly the configured bits per
  second (rounded down to whole bytes per interval): none is empty or longer than the receiver's
  buffers of 1200 bytes, and all but the last are full.
\<close>

theorem sender_keeps_rate:
  "sum_list (packet_sizes (send_bytes_per_interval bps)) = bps div 160 \<and>
   (\<forall>n \<in> set (packet_sizes (send_bytes_per_interval bps)). 0 < n \<and> n \<le> 1200) \<and>
   (\<forall>n \<in> set (butlast (packet_sizes (send_bytes_per_interval bps))). n = 1200)"
proof -
  have "send_bytes_per_interval bps = bps div 160"
    by (simp add: send_bytes_per_interval_def send_interval_ms_def div_mult2_eq [symmetric])
  with packet_sizes_spec show ?thesis by metis
qed

theorem sender_keeps_rate_witness:
  "sum_list (packet_sizes (send_bytes_per_interval 1000000)) = 6250"
  using sender_keeps_rate [of 1000000] by simp

lemma Max_image_Suc:
  fixes f :: "nat \<Rightarrow> nat"
  shows "Max (insert 0 (f ` {..<Suc n})) = max (Max (insert 0 (f ` {..<n}))) (f n)"
proof -
  have "insert 0 (f ` {..<Suc n}) = insert (f n) (insert 0 (f ` {..<n}))" by (auto simp: lessThan_Suc)
  then show ?thesis by (simp only: Max_insert finite_insert finite_imageI finite_lessThan
        insert_not_empty not_False_eq_True max.commute)
qed

text \<open>
  For packets in order of arrival, the maximal smoothed throughput is the greatest number of
  bits, over all packets, that arrived in the 100 ms up to that packet, times ten.
\<close>

lemma max_smoothed_is_peak:
  assumes "sorted (map fst packets)" and "80 * (\<Sum>(t, n) \<leftarrow> packets. n) < 2 ^ 64"
  shows "max_smoothed_throughput packets =
    Max (insert 0 ((\<lambda>k. 80 * (\<Sum>(t, n) \<leftarrow> take (Suc k) packets.
                             if fst (packets ! k) \<le> t + millis 100 then n else 0)) ` {..<length packets}))"
  using assms
proof (induction packets rule: rev_induct)
  case Nil
  then show ?case by (simp add: max_smoothed_throughput_def throughput_start_def)
next
  case (snoc p ps)
  obtain t n where p: "p = (t, n)" by (cases p)
  let ?run = "\<lambda>ps. fold (\<lambda>(t, n). packet_arrived t n) ps throughput_start"
  let ?peak = "\<lambda>ps k. 80 * (\<Sum>(t, n) \<leftarrow> take (Suc k) ps. if fst (ps ! k) \<le> t + millis 100 then n else 0)"
  have ids: "map (\<lambda>(u, n). (u, n)) qs = qs" for qs :: "(nat \<times> nat) list" by (induction qs) auto
  have total: "weight (map (\<lambda>(u, n). (u, n)) (ps @ [(t, n)])) = (\<Sum>(t, n) \<leftarrow> ps @ [p]. n)"
    unfolding ids by (simp add: weight_def p comp_def case_prod_unfold)
  then have small: "weight (map (\<lambda>(u, n). (u, n)) (ps @ [(t, n)])) < 2 ^ 64"
    using snoc.prems(2) by linarith
  have "ts_bytes_in_window (?run (ps @ [p])) = weight (tw.recent t (ps @ [(t, n)]))"
    using tw.window_after [of throughput_start ps t n] snoc.prems(1) small
    by (simp add: tw.pushes_def throughput_start_def p)
  also have "\<dots> = (\<Sum>(u, m) \<leftarrow> ps @ [p]. if t \<le> u + millis 100 then m else 0)"
    using weight_filter_map [of "\<lambda>u. t \<le> u + millis 100" "\<lambda>n. n" "ps @ [(t, n)]"]
    by (simp add: tw.recent_def p) (simp add: window_duration_def)
  finally have bytes: "80 * ts_bytes_in_window (?run (ps @ [p])) = ?peak (ps @ [p]) (length ps)"
    by (simp add: p)
  have "ts_bytes_in_window (?run (ps @ [p])) \<le> (\<Sum>(t, n) \<leftarrow> ps @ [p]. n)"
    using tw.window_after [of throughput_start ps t n] snoc.prems(1) small
      tw.weight_recent_le [of t "ps @ [(t, n)]"] total
    by (simp add: tw.pushes_def throughput_start_def p)
  then have "80 * ts_bytes_in_window (?run (ps @ [p])) < 2 ^ 64" using snoc.prems(2) by linarith
  then have "mul64 (mul64 (ts_bytes_in_window (?run (ps @ [p]))) 8) 10 = ?peak (ps @ [p]) (length ps)"
    unfolding bytes [symmetric] by (simp add: mul64_id)
  moreover have "ts_max_smoothed_throughput_bps (packet_arrived t n s) =
      max (ts_max_smoothed_throughput_bps s) (mul64 (mul64 (ts_bytes_in_window (packet_arrived t n s)) 8) 10)" for s
    by (simp add: packet_arrived_def Let_def split: prod.splits)
  moreover have "max_smoothed_throughput ps = Max (insert 0 (?peak ps ` {..<length ps}))"
    using snoc by (auto simp: sorted_append)
  moreover have "?peak ps ` {..<length ps} = ?peak (ps @ [p]) ` {..<length ps}"
    by (intro image_cong) (simp_all add: nth_append)
  ultimately have "max_smoothed_throughput (ps @ [p]) =
      max (Max (insert 0 (?peak (ps @ [p]) ` {..<length ps}))) (?peak (ps @ [p]) (length ps))"
    by (simp add: max_smoothed_throughput_def p)
  also have "\<dots> = Max (insert 0 (?peak (ps @ [p]) ` {..<length (ps @ [p])}))"
    using Max_image_Suc [of "?peak (ps @ [p])" "length ps"] by (simp only: length_append_singleton)
  finally show ?case .
qed

end
