(* ===== verification/Quic_Setup.thy ===== *)
theory Quic_Setup
  imports Workbench_Config
begin

text \<open>
  How the workbench configures QUIC: the check of the options and the transport settings
  (\<^verbatim>\<open>quinn-workbench/src/quic/mod.rs\<close>), the congestion controllers it adds
  (\<^verbatim>\<open>quinn_extensions/no_cc.rs\<close>, \<^verbatim>\<open>ecn_cc.rs\<close>) and the empty connection ids (\<^verbatim>\<open>no_cid.rs\<close>), the
  names of connections (\<^verbatim>\<open>quic/simulation.rs\<close>) and the server's response (\<^verbatim>\<open>quic/server.rs\<close>).

  The settings objects and the other controllers belong to \<^verbatim>\<open>quinn_proto\<close>, outside the repository:
  the model records the calls of its setters, in order, and takes a controller as a parameter. The
  arithmetic is that of the release build.
\<close>

section \<open>Options\<close>

text \<open>The command line's default values; the addresses and the paths must be given.\<close>

definition network_opt_default :: "ip_addr \<Rightarrow> ip_addr \<Rightarrow> string \<Rightarrow> string \<Rightarrow> network_opt" where
  "network_opt_default client_ip server_ip graph events =
     \<lparr>client_ip_address = client_ip, server_ip_address = server_ip, non_deterministic = False,
      quinn_rng_seed = 0, network_rng_seed = 42, network_graph = graph, network_events_path = events\<rparr>"

definition quic_opt_default :: "network_opt \<Rightarrow> quic_opt" where
  "quic_opt_default network =
     \<lparr>disable_time_warping = False, qo_requests = 10, concurrent_connections = 1,
      concurrent_streams_per_connection = 1, response_size = 1024, request_interval_ms = None,
      verbose_node_stats = False, qo_network = network\<rparr>"

definition validate_opts :: "quic_opt \<Rightarrow> bool" where
  "validate_opts opts \<longleftrightarrow>
     \<not> ((case request_interval_ms opts of None \<Rightarrow> 0 | Some ms \<Rightarrow> ms) \<noteq> 0 \<and>
        concurrent_streams_per_connection opts \<noteq> 1)"

text \<open>\<^verbatim>\<open>b'Z' - b'A'\<close>\<close>

definition max_connections :: nat where "max_connections = 90 - 65"

definition connection_name :: "nat \<Rightarrow> char" where
  "connection_name i = char_of (i + 65)"

text \<open>The names of the connections that are started, or None for the error exit.\<close>

definition connection_names :: "quic_opt \<Rightarrow> char list option" where
  "connection_names opts =
     (if max_connections < concurrent_connections opts then None
      else Some (map connection_name [0..<concurrent_connections opts]))"

section \<open>The server's response\<close>

definition lorem_ipsum :: string where "lorem_ipsum = ''Lorem ipsum ''"

text \<open>\<open>cycle().take(n)\<close>: the iterator starts over when the text is exhausted.\<close>

fun cycle_take :: "nat \<Rightarrow> string \<Rightarrow> string \<Rightarrow> string" where
  "cycle_take 0 rest whole = []"
| "cycle_take (Suc n) [] whole = (case whole of [] \<Rightarrow> [] | c # cs \<Rightarrow> c # cycle_take n cs whole)"
| "cycle_take (Suc n) (c # cs) whole = c # cycle_take n cs whole"

definition response_payload :: "nat \<Rightarrow> string" where
  "response_payload response_payload_size = cycle_take response_payload_size lorem_ipsum lorem_ipsum"

section \<open>Transport settings\<close>

datatype cc_factory =
    CubicFactory "nat option"
  | NewRenoFactory "nat option"
  | NoCcFactory nat
  | EcnCcFactory cc_factory

datatype ack_frequency_setting =
    AckElicitingThreshold nat
  | MaxAckDelay duration
  | ReorderingThreshold nat

datatype transport_setting =
    MtuDiscoveryDisabled
  | MaxIdleTimeout duration
  | ReceiveWindowMax
  | StreamReceiveWindowMax
  | SendWindow nat
  | PacketThreshold nat
  | CongestionController cc_factory
  | AckFrequency "ack_frequency_setting list"
  | InitialRtt duration

definition base_datagram_size :: nat where "base_datagram_size = 1200"

definition congestion_window_bytes :: "nat \<Rightarrow> nat" where
  "congestion_window_bytes packets = mul64 packets base_datagram_size"

definition cc_factory_of :: "quinn_json \<Rightarrow> cc_factory" where
  "cc_factory_of q =
     (let window = map_option congestion_window_bytes (initial_congestion_window_packets q) in
      case (case congestion_controller q of None \<Rightarrow> Cubic | Some c \<Rightarrow> c) of
        Cubic \<Rightarrow> CubicFactory window
      | NewReno \<Rightarrow> NewRenoFactory window
      | NoCc \<Rightarrow> NoCcFactory (case window of Some bytes \<Rightarrow> bytes | None \<Rightarrow> u64_max)
      | EcnReno \<Rightarrow> EcnCcFactory (NewRenoFactory window))"

definition sub32 :: "nat \<Rightarrow> nat \<Rightarrow> nat" where
  "sub32 a b = (if b \<le> a then a - b else (2 ^ 32 + a - b) mod 2 ^ 32)"

definition ack_frequency_of :: "quinn_json \<Rightarrow> ack_frequency_json \<Rightarrow> ack_frequency_setting list" where
  "ack_frequency_of q a =
     (case ack_eliciting_threshold a of None \<Rightarrow> [] | Some n \<Rightarrow> [AckElicitingThreshold n]) @
     (case max_ack_delay_ms a of None \<Rightarrow> [] | Some ms \<Rightarrow> [MaxAckDelay (millis ms)]) @
     [ReorderingThreshold (sub32 (case packet_threshold q of None \<Rightarrow> 3 | Some n \<Rightarrow> n) 1)]"

text \<open>\<open>idle_timeout_fits\<close> is the conversion of a duration to an idle timeout; None is its unwrap's panic.\<close>

definition transport_config :: "(duration \<Rightarrow> bool) \<Rightarrow> quinn_json \<Rightarrow> transport_setting list option" where
  "transport_config idle_timeout_fits q =
     (if \<exists>ms. maximum_idle_timeout_ms q = Some ms \<and> \<not> idle_timeout_fits (millis ms) then None
      else Some
        ((if mtu_discovery q = Some False then [MtuDiscoveryDisabled] else []) @
         (case maximum_idle_timeout_ms q of None \<Rightarrow> [] | Some ms \<Rightarrow> [MaxIdleTimeout (millis ms)]) @
         (if maximize_send_and_receive_windows q = Some True
          then [ReceiveWindowMax, StreamReceiveWindowMax, SendWindow u64_max] else []) @
         (case packet_threshold q of None \<Rightarrow> [] | Some n \<Rightarrow> [PacketThreshold n]) @
         [CongestionController (cc_factory_of q)] @
         (case ack_frequency_config q of None \<Rightarrow> [] | Some a \<Rightarrow> [AckFrequency (ack_frequency_of q a)]) @
         (case initial_rtt_ms q of None \<Rightarrow> [] | Some ms \<Rightarrow> [InitialRtt (millis ms)])))"

section \<open>Congestion controllers\<close>

text \<open>
  A controller of the library as a table of its methods on a state; the round-trip estimator an
  acknowledgement carries is left out, no method of the repository reads it.
\<close>

datatype cc_event =
    OnSent instant nat nat
  | OnAck instant instant nat bool
  | OnEndAcks instant nat bool "nat option"
  | OnCongestionEvent instant instant bool nat
  | OnMtuUpdate nat

record 'c controller =
  cc_handle :: "cc_event \<Rightarrow> 'c \<Rightarrow> 'c"
  cc_window :: "'c \<Rightarrow> nat"
  cc_initial_window :: "'c \<Rightarrow> nat"

record no_cc =
  nc_config_initial_window :: nat
  nc_window :: nat

definition no_cc_new :: "nat \<Rightarrow> no_cc" where
  "no_cc_new initial_window = \<lparr>nc_config_initial_window = initial_window, nc_window = initial_window\<rparr>"

definition no_cc_default_window :: nat where "no_cc_default_window = u64_max"

text \<open>\<open>on_sent\<close> and \<open>on_end_acks\<close> are the empty defaults of the trait.\<close>

definition no_cc_controller :: "no_cc controller" where
  "no_cc_controller =
     \<lparr>cc_handle = (\<lambda>event c. c), cc_window = nc_window, cc_initial_window = nc_config_initial_window\<rparr>"

definition ecn_cc :: "'c controller \<Rightarrow> 'c controller" where
  "ecn_cc inner =
     \<lparr>cc_handle = (\<lambda>event c.
        case event of
          OnCongestionEvent now sent is_persistent_congestion lost_bytes \<Rightarrow>
            if lost_bytes = 0 then cc_handle inner event c else c
        | _ \<Rightarrow> cc_handle inner event c),
      cc_window = cc_window inner, cc_initial_window = cc_initial_window inner\<rparr>"

text \<open>A factory of the library builds a controller with its state; \<open>EcnCcFactory\<close> calls its inner one.\<close>

type_synonym 'c cc_builder = "instant \<Rightarrow> nat \<Rightarrow> 'c controller \<times> 'c"

definition ecn_cc_build :: "'c cc_builder \<Rightarrow> 'c cc_builder" where
  "ecn_cc_build inner now current_mtu = inner now current_mtu"

definition no_cc_build :: "nat \<Rightarrow> no_cc cc_builder" where
  "no_cc_build initial_window now current_mtu = (no_cc_controller, no_cc_new initial_window)"

definition cc_run :: "'c controller \<Rightarrow> cc_event list \<Rightarrow> 'c \<Rightarrow> 'c" where
  "cc_run ctl events c = fold (cc_handle ctl) events c"

fun is_loss :: "cc_event \<Rightarrow> bool" where
  "is_loss (OnCongestionEvent now sent persistent lost_bytes) \<longleftrightarrow> lost_bytes \<noteq> 0"
| "is_loss event \<longleftrightarrow> False"

section \<open>Connection ids\<close>

definition generate_cid :: "8 word list" where "generate_cid = []"
definition cid_len :: nat where "cid_len = 0"
definition cid_lifetime :: "duration option" where "cid_lifetime = None"

section \<open>Properties\<close>

lemma cycle_take_nth:
  assumes "whole \<noteq> []"
  shows "k \<le> length whole \<Longrightarrow> length (cycle_take n (drop k whole) whole) = n \<and>
    (\<forall>i < n. cycle_take n (drop k whole) whole ! i = whole ! ((k + i) mod length whole))"
proof (induction n arbitrary: k)
  case (Suc n)
  obtain c cs where w: "whole = c # cs" using assms by (cases whole) auto
  define j where "j = (if k = length whole then 0 else k)"
  have j: "j < length whole" using Suc.prems assms by (auto simp: j_def)
  have step: "cycle_take (Suc n) (drop k whole) whole = whole ! j # cycle_take n (drop (Suc j) whole) whole"
  proof (cases "k = length whole")
    case True
    then show ?thesis by (simp add: j_def w)
  next
    case False
    then have "drop k whole = whole ! k # drop (Suc k) whole"
      using Suc.prems by (simp add: Cons_nth_drop_Suc)
    then show ?thesis using False by (simp add: j_def)
  qed
  have jk: "(k + i) mod length whole = (j + i) mod length whole" for i by (simp add: j_def)
  have IH: "length (cycle_take n (drop (Suc j) whole) whole) = n"
    "\<And>i. i < n \<Longrightarrow> cycle_take n (drop (Suc j) whole) whole ! i = whole ! ((Suc j + i) mod length whole)"
    using Suc.IH [of "Suc j"] j by auto
  show ?case
  proof (intro conjI allI impI)
    show "length (cycle_take (Suc n) (drop k whole) whole) = Suc n" unfolding step by (simp add: IH(1))
    fix i
    assume "i < Suc n"
    then show "cycle_take (Suc n) (drop k whole) whole ! i = whole ! ((k + i) mod length whole)"
      unfolding step jk using IH(2) j by (cases i) simp_all
  qed
qed simp

text \<open>The response has the configured size, and its bytes are those of the sample text over and over.\<close>

lemma response_repeats_text:
  "length (response_payload n) = n \<and>
   (\<forall>i < n. response_payload n ! i = lorem_ipsum ! (i mod length lorem_ipsum))"
  using cycle_take_nth [of lorem_ipsum 0 n] by (simp add: response_payload_def lorem_ipsum_def)

text \<open>
  Connections that start have distinct names, each an uppercase letter, and the program stops
  with an error exactly when more than 25 are asked for.
\<close>

lemma connection_names_distinct:
  "case connection_names opts of
     None \<Rightarrow> 25 < concurrent_connections opts
   | Some names \<Rightarrow> concurrent_connections opts \<le> 25 \<and> length names = concurrent_connections opts \<and>
       distinct names \<and> set names \<subseteq> char_of ` {65..<90 :: nat}"
proof -
  have inj: "inj_on connection_name {0..<25}"
    by (auto simp: inj_on_def connection_name_def char_of_eq_iff of_char_of take_bit_nat_eq_self)
  have "distinct (map connection_name [0..<n])" if "n \<le> 25" for n
    using that by (auto simp: distinct_map intro: inj_on_subset [OF inj])
  then show ?thesis
    by (auto simp: connection_names_def max_connections_def connection_name_def image_iff)
qed

text \<open>
  The ECN controller does what its inner controller would do had the loss events not happened,
  and the controller without congestion control keeps its configured window through any events.
\<close>

lemma controllers_ignore_loss:
  "cc_run (ecn_cc inner) events c = cc_run inner (filter (\<lambda>e. \<not> is_loss e) events) c \<and>
   cc_window no_cc_controller (cc_run no_cc_controller events (no_cc_new w)) = w"
proof
  show "cc_run (ecn_cc inner) events c = cc_run inner (filter (\<lambda>e. \<not> is_loss e) events) c"
    by (induction events arbitrary: c) (auto simp: cc_run_def ecn_cc_def split: cc_event.splits)
  show "cc_window no_cc_controller (cc_run no_cc_controller events (no_cc_new w)) = w"
    by (induction events) (auto simp: cc_run_def no_cc_controller_def no_cc_new_def)
qed

fun factory_window :: "cc_factory \<Rightarrow> nat option" where
  "factory_window (CubicFactory w) = w"
| "factory_window (NewRenoFactory w) = w"
| "factory_window (NoCcFactory w) = Some w"
| "factory_window (EcnCcFactory f) = factory_window f"

text \<open>
  C36. The transport settings name exactly one congestion controller. Its initial window is 1200
  bytes per configured packet, modulo \<open>2^64\<close>; without a configured number it is the library's, or
  unlimited without congestion control.
\<close>

theorem transport_window:
  assumes "transport_config fits q = Some settings"
  shows "\<exists>f. {g. CongestionController g \<in> set settings} = {f} \<and>
    factory_window f =
      (case initial_congestion_window_packets q of
         Some packets \<Rightarrow> Some ((1200 * packets) mod 2 ^ 64)
       | None \<Rightarrow> if congestion_controller q = Some NoCc then Some (2 ^ 64 - 1) else None)"
proof (intro exI [of _ "cc_factory_of q"] conjI)
  show "{g. CongestionController g \<in> set settings} = {cc_factory_of q}"
    using assms by (auto simp: transport_config_def split: if_splits option.splits)
  show "factory_window (cc_factory_of q) =
      (case initial_congestion_window_packets q of
         Some packets \<Rightarrow> Some ((1200 * packets) mod 2 ^ 64)
       | None \<Rightarrow> if congestion_controller q = Some NoCc then Some (2 ^ 64 - 1) else None)"
    by (auto simp: cc_factory_of_def Let_def congestion_window_bytes_def mul64_def wrap64_def
        base_datagram_size_def u64_max_def mult.commute
        split: option.splits congestion_control_algorithm.splits)
qed

theorem transport_window_witness:
  "\<exists>settings f. transport_config (\<lambda>d. True)
       (quinn_json_default\<lparr>congestion_controller := Some NoCc,
          initial_congestion_window_packets := Some (2 ^ 60)\<rparr>) = Some settings \<and>
     {g. CongestionController g \<in> set settings} = {f} \<and> factory_window f = Some 0"
proof -
  let ?q = "quinn_json_default\<lparr>congestion_controller := Some NoCc,
    initial_congestion_window_packets := Some (2 ^ 60)\<rparr>"
  obtain settings where s: "transport_config (\<lambda>d. True) ?q = Some settings"
    by (simp add: transport_config_def)
  from transport_window [OF s] s show ?thesis by auto
qed

end
