(* ===== verification/Workbench_Report.thy ===== *)
theory Workbench_Report
  imports Replay_Run Udp_Throughput Quic_Setup "HOL-Library.List_Lexorder" "HOL-Library.Char_ord"
begin

text \<open>
  What the workbench prints after a run, \<^verbatim>\<open>quinn-workbench/src/util.rs\<close>, the ends of \<^verbatim>\<open>quic/mod.rs\<close>,
  \<^verbatim>\<open>udp/ping.rs\<close> and \<^verbatim>\<open>udp/throughput.rs\<close>, and the start they share. A printed line is a value with the
  numbers it shows. The statistics are hash maps; a function that walks over one takes the order of
  the walk as an argument, a list of the keys.
\<close>

section \<open>Queries of the network\<close>

definition host :: "'r network \<Rightarrow> ip_addr \<Rightarrow> panic + nat" where
  "host nw ip =
     (case nw_nodes_by_addr nw ip of
        None \<Rightarrow> Inl NoSuchKey
      | Some i \<Rightarrow> if nd_udp_endpoint (nw_nodes nw ! i) = None then Inl NotAHost else Inr i)"

definition get_node_ids :: "id list \<Rightarrow> 'r network \<Rightarrow> id list" where
  "get_node_ids order nw = sort (filter (\<lambda>i. nw_nodes_by_id nw i \<noteq> None) order)"

definition get_link_status :: "'r network \<Rightarrow> id \<Rightarrow> panic + string" where
  "get_link_status nw i =
     (case nw_links_by_id nw i of
        None \<Rightarrow> Inl NoSuchKey | Some l \<Rightarrow> Inr (status_str (nl_status (nw_links nw ! l))))"

definition get_node_status :: "'r network \<Rightarrow> id \<Rightarrow> panic + string" where
  "get_node_status nw i =
     (case nw_nodes_by_id nw i of
        None \<Rightarrow> Inl NoSuchKey | Some n \<Rightarrow> Inr (status_str (nd_status (nw_nodes nw ! n))))"

definition get_link_bandwidth_bps :: "'r network \<Rightarrow> id \<Rightarrow> panic + nat" where
  "get_link_bandwidth_bps nw i =
     (case nw_links_by_id nw i of
        None \<Rightarrow> Inl NoSuchKey | Some l \<Rightarrow> Inr (nl_bandwidth_bps (nw_links nw ! l)))"

section \<open>Lines\<close>

text \<open>A usage ratio is None when the bandwidth is zero; then the code prints \<^verbatim>\<open>inf\<close> or \<^verbatim>\<open>NaN\<close>.\<close>

datatype report_line =
    Heading string
  | InitialStatus id string
  | BufferUsage id nat nat
  | LinkName id
  | UsedBandwidth nat "f64 option"
  | NodeName id string
  | Packets string packet_stats
  | MaxSmoothedThroughput nat
  | ErrorsHeading "nat option"
  | ErrorLine non_fatal_error
  | EndsWithError

section \<open>Statistics\<close>

definition cmp_of :: "'a::linorder \<Rightarrow> 'a \<Rightarrow> ordering" where
  "cmp_of a b = (if a < b then Less else if a = b then Equal else Greater)"

text \<open>\<^verbatim>\<open>sort_unstable_by\<close>: among entries that compare as different, any sorting algorithm.\<close>

fun insert_by :: "('a \<Rightarrow> 'a \<Rightarrow> ordering) \<Rightarrow> 'a \<Rightarrow> 'a list \<Rightarrow> 'a list" where
  "insert_by cmp x [] = [x]"
| "insert_by cmp x (y # ys) = (if cmp x y = Greater then y # insert_by cmp x ys else x # y # ys)"

definition sort_by :: "('a \<Rightarrow> 'a \<Rightarrow> ordering) \<Rightarrow> 'a list \<Rightarrow> 'a list" where
  "sort_by cmp xs = foldr (insert_by cmp) xs []"

definition entries :: "id list \<Rightarrow> (id \<rightharpoonup> 'v) \<Rightarrow> (id \<times> 'v) list" where
  "entries order m = List.map_filter (\<lambda>i. map_option (Pair i) (m i)) order"

definition usage_cmp :: "id \<times> node_stats \<Rightarrow> id \<times> node_stats \<Rightarrow> ordering" where
  "usage_cmp t1 t2 =
     then_cmp (cmp_nat (nst_max_buffer_usage (snd t1)) (nst_max_buffer_usage (snd t2)))
       (cmp_of (fst t2) (fst t1))"

definition max_buffer_usage_lines :: "id list \<Rightarrow> verified_simulation \<Rightarrow> report_line list" where
  "max_buffer_usage_lines order v =
     Heading ''Max buffer usage per node'' #
     map (\<lambda>(i, s). BufferUsage i (nst_max_buffer_usage s) (ps_packets (nst_dropped_buffer_full s)))
       (rev (sort_by usage_cmp (entries order (stats_by_node v))))"

definition usage_ratio :: "nat \<Rightarrow> nat \<Rightarrow> f64 option" where
  "usage_ratio used bandwidth_bps =
     (if bandwidth_bps = 0 then None
      else Some (f64_round (f64_round (f64_round (of_nat used) / f64_round (of_nat bandwidth_bps)) * 100)))"

definition link_lines :: "'r network \<Rightarrow> id \<times> link_stats \<Rightarrow> panic + report_line list" where
  "link_lines nw entry =
     (case entry of (i, s) \<Rightarrow>
       bind_ok (get_link_bandwidth_bps nw i) (\<lambda>bandwidth_bps.
         Inr [LinkName i, Packets ''Lost in transit'' (lst_dropped_in_transit s),
              UsedBandwidth (lst_max_used_bandwidth_bps s)
                (usage_ratio (lst_max_used_bandwidth_bps s) bandwidth_bps)]))"

text \<open>The lines printed for each element, one after the other.\<close>

definition lines_of :: "('a \<Rightarrow> panic + report_line list) \<Rightarrow> 'a list \<Rightarrow> panic + report_line list" where
  "lines_of f xs = fold_ok (\<lambda>ls x. bind_ok (f x) (\<lambda>l. Inr (ls @ l))) [] xs"

definition link_stats_lines ::
  "id list \<Rightarrow> verified_simulation \<Rightarrow> 'r network \<Rightarrow> panic + report_line list" where
  "link_stats_lines order v nw =
     (let stats = entries order (stats_by_link v)
      in bind_ok (lines_of (link_lines nw) (sort_by (\<lambda>t1 t2. cmp_of (fst t1) (fst t2)) stats))
           (\<lambda>ls. Inr ((if stats \<noteq> [] then [Heading ''Link stats''] else []) @ ls)))"

definition single_node_lines :: "node_stats \<Rightarrow> report_line list" where
  "single_node_lines s =
     (let dropped = join (join (join (nst_dropped_injected s) (nst_dropped_buffer_full s))
                       (nst_dropped_on_arrival s)) (nst_dropped_buffer_cleared s);
          cause = (\<lambda>text stats. if ps_packets stats \<noteq> 0 then [Packets text stats] else [])
      in [Packets ''Sent packets'' (nst_sent s), Packets ''duplicated'' (nst_duplicates s),
          Packets ''marked with the CE ECN codepoint'' (nst_congestion_experienced s),
          Packets ''dropped'' dropped] @
         (if ps_packets dropped \<noteq> 0
          then cause ''node was down when the packet arrived'' (nst_dropped_on_arrival s) @
               cause ''buffer was full when the packet arrived'' (nst_dropped_buffer_full s) @
               cause ''buffer got cleared before the packet was sent'' (nst_dropped_buffer_cleared s) @
               cause ''randomly dropped'' (nst_dropped_injected s)
          else []) @
         [Packets ''Received packets'' (nst_received s),
          Packets ''received out of order'' (nst_received_out_of_order s)])"

definition node_lines :: "verified_simulation \<Rightarrow> string \<Rightarrow> id \<Rightarrow> panic + report_line list" where
  "node_lines v role i =
     (case stats_by_node v i of
        None \<Rightarrow> Inl NoSuchKey
      | Some stats \<Rightarrow> Inr (NodeName i role # single_node_lines stats))"

definition node_stats_lines ::
  "id list \<Rightarrow> verified_simulation \<Rightarrow> node \<Rightarrow> node \<Rightarrow> bool \<Rightarrow> panic + report_line list" where
  "node_stats_lines ids v server_node client_node verbose =
     bind_ok (node_lines v ''client'' (nd_id client_node)) (\<lambda>client.
     bind_ok (node_lines v ''server'' (nd_id server_node)) (\<lambda>server.
     bind_ok (if verbose
              then lines_of (node_lines v [])
                     (filter (\<lambda>i. i \<noteq> nd_id server_node \<and> i \<noteq> nd_id client_node) ids)
              else Inr []) (\<lambda>others.
     Inr (client @ server @ others))))"

definition display_max_errors :: nat where "display_max_errors = 10"

definition error_lines :: "verified_simulation \<Rightarrow> report_line list" where
  "error_lines v =
     (let es = non_fatal_errors v
      in (if es \<noteq> []
          then [ErrorsHeading (if display_max_errors < length es then Some (length es) else None)]
          else []) @
         map ErrorLine (take display_max_errors es))"

section \<open>The start of a run\<close>

record network_config =
  nc_network_graph :: network_spec_json
  nc_network_events :: "event_json list"

text \<open>\<open>rng\<close> is \<^verbatim>\<open>Rng::with_seed(network_rng_seed)\<close>; the tracer and the network start at the same instant.\<close>

definition start_network ::
  "network_config \<Rightarrow> 'r \<Rightarrow> instant \<Rightarrow> bool \<Rightarrow> init_error + network_spec \<times> 'r simulation" where
  "start_network config rng now disable =
     (let spec = spec_of_json (nc_network_graph config);
          events = network_events_new (map event_of_json (nc_network_events config))
                     (spec_nodes spec) (spec_links spec)
      in map_sum id (Pair spec) (initialize spec events (tracer_new now spec) rng now disable now))"

definition initial_status_lines :: "network_spec \<Rightarrow> 'r network \<Rightarrow> panic + report_line list" where
  "initial_status_lines spec nw =
     bind_ok (lines_of (\<lambda>l. map_sum id (\<lambda>st. [InitialStatus (ls_id l) st]) (get_link_status nw (ls_id l)))
                (spec_links spec)) (\<lambda>links.
     bind_ok (lines_of (\<lambda>n. map_sum id (\<lambda>st. [InitialStatus (ns_id n) st]) (get_node_status nw (ns_id n)))
                (spec_nodes spec)) (\<lambda>nodes.
     Inr (Heading ''Initial link statuses'' # links @ Heading ''Initial node statuses'' # nodes)))"

section \<open>The end of a run\<close>

datatype 'e workbench_error =
    IncompatibleOptions
  | LoadFailed 'e
  | RunFailed 'e
  | StoreFailed 'e
  | NoVerifier new_error
  | VerificationFailed fatal_error

type_synonym 'e report = "panic + report_line list \<times> ('e workbench_error + unit)"

definition verified_simulation_of ::
  "id list \<Rightarrow> tracer \<Rightarrow> panic + 'e workbench_error + verified_simulation" where
  "verified_simulation_of order t =
     (case tracer_verifier t of
        Inl e \<Rightarrow> Inr (Inl (NoVerifier e))
      | Inr v \<Rightarrow>
          (case verify order v of
             Inl (es, Fatal e) \<Rightarrow> Inr (Inl (VerificationFailed e))
           | Inl (es, Panic) \<Rightarrow> Inl VerifierPanicked
           | Inr r \<Rightarrow> Inr (Inr r)))"

text \<open>
  The part the three commands share: the replay log is stored, the log verified, the statistics of
  the client, the server and, on demand, the other nodes are printed, then buffers and links.
\<close>

definition report_run ::
  "id list \<Rightarrow> id list \<Rightarrow> 'e option \<Rightarrow> network_opt \<Rightarrow> bool \<Rightarrow> tracer \<Rightarrow> 'r network \<Rightarrow>
   report_line list \<Rightarrow> (verified_simulation \<Rightarrow> report_line list) \<Rightarrow> ('e workbench_error + unit) \<Rightarrow> 'e report"
where
  "report_run node_order link_order store_error net_opt verbose t nw middle errors result =
     (case store_error of
        Some e \<Rightarrow> Inr ([Heading ''Replay log''], Inl (StoreFailed e))
      | None \<Rightarrow>
          bind_ok (verified_simulation_of node_order t) (\<lambda>r.
            case r of
              Inl e \<Rightarrow> Inr (Heading ''Replay log'' # middle, Inl e)
            | Inr v \<Rightarrow>
                bind_ok (host nw (server_ip_address net_opt)) (\<lambda>server.
                bind_ok (host nw (client_ip_address net_opt)) (\<lambda>client.
                bind_ok (node_stats_lines (get_node_ids node_order nw) v (nw_nodes nw ! server)
                           (nw_nodes nw ! client) verbose) (\<lambda>node_ls.
                bind_ok (link_stats_lines link_order v nw) (\<lambda>link_ls.
                Inr (Heading ''Replay log'' # middle @ node_ls @ max_buffer_usage_lines node_order v @
                       link_ls @ errors v,
                     result)))))))"

definition run_and_report_stats ::
  "id list \<Rightarrow> id list \<Rightarrow> 'e + network_config \<Rightarrow>
   (network_config \<Rightarrow> (tracer \<times> 'r network) option \<times> ('e + unit)) \<Rightarrow> 'e option \<Rightarrow> quic_opt \<Rightarrow> 'e report" where
  "run_and_report_stats node_order link_order loaded simulate store_error opts =
     (if \<not> validate_opts opts then Inr ([], Inl IncompatibleOptions)
      else case loaded of
        Inl e \<Rightarrow> Inr ([], Inl (LoadFailed e))
      | Inr config \<Rightarrow>
          (case simulate config of
             (None, result) \<Rightarrow> Inr ([EndsWithError], map_sum RunFailed id result)
           | (Some (t, nw), result) \<Rightarrow>
               report_run node_order link_order store_error (qo_network opts) (verbose_node_stats opts) t nw
                 [Heading ''Node stats'']
                 (\<lambda>v. error_lines v @ (if isl result then [EndsWithError] else []))
                 (map_sum RunFailed id result)))"

definition report_ping_run ::
  "id list \<Rightarrow> id list \<Rightarrow> 'e option \<Rightarrow> ping_opt \<Rightarrow> tracer \<Rightarrow> 'r network \<Rightarrow> 'e report" where
  "report_ping_run node_order link_order store_error opts t nw =
     report_run node_order link_order store_error (po_network opts) True t nw
       [Heading ''Node stats''] (\<lambda>v. []) (Inr ())"

definition report_throughput_run ::
  "id list \<Rightarrow> id list \<Rightarrow> 'e option \<Rightarrow> throughput_opt \<Rightarrow> tracer \<Rightarrow> 'r network \<Rightarrow> (duration \<times> nat) list \<Rightarrow>
   'e report" where
  "report_throughput_run node_order link_order store_error opts t nw packets =
     report_run node_order link_order store_error (to_network opts) False t nw
       [Heading ''Throughput'', MaxSmoothedThroughput (max_smoothed_throughput packets)] error_lines (Inr ())"

section \<open>Sorting the entries of a hash map\<close>

text \<open>
  What \<^verbatim>\<open>sort_unstable_by\<close> asks of a comparison: it is a strict order, and entries that compare as
  equal have the same key. Then the sorted list depends on the entries only, not on their order.
\<close>

locale key_order =
  fixes cmp :: "'a \<Rightarrow> 'a \<Rightarrow> ordering" and key :: "'a \<Rightarrow> 'k"
  assumes flip: "cmp x y = Greater \<longleftrightarrow> cmp y x = Less"
    and less_trans: "cmp x y = Less \<Longrightarrow> cmp y z = Less \<Longrightarrow> cmp x z = Less"
    and equal: "cmp x y = Equal \<Longrightarrow> key x = key y"
begin

lemma not_less_self: "cmp x x \<noteq> Less"
  using flip [of x x] by auto

lemma mset_insert_by: "mset (insert_by cmp x ys) = add_mset x (mset ys)"
  by (induction ys) auto

lemma mset_sort_by: "mset (sort_by cmp xs) = mset xs"
  unfolding sort_by_def by (induction xs) (simp_all add: mset_insert_by)

lemma sorted_insert_by:
  assumes "sorted_wrt (\<lambda>x y. cmp x y = Less) ys" and "key x \<notin> key ` set ys"
  shows "sorted_wrt (\<lambda>x y. cmp x y = Less) (insert_by cmp x ys)"
  using assms
proof (induction ys)
  case (Cons y ys)
  have set: "set (insert_by cmp x ys) = insert x (set ys)"
    using mset_insert_by [of x ys] by (metis set_mset_mset set_mset_add_mset_insert)
  show ?case
  proof (cases "cmp x y = Greater")
    case True
    with Cons set show ?thesis by (auto simp: flip)
  next
    case False
    then have "cmp x y = Less" using Cons.prems(2) equal [of x y] by (cases "cmp x y") auto
    with Cons.prems(1) show ?thesis using less_trans by auto
  qed
qed simp

lemma sorted_sort_by: "distinct (map key xs) \<Longrightarrow> sorted_wrt (\<lambda>x y. cmp x y = Less) (sort_by cmp xs)"
proof (induction xs)
  case (Cons x xs)
  have "set (sort_by cmp xs) = set xs" using mset_sort_by [of xs] by (metis set_mset_mset)
  with Cons show ?case by (simp add: sort_by_def sorted_insert_by)
qed (simp add: sort_by_def)

lemma sorted_unique:
  "sorted_wrt (\<lambda>x y. cmp x y = Less) xs \<Longrightarrow> sorted_wrt (\<lambda>x y. cmp x y = Less) ys \<Longrightarrow> mset xs = mset ys \<Longrightarrow> xs = ys"
proof (induction xs arbitrary: ys)
  case (Cons x xs)
  then obtain y ys' where ys: "ys = y # ys'" by (cases ys) auto
  have sets: "set (x # xs) = set ys" using Cons.prems(3) by (metis set_mset_mset)
  have "x = y"
  proof (rule ccontr)
    assume "x \<noteq> y"
    with sets ys have "y \<in> set xs" "x \<in> set ys'" by auto
    with Cons.prems(1,2) ys have "cmp x y = Less" "cmp y x = Less" by auto
    then show False using less_trans not_less_self by blast
  qed
  with Cons ys show ?case by auto
qed simp

lemma sort_by_unique:
  assumes "distinct (map key xs)" and "mset xs = mset ys"
  shows "sort_by cmp xs = sort_by cmp ys"
proof (rule sorted_unique)
  have "distinct (map key ys)" using assms by (metis mset_eq_imp_distinct_iff mset_map)
  then show "sorted_wrt (\<lambda>x y. cmp x y = Less) (sort_by cmp ys)" by (rule sorted_sort_by)
qed (simp_all add: assms mset_sort_by sorted_sort_by)

end

lemma cmp_of_simps:
  "cmp_of a b = Greater \<longleftrightarrow> b < a" "cmp_of a b = Less \<longleftrightarrow> a < b" "cmp_of a b = Equal \<longleftrightarrow> a = b"
  by (auto simp: cmp_of_def)

lemma usage_cmp_iff:
  "usage_cmp t1 t2 = Less \<longleftrightarrow> nst_max_buffer_usage (snd t1) < nst_max_buffer_usage (snd t2) \<or>
     nst_max_buffer_usage (snd t1) = nst_max_buffer_usage (snd t2) \<and> fst t2 < fst t1"
  "usage_cmp t1 t2 = Greater \<longleftrightarrow> nst_max_buffer_usage (snd t2) < nst_max_buffer_usage (snd t1) \<or>
     nst_max_buffer_usage (snd t1) = nst_max_buffer_usage (snd t2) \<and> fst t1 < fst t2"
  "usage_cmp t1 t2 = Equal \<longleftrightarrow>
     nst_max_buffer_usage (snd t1) = nst_max_buffer_usage (snd t2) \<and> fst t1 = fst t2"
  by (auto simp: usage_cmp_def then_cmp_def cmp_nat_def cmp_of_def)

interpretation usage: key_order usage_cmp "fst :: id \<times> node_stats \<Rightarrow> id"
  by unfold_locales (auto simp: usage_cmp_iff)

interpretation by_id: key_order "\<lambda>t1 t2. cmp_of (fst t1) (fst t2)" "fst :: id \<times> link_stats \<Rightarrow> id"
  by unfold_locales (auto simp: cmp_of_simps)

text \<open>The entries of a map in some order of its keys.\<close>

lemma entries_simps [simp]:
  "entries [] m = []"
  "entries (i # order) m = (case m i of None \<Rightarrow> entries order m | Some x \<Rightarrow> (i, x) # entries order m)"
  by (auto simp: entries_def map_filter_simps split: option.split)

lemma set_entries: "set (entries order m) = {(i, x). i \<in> set order \<and> m i = Some x}"
  by (induction order) (auto split: option.split)

lemma distinct_entries: "distinct order \<Longrightarrow> distinct (map fst (entries order m))"
  by (induction order) (auto simp: set_entries split: option.split)

lemma mset_entries:
  assumes "distinct o1" and "distinct o2" and "set o1 \<inter> dom m = set o2 \<inter> dom m"
  shows "mset (entries o1 m) = mset (entries o2 m)"
proof -
  have "set (entries o1 m) = set (entries o2 m)" using assms(3) by (auto simp: set_entries dom_def)
  moreover have "distinct (entries order m)" if "distinct order" for order
    using distinct_entries [OF that] distinct_map by blast
  ultimately show ?thesis using assms(1,2) set_eq_iff_mset_eq_distinct by blast
qed

text \<open>
  C24. The order in which the hash maps are walked shows in the report through the verification at
  most: printing one verified simulation gives the same table of buffer usage, the same statistics of
  the links and the same list of node ids in every order, and if the verification comes to one result
  in two orders then the whole report is the same. (The maxima of buffer usage in that result can
  depend on the order, see \<open>update_max_buffer_usage\<close>.)
\<close>

theorem report_independent_of_hash_order:
  assumes "distinct n1" and "distinct n2" and "set n1 = set n2"
    and "distinct l1" and "distinct l2" and "set l1 = set l2"
  shows "max_buffer_usage_lines n1 v = max_buffer_usage_lines n2 v \<and>
    link_stats_lines l1 v nw = link_stats_lines l2 v nw \<and> get_node_ids n1 nw = get_node_ids n2 nw \<and>
    (verified_simulation_of n1 t = (verified_simulation_of n2 t :: panic + 'e workbench_error + verified_simulation) \<longrightarrow>
       report_run n1 l1 (store_error :: 'e option) net_opt verbose t nw middle errors result =
       report_run n2 l2 store_error net_opt verbose t nw middle errors result)"
proof -
  have usage: "max_buffer_usage_lines n1 v = max_buffer_usage_lines n2 v" for v
  proof -
  have n: "mset (entries n1 (stats_by_node v)) = mset (entries n2 (stats_by_node v))"
    by (rule mset_entries) (simp_all add: assms)
  then show ?thesis
    using usage.sort_by_unique [OF distinct_entries [OF assms(1)] n]
    by (simp add: max_buffer_usage_lines_def)
  qed
  have links: "link_stats_lines l1 v nw = link_stats_lines l2 v nw" for v
  proof -
  have l: "mset (entries l1 (stats_by_link v)) = mset (entries l2 (stats_by_link v))"
    by (rule mset_entries) (simp_all add: assms)
  then have "entries l1 (stats_by_link v) = [] \<longleftrightarrow> entries l2 (stats_by_link v) = []"
    by (metis mset_zero_iff)
  with by_id.sort_by_unique [OF distinct_entries [OF assms(4)] l]
  show ?thesis by (simp add: link_stats_lines_def Let_def)
  qed
  have "sort (filter P n1) = sort (filter P n2)" for P
    by (rule sorted_distinct_set_unique) (use assms in auto)
  then have ids: "get_node_ids n1 nw = get_node_ids n2 nw" by (simp add: get_node_ids_def)
  show ?thesis unfolding report_run_def usage links ids by (cases store_error) simp_all
qed

text \<open>A network of two hosts before its first step is verified to the same result in both orders.\<close>

lemma idle_pair_verifies:
  "verified_simulation_of [''b'', ''a''] (tracer_new 0 pair_spec) = verified_simulation_of [''a'', ''b''] (tracer_new 0 pair_spec)"
  by (simp add: verified_simulation_of_def tracer_verifier_def tracer_new_def verifier_new_def pair_spec_def
      host_a_def host_b_def link_ab_def Let_def add_node_def add_link_def verify_def verify_start_def on_verifier_def refresh_buffer_usage_def
      spec_addresses_def add_address_def as_ip_addr_def node_update_max_buffer_usage_def replayed_node_new_def fun_upd_twist)

theorem report_independent_of_hash_order_witness:
  "\<forall>nw :: nat network. report_run [''b'', ''a''] [''l''] (None :: string option) (network_opt_default (V4 1) (V4 2) [] [])
      True (tracer_new 0 pair_spec) nw [] error_lines (Inr ()) =
    report_run [''a'', ''b''] [''l''] None (network_opt_default (V4 1) (V4 2) [] []) True (tracer_new 0 pair_spec) nw []
      error_lines (Inr ())"
proof
  fix nw :: "nat network"
  have "distinct [''b'', ''a'']" "distinct [''a'', ''b'']" "set [''b'', ''a''] = set [''a'', ''b'']"
    "distinct [''l'']" by auto
  from report_independent_of_hash_order [OF this(1-3) this(4,4) refl]
  show "report_run [''b'', ''a''] [''l''] (None :: string option) (network_opt_default (V4 1) (V4 2) [] []) True
      (tracer_new 0 pair_spec) nw [] error_lines (Inr ()) =
    report_run [''a'', ''b''] [''l''] None (network_opt_default (V4 1) (V4 2) [] []) True (tracer_new 0 pair_spec) nw []
      error_lines (Inr ())"
    using idle_pair_verifies by blast
qed

text \<open>
  The table of buffer usage has one row for every node with statistics, sorted by decreasing
  usage and, where the usage is equal, by id.
\<close>

lemma usage_table_sorted:
  assumes "distinct order" and "dom (stats_by_node v) \<subseteq> set order"
  shows "\<exists>rows. max_buffer_usage_lines order v = Heading ''Max buffer usage per node'' #
      map (\<lambda>(i, s). BufferUsage i (nst_max_buffer_usage s) (ps_packets (nst_dropped_buffer_full s))) rows \<and>
    set rows = {(i, s). stats_by_node v i = Some s} \<and> distinct (map fst rows) \<and>
    sorted_wrt (\<lambda>(i, s) (j, t). nst_max_buffer_usage t < nst_max_buffer_usage s \<or>
      nst_max_buffer_usage t = nst_max_buffer_usage s \<and> i < j) rows"
proof -
  let ?es = "entries order (stats_by_node v)"
  let ?rows = "sort_by usage_cmp ?es"
  have d: "distinct (map fst ?es)" by (rule distinct_entries [OF assms(1)])
  have m: "mset ?rows = mset ?es" by (rule usage.mset_sort_by)
  have "set ?rows = {(i, s). stats_by_node v i = Some s}"
    using m assms(2) by (auto simp: set_entries dest!: mset_eq_setD)
  moreover have "distinct (map fst ?rows)" using d m by (metis mset_eq_imp_distinct_iff mset_map)
  moreover have "sorted_wrt (\<lambda>(i, s) (j, t).
      nst_max_buffer_usage t < nst_max_buffer_usage s \<or>
      nst_max_buffer_usage t = nst_max_buffer_usage s \<and> i < j) (rev ?rows)"
    unfolding sorted_wrt_rev
    by (rule sorted_wrt_mono_rel [OF _ usage.sorted_sort_by [OF d]]) (auto simp: usage_cmp_iff)
  ultimately show ?thesis
    by (intro exI [of _ "rev ?rows"]) (simp add: max_buffer_usage_lines_def rev_map [symmetric])
qed

section \<open>The report of a run\<close>

lemma lines_of_ok:
  assumes "\<And>x. x \<in> set xs \<Longrightarrow> \<exists>l. f x = Inr l"
  shows "\<exists>ls. lines_of f xs = Inr ls"
proof -
  have "\<exists>ls. fold_ok (\<lambda>ls x. bind_ok (f x) (\<lambda>l. Inr (ls @ l))) a xs = Inr ls" for a
    using assms by (induction xs arbitrary: a) (auto simp: bind_ok_Inr_iff, metis)
  then show ?thesis by (simp add: lines_of_def)
qed

lemma node_lines_ok: "i \<in> dom (stats_by_node v) \<Longrightarrow> \<exists>ls. node_lines v role i = Inr ls"
  by (auto simp: node_lines_def)

lemma node_stats_lines_ok:
  assumes "set ids \<subseteq> dom (stats_by_node v)" and "nd_id server \<in> dom (stats_by_node v)"
    and "nd_id client \<in> dom (stats_by_node v)"
  shows "\<exists>ls. node_stats_lines ids v server client verbose = Inr ls"
proof -
  have "\<exists>ls. lines_of (node_lines v []) (filter P ids) = Inr ls" for P
    by (rule lines_of_ok, rule node_lines_ok) (use assms(1) in auto)
  then show ?thesis
    using node_lines_ok [OF assms(2), of "''server''"] node_lines_ok [OF assms(3), of "''client''"]
    by (auto simp: node_stats_lines_def bind_ok_Inr_iff)
qed

lemma link_stats_lines_ok:
  assumes "dom (stats_by_link v) \<subseteq> dom (nw_links_by_id nw)"
  shows "\<exists>ls. link_stats_lines order v nw = Inr ls"
proof -
  let ?es = "sort_by (\<lambda>t1 t2. cmp_of (fst t1) (fst t2)) (entries order (stats_by_link v))"
  have "\<exists>ls. lines_of (link_lines nw) ?es = Inr ls"
  proof (rule lines_of_ok)
    fix e
    assume "e \<in> set ?es"
    then have "e \<in> set (entries order (stats_by_link v))"
      using by_id.mset_sort_by [of "entries order (stats_by_link v)"] by (auto dest: mset_eq_setD)
    then have "fst e \<in> dom (nw_links_by_id nw)" using assms by (auto simp: set_entries)
    then show "\<exists>l. link_lines nw e = Inr l"
      by (auto simp: link_lines_def get_link_bandwidth_bps_def split: prod.split)
  qed
  then show ?thesis by (auto simp: link_stats_lines_def Let_def bind_ok_Inr_iff)
qed

text \<open>A network built from a configuration starts, and its initial statuses can be printed.\<close>

lemma start_network_started:
  assumes "start_network config rng now disable = Inr (spec, s)"
  shows "started spec s"
proof -
  have "fresh_tracer now spec (tracer_new now spec)" by (simp add: fresh_tracer_def)
  then show ?thesis
    using assms unfolding started_def start_network_def Let_def map_sum_id_Inr by blast
qed

lemma initial_status_lines_ok:
  assumes "start_network config rng now disable = Inr (spec, s)"
  shows "\<exists>ls. initial_status_lines spec (sim_network s) = Inr ls"
proof -
  have "known (node_ids spec) (link_ids spec) (sim_network s)"
    using booked_started [OF start_network_started [OF assms]]
    by (simp add: sim_booked_def net_booked_def)
  then have links: "ls_id ` set (spec_links spec) \<subseteq> dom (nw_links_by_id (sim_network s))"
    and nodes: "ns_id ` set (spec_nodes spec) \<subseteq> dom (nw_nodes_by_id (sim_network s))"
    by (auto simp: known_def node_ids_def link_ids_def)
  have "\<exists>ls. lines_of (\<lambda>l. map_sum id (\<lambda>st. [InitialStatus (ls_id l) st])
      (get_link_status (sim_network s) (ls_id l))) (spec_links spec) = Inr ls"
  proof (rule lines_of_ok)
    fix l
    assume "l \<in> set (spec_links spec)"
    then obtain n where "nw_links_by_id (sim_network s) (ls_id l) = Some n" using links by blast
    then show "\<exists>k. map_sum id (\<lambda>st. [InitialStatus (ls_id l) st])
      (get_link_status (sim_network s) (ls_id l)) = Inr k" by (simp add: get_link_status_def)
  qed
  moreover have "\<exists>ls. lines_of (\<lambda>n. map_sum id (\<lambda>st. [InitialStatus (ns_id n) st])
      (get_node_status (sim_network s) (ns_id n))) (spec_nodes spec) = Inr ls"
  proof (rule lines_of_ok)
    fix n
    assume "n \<in> set (spec_nodes spec)"
    then obtain i where "nw_nodes_by_id (sim_network s) (ns_id n) = Some i" using nodes by blast
    then show "\<exists>k. map_sum id (\<lambda>st. [InitialStatus (ns_id n) st])
      (get_node_status (sim_network s) (ns_id n)) = Inr k" by (simp add: get_node_status_def)
  qed
  ultimately show ?thesis by (auto simp: initial_status_lines_def bind_ok_Inr_iff)
qed

text \<open>A network whose clock is anywhere in a run, with what the report needs to know of it.\<close>

definition reportable :: "network_spec \<Rightarrow> 'r rng_ops \<Rightarrow> ('r \<Rightarrow> uuid set) \<Rightarrow> 'r simulation \<Rightarrow> bool" where
  "reportable spec ops seen s \<longleftrightarrow>
     sim.reach spec ops s \<and> fresh_ids ops seen \<and> seen (nw_rng (sim_network s)) \<noteq> UNIV \<and>
     sum_list (map step_bytes (log_of (nw_tracer (sim_network s)))) < 2 ^ 64"

lemma report_run_ok:
  assumes "reportable spec ops seen s" and "host (sim_network s) (server_ip_address net_opt) = Inr i"
    and "host (sim_network s) (client_ip_address net_opt) = Inr j"
    and v: "tracer_verifier (nw_tracer (sim_network s)) = Inr v"
  shows "\<exists>lines. report_run node_order link_order None net_opt verbose (nw_tracer (sim_network s))
    (sim_network s) middle errors result = Inr (lines, result)"
proof -
  let ?nw = "sim_network s"
  have r: "sim.reach spec ops s" "fresh_ids ops seen" "seen (nw_rng ?nw) \<noteq> UNIV"
    "sum_list (map step_bytes (log_of (nw_tracer ?nw))) < 2 ^ 64"
    using assms(1) by (simp_all add: reportable_def)
  obtain vs where vs: "verify node_order v = Inr vs" "dom (stats_by_node vs) = node_ids spec"
    "dom (stats_by_link vs) = link_ids spec"
    by (rule log_verifies [OF r(1-3) v r(4)])
  obtain off where "sim_booked (node_ids spec) (link_ids spec) seen off s"
    using booked_reach [OF r(1,2)] by blast
  then have k: "known (node_ids spec) (link_ids spec) ?nw" by (simp add: sim_booked_def net_booked_def)
  have "nd_id (nw_nodes ?nw ! n) \<in> node_ids spec" if "host ?nw ip = Inr n" for ip n
    using that k by (auto simp: host_def known_def in_bounds_def split: option.splits if_splits)
  with assms(2,3) have ids: "nd_id (nw_nodes ?nw ! i) \<in> dom (stats_by_node vs)"
    "nd_id (nw_nodes ?nw ! j) \<in> dom (stats_by_node vs)" by (simp_all add: vs(2))
  have "set (get_node_ids node_order ?nw) \<subseteq> dom (stats_by_node vs)"
    using k by (auto simp: get_node_ids_def vs(2) known_def)
  from node_stats_lines_ok [OF this ids]
  obtain nl where nl: "node_stats_lines (get_node_ids node_order ?nw) vs (nw_nodes ?nw ! i)
      (nw_nodes ?nw ! j) verbose = Inr nl" by blast
  have "dom (stats_by_link vs) \<subseteq> dom (nw_links_by_id ?nw)" using k by (simp add: vs(3) known_def)
  from link_stats_lines_ok [OF this] obtain ll where ll: "link_stats_lines link_order vs ?nw = Inr ll" by blast
  show ?thesis
    by (simp add: report_run_def verified_simulation_of_def v vs(1) assms(2,3) nl ll)
qed

text \<open>
  C22. After a run in any reachable state, with hosts at the two addresses, the QUIC, ping and
  throughput reports never panic, provided that the options are valid, the ids of packets do not
  repeat and the log has fewer than \<open>2^64\<close> bytes and could be stored. If a verifier can be made for the network, the report is printed to its end,
  the verification does not fail, and the QUIC command returns exactly the result of the run. If
  none can be made, which \<open>initialize\<close> does not rule out, all three fail with that error.
\<close>

theorem reports_succeed:
  assumes "reportable spec ops seen s"
    and "\<forall>ip \<in> {server_ip_address net_opt, client_ip_address net_opt}. \<not> isl (host (sim_network s) ip)"
    and "validate_opts quic" and "qo_network quic = net_opt" and "po_network ping = net_opt"
    and "to_network throughput = net_opt"
  shows "\<exists>quic_lines ping_lines throughput_lines.
    run_and_report_stats node_order link_order (Inr config)
      (\<lambda>_. (Some (nw_tracer (sim_network s), sim_network s), result)) (None :: 'e option) quic =
        Inr (quic_lines, case tracer_verifier (nw_tracer (sim_network s)) of
          Inl e \<Rightarrow> Inl (NoVerifier e) | Inr v \<Rightarrow> map_sum RunFailed id result) \<and>
    report_ping_run node_order link_order (None :: 'e option) ping (nw_tracer (sim_network s)) (sim_network s) =
      Inr (ping_lines, case tracer_verifier (nw_tracer (sim_network s)) of
        Inl e \<Rightarrow> Inl (NoVerifier e) | Inr v \<Rightarrow> Inr ()) \<and>
    report_throughput_run node_order link_order (None :: 'e option) throughput (nw_tracer (sim_network s))
      (sim_network s) packets =
      Inr (throughput_lines, case tracer_verifier (nw_tracer (sim_network s)) of
        Inl e \<Rightarrow> Inl (NoVerifier e) | Inr v \<Rightarrow> Inr ())"
proof (cases "tracer_verifier (nw_tracer (sim_network s))")
  case (Inl e)
  then show ?thesis
    by (simp add: assms(3-6) run_and_report_stats_def report_ping_run_def report_throughput_run_def
        report_run_def verified_simulation_of_def)
next
  case (Inr v)
  obtain i j where "host (sim_network s) (server_ip_address net_opt) = Inr i"
    "host (sim_network s) (client_ip_address net_opt) = Inr j"
    using assms(2) by (metis insertCI isl_def obj_sumE)
  note ok = report_run_ok [OF assms(1) this Inr]
  show ?thesis
    by (simp add: ok assms(3-6) Inr run_and_report_stats_def report_ping_run_def report_throughput_run_def)
qed

text \<open>A link to an address of no node is accepted by \<open>initialize\<close>; the report then has no verifier.\<close>

lemma dangling_link_has_no_verifier:
  "let spec = pair_spec\<lparr>spec_links := [link_ab\<lparr>ls_target := V4 9\<rparr>]\<rparr>
   in case initialize spec (network_events_new [] (spec_nodes spec) (spec_links spec)) (tracer_new 0 spec)
        (0::nat) 0 False 0 of
     Inl e \<Rightarrow> False
   | Inr s \<Rightarrow> isl (tracer_verifier (nw_tracer (sim_network s)))"
  by code_simp

text \<open>The run with one packet, reported by each command.\<close>

definition pair_opt :: network_opt where
  "pair_opt = network_opt_default (V4 1) (V4 2) ''graph'' ''events''"

theorem reports_succeed_witness:
  "\<exists>s lines. pair_run [] one_packet = Some s \<and>
     report_ping_run [''a'', ''b''] [''l''] (None :: string option)
       \<lparr>po_duration_ms = 1, po_interval_ms = 1, po_deadline_ms = 1, po_network = pair_opt\<rparr>
       (nw_tracer (sim_network s)) (sim_network s) = Inr (lines, Inr ())"
proof -
  let ?ping = "\<lparr>po_duration_ms = 1, po_interval_ms = 1, po_deadline_ms = 1, po_network = pair_opt\<rparr>"
  let ?throughput = "\<lparr>to_duration_ms = 1, to_send_bps = None, to_network = pair_opt\<rparr>"
  obtain s v where s: "pair_run [] one_packet = Some s" "nw_rng (sim_network s) = 1"
    "tracer_verifier (nw_tracer (sim_network s)) = Inr v"
    "sum_list (map step_bytes (log_of (nw_tracer (sim_network s)))) < 2 ^ 64" by (rule one_packet_log)
  have "(1 :: uuid) \<notin> of_nat ` {..<1}" by auto
  then have "of_nat ` {..<nw_rng (sim_network s)} \<noteq> (UNIV :: uuid set)" unfolding s(2) by blast
  then have r: "reportable pair_spec counter_rng (\<lambda>n. of_nat ` {..<n}) s"
    using pair_run_reach [OF s(1)] counter_fresh s(3,4) by (simp add: reportable_def)
  have "case pair_run [] one_packet of None \<Rightarrow> False
      | Some s \<Rightarrow> \<not> isl (host (sim_network s) (V4 1)) \<and> \<not> isl (host (sim_network s) (V4 2))"
    by code_simp
  then have hosts: "\<forall>ip \<in> {server_ip_address pair_opt, client_ip_address pair_opt}.
      \<not> isl (host (sim_network s) ip)"
    by (simp add: s(1) pair_opt_def network_opt_default_def)
  have "validate_opts (quic_opt_default pair_opt)" by (simp add: validate_opts_def quic_opt_default_def)
  from reports_succeed [OF r hosts this, where ping = ?ping and throughput = ?throughput and
      node_order = "[''a'', ''b'']" and link_order = "[''l'']" and result = "Inr () :: string + unit" and packets = "[]" 
      and config = "\<lparr>nc_network_graph = \<lparr>nsj_nodes = [], nsj_links = []\<rparr>, nc_network_events = []\<rparr>"]
  have "\<exists>lines. report_ping_run [''a'', ''b''] [''l''] (None :: string option) ?ping (nw_tracer (sim_network s))
      (sim_network s) = Inr (lines, Inr ())"
    by (simp add: quic_opt_default_def s(3))
  with s(1) show ?thesis by blast
qed

end
