(* ===== verification/Golden_Tests.thy ===== *)
theory Golden_Tests
  imports Net_Prelude
begin

text \<open>
  The golden tests, \<^verbatim>\<open>golden-tests/src/main.rs\<close>: each directory of tests holds the arguments of a run
  of the workbench and, once a run has stored them, the output and the replay log that later runs
  must reproduce. The file system is a map from paths to contents. What the process does to it, the
  text of a diff (crates \<^verbatim>\<open>similar\<close> and \<^verbatim>\<open>console\<close>) and which paths can be written are parameters.
  White space is that of ASCII.
\<close>

section \<open>The environment\<close>

type_synonym path = "string list"

type_synonym files = "path \<rightharpoonup> string"

text \<open>
  \<open>io_run\<close> starts the workbench: None when it does not start, otherwise its output, its errors and
  the files it leaves. \<open>io_rt\<close> is its output for the argument \<^verbatim>\<open>rt\<close>, the first part None when it is
  not valid UTF-8.
\<close>

record golden_io =
  io_rt :: "(string option \<times> string) option"
  io_run :: "string list \<Rightarrow> files \<Rightarrow> (string \<times> string \<times> files) option"
  io_diff :: "string \<Rightarrow> string \<Rightarrow> string"
  io_writable :: "path \<Rightarrow> bool"

record golden_cli =
  test_name :: "string option"
  quiet :: nat

record test_case =
  tc_dir :: path
  tc_args :: string
  expected_stdout :: "string option"
  expected_replay_log :: "string option"

record invalid_output =
  io_stderr :: string
  stdout_diff :: "string option"
  replay_log_diff :: "string option"

datatype internal_error = ProcessCrashed | NoReplayLog | PersistStdout | PersistReplayLog

datatype test_error = Internal internal_error | InvalidOutput invalid_output

datatype golden_error =
    NoRuntime
  | RuntimeNotUtf8
  | EmptyRuntime
  | NoTestsDirectory
  | BrokenEntry
  | InvalidPath path
  | NoArgsFile path
  | TestsFailed

section \<open>Words\<close>

definition is_whitespace :: "char \<Rightarrow> bool" where
  "is_whitespace c \<longleftrightarrow> c = CHR '' '' \<or> (9 \<le> (of_char c :: nat) \<and> (of_char c :: nat) \<le> 13)"

function split_whitespace :: "string \<Rightarrow> string list" where
  "split_whitespace s =
     (case dropWhile is_whitespace s of
        [] \<Rightarrow> []
      | c # cs \<Rightarrow>
          takeWhile (\<lambda>c. \<not> is_whitespace c) (c # cs) #
          split_whitespace (dropWhile (\<lambda>c. \<not> is_whitespace c) (c # cs)))"
  by pat_completeness auto
termination
proof (relation "measure length")
  fix s c cs
  assume s: "dropWhile is_whitespace s = c # cs"
  then have "\<not> is_whitespace c" by (simp add: dropWhile_eq_Cons_conv)
  then have "length (dropWhile (\<lambda>c. \<not> is_whitespace c) (c # cs)) \<le> length cs"
    by (simp add: length_dropWhile_le)
  also have "length cs < length s"
    using length_dropWhile_le [of is_whitespace s] by (simp add: s)
  finally show "(dropWhile (\<lambda>c. \<not> is_whitespace c) (c # cs), s) \<in> measure length" by simp
qed simp

declare split_whitespace.simps [simp del]

definition trim :: "string \<Rightarrow> string" where
  "trim s = rev (dropWhile is_whitespace (rev (dropWhile is_whitespace s)))"

section \<open>One test\<close>

definition replay_log_path :: path where "replay_log_path = [''replay-log.json'']"

text \<open>
  A stored expectation is compared with the output; a missing one is written. The result is the
  diff, if any.
\<close>

definition compare_or_persist ::
  "golden_io \<Rightarrow> nat \<Rightarrow> nat \<Rightarrow> internal_error \<Rightarrow> path \<Rightarrow> string option \<Rightarrow> string \<Rightarrow> files \<Rightarrow>
   internal_error + string option \<times> files" where
  "compare_or_persist io limit q failed p expected actual files =
     (case expected of
        Some text \<Rightarrow>
          Inr (if text \<noteq> actual
               then Some (if q < limit then io_diff io text actual else ''<skipped>'')
               else None, files)
      | None \<Rightarrow> if io_writable io p then Inr (None, files(p \<mapsto> actual)) else Inl failed)"

definition run_quinn_workbench ::
  "golden_io \<Rightarrow> test_case \<Rightarrow> string \<Rightarrow> string \<Rightarrow> nat \<Rightarrow> files \<Rightarrow> (test_error + unit) \<times> files" where
  "run_quinn_workbench io t expected_stdout_file expected_replay_log_file q files =
     (case io_run io (split_whitespace (tc_args t)) files of
        None \<Rightarrow> (Inl (Internal ProcessCrashed), files)
      | Some (stdout, stderr, files1) \<Rightarrow>
          (case files1 replay_log_path of
             None \<Rightarrow> (Inl (Internal NoReplayLog), files1)
           | Some replay_log \<Rightarrow>
               (case compare_or_persist io 2 q PersistStdout (tc_dir t @ [expected_stdout_file])
                       (expected_stdout t) stdout files1 of
                  Inl e \<Rightarrow> (Inl (Internal e), files1)
                | Inr (diff1, files2) \<Rightarrow>
                    (case compare_or_persist io 1 q PersistReplayLog (tc_dir t @ [expected_replay_log_file])
                            (expected_replay_log t) replay_log files2 of
                       Inl e \<Rightarrow> (Inl (Internal e), files2)
                     | Inr (diff2, files3) \<Rightarrow>
                         (if diff1 \<noteq> None \<or> diff2 \<noteq> None \<or> stderr \<noteq> []
                          then Inl (InvalidOutput \<lparr>io_stderr = stderr, stdout_diff = diff1,
                                                   replay_log_diff = diff2\<rparr>)
                          else Inr (), files3)))))"

section \<open>All tests\<close>

text \<open>An entry of the directory: an error, or a path with its name (None when it is not Unicode).\<close>

datatype dir_entry = EntryError | Entry path "string option" bool

definition load_test :: "string \<Rightarrow> string \<Rightarrow> files \<Rightarrow> path \<Rightarrow> golden_error + test_case" where
  "load_test expected_stdout_file expected_replay_log_file files p =
     (case files (p @ [''args'']) of
        None \<Rightarrow> Inl (NoArgsFile p)
      | Some args \<Rightarrow>
          Inr \<lparr>tc_dir = p, tc_args = args, expected_stdout = files (p @ [expected_stdout_file]),
               expected_replay_log = files (p @ [expected_replay_log_file])\<rparr>)"

fun load_tests ::
  "golden_cli \<Rightarrow> string \<Rightarrow> string \<Rightarrow> files \<Rightarrow> dir_entry list \<Rightarrow> golden_error + test_case list" where
  "load_tests cli out_file log_file files [] = Inr []"
| "load_tests cli out_file log_file files (EntryError # es) = Inl BrokenEntry"
| "load_tests cli out_file log_file files (Entry p name is_dir # es) =
     (if \<not> is_dir then load_tests cli out_file log_file files es
      else case name of
        None \<Rightarrow> Inl (InvalidPath p)
      | Some dir_name \<Rightarrow>
          if (case test_name cli of None \<Rightarrow> False | Some wanted \<Rightarrow> dir_name \<noteq> wanted)
          then load_tests cli out_file log_file files es
          else bind_ok (load_test out_file log_file files p) (\<lambda>t.
                 bind_ok (load_tests cli out_file log_file files es) (\<lambda>ts. Inr (t # ts))))"

fun run_tests ::
  "golden_io \<Rightarrow> string \<Rightarrow> string \<Rightarrow> nat \<Rightarrow> test_case list \<Rightarrow> bool \<Rightarrow> files \<Rightarrow> bool \<times> files" where
  "run_tests io out_file log_file q [] errored files = (errored, files)"
| "run_tests io out_file log_file q (t # ts) errored files =
     (case run_quinn_workbench io t out_file log_file q files of
        (r, files') \<Rightarrow> run_tests io out_file log_file q ts (errored \<or> isl r) files')"

text \<open>\<^verbatim>\<open>main\<close>; \<open>entries\<close> is what reading the directory of the tests gives, None if it cannot be read.\<close>

definition golden_main ::
  "golden_io \<Rightarrow> golden_cli \<Rightarrow> dir_entry list option \<Rightarrow> files \<Rightarrow> (golden_error + unit) \<times> files" where
  "golden_main io cli entries files =
     (case io_rt io of
        None \<Rightarrow> (Inl NoRuntime, files)
      | Some (None, stderr) \<Rightarrow> (Inl RuntimeNotUtf8, files)
      | Some (Some stdout, stderr) \<Rightarrow>
          (let rt = trim stdout;
               out_file = ''expected-stdout.'' @ rt;
               log_file = ''expected-replay-log.'' @ rt
           in if rt = [] then (Inl EmptyRuntime, files)
              else case entries of
                None \<Rightarrow> (Inl NoTestsDirectory, files)
              | Some es \<Rightarrow>
                  (case load_tests cli out_file log_file files es of
                     Inl e \<Rightarrow> (Inl e, files)
                   | Inr ts \<Rightarrow>
                       (case run_tests io out_file log_file (quiet cli) ts False files of
                          (errored, files') \<Rightarrow> (if errored then Inl TestsFailed else Inr (), files')))))"

section \<open>Expectations\<close>

text \<open>The workbench prints \<open>out\<close> and \<open>err\<close>, writes the replay log and leaves the other files alone.\<close>

definition behaves :: "golden_io \<Rightarrow> string \<Rightarrow> string \<Rightarrow> string \<Rightarrow> string \<Rightarrow> bool" where
  "behaves io args out err trace \<longleftrightarrow>
     (\<forall>files. io_run io (split_whitespace args) files = Some (out, err, files(replay_log_path \<mapsto> trace)))"

definition untested :: "golden_io \<Rightarrow> string \<Rightarrow> string \<Rightarrow> path \<Rightarrow> string \<Rightarrow> files \<Rightarrow> bool" where
  "untested io out_file log_file p args files \<longleftrightarrow>
     p \<noteq> [] \<and> distinct [''args'', out_file, log_file] \<and> files (p @ [''args'']) = Some args \<and>
     files (p @ [out_file]) = None \<and> files (p @ [log_file]) = None \<and>
     io_writable io (p @ [out_file]) \<and> io_writable io (p @ [log_file])"

definition stored_files :: "string \<Rightarrow> string \<Rightarrow> path \<Rightarrow> string \<Rightarrow> string \<Rightarrow> files \<Rightarrow> files" where
  "stored_files out_file log_file p out trace files =
     files(replay_log_path \<mapsto> trace, p @ [out_file] \<mapsto> out, p @ [log_file] \<mapsto> trace)"

lemma load_untested:
  assumes "untested io out_file log_file p args files"
  shows "load_test out_file log_file files p =
    Inr \<lparr>tc_dir = p, tc_args = args, expected_stdout = None, expected_replay_log = None\<rparr>"
  using assms by (simp add: load_test_def untested_def)

lemma run_untested:
  assumes "untested io out_file log_file p args files" and "behaves io args out err trace"
  shows "run_quinn_workbench io \<lparr>tc_dir = p, tc_args = args, expected_stdout = None, expected_replay_log = None\<rparr>
      out_file log_file q files =
    (if err = [] then Inr ()
     else Inl (InvalidOutput \<lparr>io_stderr = err, stdout_diff = None, replay_log_diff = None\<rparr>),
     stored_files out_file log_file p out trace files)"
  using assms
  by (simp add: run_quinn_workbench_def behaves_def untested_def compare_or_persist_def stored_files_def)

lemma load_stored:
  assumes "untested io out_file log_file p args files"
  shows "load_test out_file log_file (stored_files out_file log_file p out trace files) p =
    Inr \<lparr>tc_dir = p, tc_args = args, expected_stdout = Some out, expected_replay_log = Some trace\<rparr>"
  using assms by (auto simp: load_test_def untested_def stored_files_def replay_log_path_def)

lemma run_stored:
  assumes "behaves io args out' err' trace'"
  shows "fst (run_quinn_workbench io \<lparr>tc_dir = p, tc_args = args, expected_stdout = Some out,
      expected_replay_log = Some trace\<rparr> out_file log_file q files) = Inr () \<longleftrightarrow>
    out' = out \<and> trace' = trace \<and> err' = []"
  using assms by (auto simp: run_quinn_workbench_def behaves_def compare_or_persist_def)

text \<open>
  C23. The first run of a test stores what the workbench printed and logged. Whatever happens to the
  workbench later, the next run of the test passes exactly if it prints the same, logs the same and
  reports no error; how much detail is asked for does not matter.
\<close>

theorem golden_roundtrip:
  assumes "untested io out_file log_file p args files" and "behaves io args out [] trace"
    and "behaves io' args out' err' trace'"
  shows "\<exists>t files1 t1. load_test out_file log_file files p = Inr t \<and>
    run_quinn_workbench io t out_file log_file q files = (Inr (), files1) \<and>
    load_test out_file log_file files1 p = Inr t1 \<and>
    (fst (run_quinn_workbench io' t1 out_file log_file q' files1) = Inr () \<longleftrightarrow>
       out' = out \<and> trace' = trace \<and> err' = [])"
  using load_untested [OF assms(1)] run_untested [OF assms(1,2), of q] load_stored [OF assms(1), of out trace]
    run_stored [OF assms(3), of p out trace out_file log_file q' "stored_files out_file log_file p out trace files"]
  by simp

definition echo_io :: golden_io where
  "echo_io =
     \<lparr>io_rt = Some (Some ''tokio'', []),
      io_run = (\<lambda>args files. Some (concat args, [], files(replay_log_path \<mapsto> ''[]''))),
      io_diff = (\<lambda>a b. a @ b), io_writable = (\<lambda>_. True)\<rparr>"

definition ping_test :: files where
  "ping_test = [[''golden-tests'', ''tests'', ''ping'', ''args''] \<mapsto> ''ping'']"

lemma ping_untested:
  "untested echo_io ''expected-stdout.tokio'' ''expected-replay-log.tokio'' [''golden-tests'', ''tests'', ''ping'']
     ''ping'' ping_test"
  by (simp add: untested_def echo_io_def ping_test_def)

lemma ping_behaves: "behaves echo_io ''ping'' ''ping'' [] ''[]''"
proof -
  have "split_whitespace ''ping'' = [''ping'']" by code_simp
  then show ?thesis by (simp add: behaves_def echo_io_def)
qed

theorem golden_roundtrip_witness:
  "\<exists>t files1 t1.
     load_test ''expected-stdout.tokio'' ''expected-replay-log.tokio'' ping_test
       [''golden-tests'', ''tests'', ''ping''] = Inr t \<and>
     run_quinn_workbench echo_io t ''expected-stdout.tokio'' ''expected-replay-log.tokio'' 0 ping_test =
       (Inr (), files1) \<and>
     load_test ''expected-stdout.tokio'' ''expected-replay-log.tokio'' files1
       [''golden-tests'', ''tests'', ''ping''] = Inr t1 \<and>
     fst (run_quinn_workbench echo_io t1 ''expected-stdout.tokio'' ''expected-replay-log.tokio'' 2 files1) = Inr ()"
  using golden_roundtrip [OF ping_untested ping_behaves ping_behaves, of 0 2] by blast

text \<open>
  C25. A first run that prints errors fails, and yet stores its output and log: the very same output
  without the errors passes from then on.
\<close>

theorem failing_run_persists:
  assumes "untested io out_file log_file p args files" and "behaves io args out err trace" and "err \<noteq> []"
    and "behaves io' args out [] trace"
  shows "\<exists>t files1 t1. load_test out_file log_file files p = Inr t \<and>
    run_quinn_workbench io t out_file log_file q files =
      (Inl (InvalidOutput \<lparr>io_stderr = err, stdout_diff = None, replay_log_diff = None\<rparr>), files1) \<and>
    files1 (p @ [out_file]) = Some out \<and> files1 (p @ [log_file]) = Some trace \<and>
    load_test out_file log_file files1 p = Inr t1 \<and>
    fst (run_quinn_workbench io' t1 out_file log_file q' files1) = Inr ()"
proof -
  have "stored_files out_file log_file p out trace files (p @ [out_file]) = Some out"
    "stored_files out_file log_file p out trace files (p @ [log_file]) = Some trace"
    using assms(1) by (auto simp: stored_files_def untested_def)
  then show ?thesis
    using load_untested [OF assms(1)] run_untested [OF assms(1,2), of q] load_stored [OF assms(1), of out trace]
      run_stored [OF assms(4), of p out trace out_file log_file q' "stored_files out_file log_file p out trace files"]
      assms(3)
    by simp
qed

definition failing_io :: golden_io where
  "failing_io = echo_io\<lparr>io_run := (\<lambda>args files. Some (concat args, ''Error...'', files(replay_log_path \<mapsto> ''[]'')))\<rparr>"

theorem failing_run_persists_witness:
  "\<exists>t files1. run_quinn_workbench failing_io t ''expected-stdout.tokio'' ''expected-replay-log.tokio'' 0 ping_test =
      (Inl (InvalidOutput \<lparr>io_stderr = ''Error...'', stdout_diff = None, replay_log_diff = None\<rparr>), files1) \<and>
     files1 [''golden-tests'', ''tests'', ''ping'', ''expected-stdout.tokio''] = Some ''ping''"
proof -
  have u: "untested failing_io ''expected-stdout.tokio'' ''expected-replay-log.tokio''
      [''golden-tests'', ''tests'', ''ping''] ''ping'' ping_test"
    using ping_untested by (simp add: untested_def failing_io_def)
  have "split_whitespace ''ping'' = [''ping'']" by code_simp
  then have "behaves failing_io ''ping'' ''ping'' ''Error...'' ''[]''"
    by (simp add: behaves_def failing_io_def)
  from failing_run_persists [OF u this _ ping_behaves, of 0 0] show ?thesis by auto
qed

text \<open>The tool succeeds exactly if the tests load and every selected test passes, in order.\<close>

fun test_results ::
  "golden_io \<Rightarrow> string \<Rightarrow> string \<Rightarrow> nat \<Rightarrow> test_case list \<Rightarrow> files \<Rightarrow> (test_error + unit) list" where
  "test_results io out_file log_file q [] files = []"
| "test_results io out_file log_file q (t # ts) files =
     (case run_quinn_workbench io t out_file log_file q files of
        (r, files') \<Rightarrow> r # test_results io out_file log_file q ts files')"

lemma run_tests_errored:
  "fst (run_tests io out_file log_file q ts errored files) \<longleftrightarrow>
     errored \<or> (\<exists>r \<in> set (test_results io out_file log_file q ts files). isl r)"
  by (induction ts arbitrary: errored files) (auto split: prod.split)

end
