(* ===== verification/Udp_Ping.thy ===== *)
theory Udp_Ping
  imports Quinn_Socket Workbench_Config
begin

text \<open>
  The ping simulation, \<^verbatim>\<open>quinn-workbench/src/udp/ping.rs\<close>: the echo server, and the three kinds of
  client tasks (sender, receiver, one deadline task per ping) around the shared table of pings in
  flight and the list of lost ones. A printed line is a report. The runtime lets time pass only
  while every task waits, so no timer is passed over.
\<close>

section \<open>The payload of a ping\<close>

primrec to_le_bytes :: "nat \<Rightarrow> nat \<Rightarrow> byte list" where
  "to_le_bytes 0 n = []"
| "to_le_bytes (Suc k) n = of_nat (n mod 256) # to_le_bytes k (n div 256)"

fun from_le_bytes :: "byte list \<Rightarrow> nat" where
  "from_le_bytes [] = 0"
| "from_le_bytes (b # bs) = unat b + 256 * from_le_bytes bs"

text \<open>\<^verbatim>\<open>try_into().unwrap()\<close> takes eight bytes.\<close>

datatype ping_panic = WrongSource ip_addr | WrongLength nat

definition ping_payload :: "nat \<Rightarrow> byte list" where
  "ping_payload ping_nr = to_le_bytes 8 ping_nr"

definition ping_number :: "byte list \<Rightarrow> ping_panic + nat" where
  "ping_number payload =
     (if length payload = 8 then Inr (from_le_bytes payload) else Inl (WrongLength (length payload)))"

section \<open>The server\<close>

definition echo_transmit :: "ip_addr \<Rightarrow> udp_packet \<Rightarrow> owned_transmit" where
  "echo_transmit client_ip packet =
     \<lparr>tx_destination = \<lparr>sa_ip = client_ip, sa_port = 8080\<rparr>, tx_ecn = None,
      tx_contents = up_payload packet, tx_segment_size = None\<rparr>"

definition echo_packets ::
  "packet_codec \<Rightarrow> 'r rng_ops \<Rightarrow> nat \<Rightarrow> ip_addr \<Rightarrow> udp_packet list \<Rightarrow> 'r socket_state \<Rightarrow>
   (ping_panic + panic) + 'r socket_state" where
  "echo_packets lib ops server client_ip packets st =
     fold_ok (\<lambda>st packet.
        if sa_ip (up_source_addr packet) \<noteq> client_ip
        then Inl (Inl (WrongSource (sa_ip (up_source_addr packet))))
        else map_sum Inr id (try_send lib ops [] server (echo_transmit client_ip packet) st))
       st packets"

section \<open>The client\<close>

datatype ping_report =
    PingReceived nat instant instant
  | PingLost nat instant instant

record ping_state =
  pg_now :: instant
  pg_ping_nr :: nat
  pg_in_flight :: "nat \<rightharpoonup> instant"
  pg_lost :: "nat list"
  pg_deadlines :: "(nat \<times> instant) list"
  pg_reports :: "ping_report list"

definition ping_start :: "instant \<Rightarrow> ping_state" where
  "ping_start now =
     \<lparr>pg_now = now, pg_ping_nr = 0, pg_in_flight = Map.empty, pg_lost = [], pg_deadlines = [],
      pg_reports = []\<rparr>"

definition ping_transmit :: "ip_addr \<Rightarrow> nat \<Rightarrow> owned_transmit" where
  "ping_transmit server_ip ping_nr =
     \<lparr>tx_destination = \<lparr>sa_ip = server_ip, sa_port = 8080\<rparr>, tx_ecn = None,
      tx_contents = ping_payload ping_nr, tx_segment_size = None\<rparr>"

text \<open>One iteration of the sender, after its \<^verbatim>\<open>try_send\<close> of \<open>ping_transmit\<close>.\<close>

definition send_ping :: "duration \<Rightarrow> ping_state \<Rightarrow> ping_state" where
  "send_ping deadline s =
     (let sent_ping_nr = pg_ping_nr s
      in s\<lparr>pg_ping_nr := add64 (pg_ping_nr s) 1,
           pg_in_flight := (pg_in_flight s)(sent_ping_nr \<mapsto> pg_now s),
           pg_deadlines := pg_deadlines s @ [(sent_ping_nr, pg_now s + deadline)]\<rparr>)"

definition ping_deadline :: "nat \<Rightarrow> ping_state \<Rightarrow> ping_state" where
  "ping_deadline sent_ping_nr s =
     (let s1 = s\<lparr>pg_deadlines := filter (\<lambda>d. fst d \<noteq> sent_ping_nr) (pg_deadlines s)\<rparr>
      in case pg_in_flight s sent_ping_nr of
           None \<Rightarrow> s1
         | Some ping_sent \<Rightarrow>
             s1\<lparr>pg_in_flight := (pg_in_flight s)(sent_ping_nr := None),
                pg_lost := pg_lost s @ [sent_ping_nr],
                pg_reports := pg_reports s @ [PingLost sent_ping_nr ping_sent (pg_now s)]\<rparr>)"

definition receive_ping :: "ip_addr \<Rightarrow> ping_state \<Rightarrow> udp_packet \<Rightarrow> ping_panic + ping_state" where
  "receive_ping server_ip s packet =
     (if sa_ip (up_source_addr packet) \<noteq> server_ip
      then Inl (WrongSource (sa_ip (up_source_addr packet)))
      else bind_ok (ping_number (up_payload packet)) (\<lambda>ping_nr. Inr
        (case pg_in_flight s ping_nr of
           None \<Rightarrow> s
         | Some ping_sent \<Rightarrow>
             s\<lparr>pg_in_flight := (pg_in_flight s)(ping_nr := None),
               pg_reports := pg_reports s @ [PingReceived ping_nr ping_sent (pg_now s)]\<rparr>)))"

datatype ping_label = PTick duration | PSend | PDeadline nat | PReceive "udp_packet list"

text \<open>A tick that would pass a timer and a deadline task that is not due do nothing.\<close>

definition ping_step ::
  "duration \<Rightarrow> ip_addr \<Rightarrow> ping_state \<Rightarrow> ping_label \<Rightarrow> ping_panic + ping_state" where
  "ping_step deadline server_ip s lab =
     (case lab of
        PTick d \<Rightarrow>
          Inr (if \<forall>(nr, t) \<in> set (pg_deadlines s). pg_now s + d \<le> t then s\<lparr>pg_now := pg_now s + d\<rparr> else s)
      | PSend \<Rightarrow> Inr (send_ping deadline s)
      | PDeadline nr \<Rightarrow> Inr (if (nr, pg_now s) \<in> set (pg_deadlines s) then ping_deadline nr s else s)
      | PReceive packets \<Rightarrow> fold_ok (receive_ping server_ip) s packets)"

definition ping_run ::
  "duration \<Rightarrow> ip_addr \<Rightarrow> ping_label list \<Rightarrow> ping_state \<Rightarrow> ping_panic + ping_state" where
  "ping_run deadline server_ip labs s = fold_ok (ping_step deadline server_ip) s labs"

section \<open>Every ping is accounted for\<close>

lemma from_to_le_bytes: "from_le_bytes (to_le_bytes k n) = n mod 256 ^ k"
proof (induction k arbitrary: n)
  case (Suc k)
  have "unat (of_nat (n mod 256) :: 8 word) = n mod 256" by (simp add: unat_of_nat)
  then show ?case by (simp add: Suc mod_mult2_eq)
qed simp

lemma length_to_le_bytes [simp]: "length (to_le_bytes k n) = k"
  by (induction k arbitrary: n) simp_all

fun report_number :: "ping_report \<Rightarrow> nat" where
  "report_number (PingReceived nr sent done_at) = nr"
| "report_number (PingLost nr sent done_at) = nr"

fun report_in_time :: "duration \<Rightarrow> ping_report \<Rightarrow> bool" where
  "report_in_time deadline (PingReceived nr sent done_at) \<longleftrightarrow> sent \<le> done_at \<and> done_at \<le> sent + deadline"
| "report_in_time deadline (PingLost nr sent done_at) \<longleftrightarrow> done_at = sent + deadline"

fun lost_number :: "ping_report \<Rightarrow> nat option" where
  "lost_number (PingReceived nr sent done_at) = None"
| "lost_number (PingLost nr sent done_at) = Some nr"

definition pings_ok :: "duration \<Rightarrow> nat \<Rightarrow> ping_state \<Rightarrow> bool" where
  "pings_ok deadline n s \<longleftrightarrow>
     pg_ping_nr s = wrap64 n \<and>
     dom (pg_in_flight s) \<inter> report_number ` set (pg_reports s) = {} \<and>
     dom (pg_in_flight s) \<union> report_number ` set (pg_reports s) = {..<n} \<and>
     distinct (map report_number (pg_reports s)) \<and>
     (\<forall>nr sent. pg_in_flight s nr = Some sent \<longrightarrow>
        sent \<le> pg_now s \<and> (nr, sent + deadline) \<in> set (pg_deadlines s)) \<and>
     (\<forall>(nr, t) \<in> set (pg_deadlines s). pg_now s \<le> t) \<and>
     distinct (map fst (pg_deadlines s)) \<and> fst ` set (pg_deadlines s) \<subseteq> {..<n} \<and>
     (\<forall>r \<in> set (pg_reports s). report_in_time deadline r) \<and>
     pg_lost s = List.map_filter lost_number (pg_reports s)"

lemma pings_start: "pings_ok deadline 0 (ping_start now)"
  by (simp add: pings_ok_def ping_start_def wrap64_def List.map_filter_def)

lemma map_filter_snoc:
  "List.map_filter f (xs @ [x]) = List.map_filter f xs @ (case f x of None \<Rightarrow> [] | Some y \<Rightarrow> [y])"
  by (simp add: List.map_filter_def split: option.splits)

lemma pings_send:
  assumes "pings_ok deadline n s" and "Suc n < 2 ^ 64"
  shows "pings_ok deadline (Suc n) (send_ping deadline s)"
proof -
  have n: "pg_ping_nr s = n" using assms by (simp add: pings_ok_def wrap64_id)
  then have "add64 (pg_ping_nr s) 1 = wrap64 (Suc n)" by (simp add: add64_def)
  then show ?thesis
    using assms(1) n unfolding pings_ok_def send_ping_def Let_def
    by (auto simp: lessThan_Suc)
qed

lemma pings_deadline:
  assumes "pings_ok deadline n s" and "(nr, pg_now s) \<in> set (pg_deadlines s)"
  shows "pings_ok deadline n (ping_deadline nr s)"
proof (cases "pg_in_flight s nr")
  case None
  then show ?thesis
    using assms(1) unfolding pings_ok_def ping_deadline_def Let_def
    by (auto simp: distinct_map_filter)
next
  case (Some sent)
  then have d: "(nr, sent + deadline) \<in> set (pg_deadlines s)" "nr \<in> {..<n}"
    using assms(1) by (auto simp: pings_ok_def)
  with assms have "pg_now s = sent + deadline"
    by (auto simp: pings_ok_def dest: eq_key_imp_eq_value)
  with Some d assms(1) show ?thesis
    unfolding pings_ok_def ping_deadline_def Let_def
    by (auto simp: distinct_map_filter map_filter_snoc split: if_splits)
qed

lemma pings_receive:
  assumes "pings_ok deadline n s" and "receive_ping server_ip s packet = Inr s2"
  shows "pings_ok deadline n s2"
proof -
  obtain nr where s2: "s2 = (case pg_in_flight s nr of
           None \<Rightarrow> s
         | Some ping_sent \<Rightarrow>
             s\<lparr>pg_in_flight := (pg_in_flight s)(nr := None),
               pg_reports := pg_reports s @ [PingReceived nr ping_sent (pg_now s)]\<rparr>)"
    using assms(2) by (auto simp: receive_ping_def bind_ok_Inr_iff split: if_splits)
  show ?thesis
  proof (cases "pg_in_flight s nr")
    case (Some sent)
    then have "pg_now s \<le> sent + deadline" "sent \<le> pg_now s" "nr \<in> {..<n}"
      using assms(1) by (fastforce simp: pings_ok_def)+
    with Some assms(1) show ?thesis
      unfolding s2 pings_ok_def by (auto simp: map_filter_snoc split: if_splits)
  qed (use assms(1) s2 in simp)
qed

definition pings_sent :: "ping_label list \<Rightarrow> nat" where
  "pings_sent labs = length (filter (\<lambda>l. l = PSend) labs)"

lemma pings_tick:
  "pings_ok deadline n s \<Longrightarrow> \<forall>(nr, t) \<in> set (pg_deadlines s). pg_now s + d \<le> t \<Longrightarrow>
   pings_ok deadline n (s\<lparr>pg_now := pg_now s + d\<rparr>)"
  by (fastforce simp: pings_ok_def)

lemma pings_step:
  assumes "ping_step deadline server_ip s lab = Inr s2" and "pings_ok deadline n s"
    and "lab = PSend \<longrightarrow> Suc n < 2 ^ 64"
  shows "pings_ok deadline (if lab = PSend then Suc n else n) s2"
proof (cases lab)
  case (PReceive packets)
  then have "fold_ok (receive_ping server_ip) s packets = Inr s2" using assms(1) by (simp add: ping_step_def)
  then have "pings_ok deadline n s2"
    by (rule fold_ok_invariant) (use assms(2) pings_receive in auto)
  with PReceive show ?thesis by simp
qed (use assms pings_tick pings_send pings_deadline in \<open>auto simp: ping_step_def split: if_splits\<close>)

lemma pings_run:
  assumes "ping_run deadline server_ip labs (ping_start now) = Inr s" and "pings_sent labs < 2 ^ 64"
  shows "pings_ok deadline (pings_sent labs) s"
  using assms
proof (induction labs arbitrary: s rule: rev_induct)
  case Nil
  then show ?case using pings_start by (auto simp: ping_run_def pings_sent_def)
next
  case (snoc lab labs)
  then obtain s1 where s1: "ping_run deadline server_ip labs (ping_start now) = Inr s1"
    "ping_step deadline server_ip s1 lab = Inr s"
    by (auto simp: ping_run_def fold_ok_append bind_ok_Inr_iff)
  have "pings_sent labs < 2 ^ 64" using snoc.prems(2) by (simp add: pings_sent_def split: if_splits)
  from pings_step [OF s1(2) snoc.IH [OF s1(1) this]] snoc.prems(2)
  show ?case by (simp add: pings_sent_def split: if_splits)
qed

section \<open>Properties\<close>

text \<open>
  A ping comes back with its number: the receiver decodes the payload of the server's echo of
  a ping to the number the sender put into it.
\<close>

lemma echoed_ping_number:
  assumes "ping_nr < 2 ^ 64" and "up_payload packet = tx_contents (ping_transmit server_ip ping_nr)"
  shows "ping_number (tx_contents (echo_transmit client_ip packet)) = Inr ping_nr"
  using assms
  by (simp add: echo_transmit_def ping_transmit_def ping_payload_def ping_number_def from_to_le_bytes
      del: to_le_bytes.simps)

text \<open>
  C26. Whatever the order in which pings are sent, answers arrive (also twice, or too late) and
  deadlines pass: each ping sent so far is either still in flight or has exactly one report, as
  received or as lost, and the list of lost pings is that of the reports.
\<close>

theorem every_ping_accounted:
  assumes "ping_run deadline server_ip labs (ping_start now) = Inr s" and "pings_sent labs < 2 ^ 64"
  shows "dom (pg_in_flight s) \<union> report_number ` set (pg_reports s) = {..<pings_sent labs} \<and>
    dom (pg_in_flight s) \<inter> report_number ` set (pg_reports s) = {} \<and>
    distinct (map report_number (pg_reports s)) \<and>
    pg_lost s = List.map_filter lost_number (pg_reports s)"
  using pings_run [OF assms] by (simp add: pings_ok_def)

definition ping_labels :: "ping_label list" where
  "ping_labels =
     [PSend, PTick 5, PSend,
      PReceive [\<lparr>up_source_addr = \<lparr>sa_ip = V4 2, sa_port = 8080\<rparr>, up_payload = ping_payload 0\<rparr>],
      PTick 5, PDeadline 0, PTick 5, PDeadline 1]"

lemma ping_labels_run:
  obtains s where "ping_run 10 (V4 2) ping_labels (ping_start 0) = Inr s"
    "pg_reports s = [PingReceived 0 0 5, PingLost 1 5 15]"
proof -
  have "case ping_run 10 (V4 2) ping_labels (ping_start 0) of Inl e \<Rightarrow> False
      | Inr s \<Rightarrow> pg_reports s = [PingReceived 0 0 5, PingLost 1 5 15]"
    by code_simp
  then show ?thesis using that by (auto split: sum.splits)
qed

lemma ping_labels_sent: "pings_sent ping_labels = 2"
  by (simp add: pings_sent_def ping_labels_def)

theorem every_ping_accounted_witness:
  "\<exists>s. ping_run 10 (V4 2) ping_labels (ping_start 0) = Inr s \<and>
     dom (pg_in_flight s) \<union> report_number ` set (pg_reports s) = {..<2}"
proof -
  obtain s where s: "ping_run 10 (V4 2) ping_labels (ping_start 0) = Inr s" by (rule ping_labels_run)
  from every_ping_accounted [OF s] s show ?thesis by (auto simp: ping_labels_sent)
qed

text \<open>
  A ping is reported as received only within its deadline, and as lost exactly at its deadline.
\<close>

lemma ping_reports_in_time:
  assumes "ping_run deadline server_ip labs (ping_start now) = Inr s" and "pings_sent labs < 2 ^ 64"
    and "r \<in> set (pg_reports s)"
  shows "case r of
      PingReceived nr sent received \<Rightarrow> sent \<le> received \<and> received \<le> sent + deadline
    | PingLost nr sent lost \<Rightarrow> lost = sent + deadline"
  using pings_run [OF assms(1,2)] assms(3) by (cases r) (auto simp: pings_ok_def)

end
