(* ===== verification/Provenance.thy ===== *)
theory Provenance
  imports Network_Buffers Scenario
begin

text \<open>
  Where packets come from: whatever a node, a link or a socket of the network of
  \<^verbatim>\<open>in-memory-network/src/network\<close> holds was put there by a send of the application, with the
  addresses and the contents it had then, and what waits at a host is addressed to it. Marks of
  congestion and duplicates do not change that.
\<close>

section \<open>Origins\<close>

type_synonym origin = "socket_addr \<times> socket_addr \<times> 8 word list"

definition origin :: "in_transit_data \<Rightarrow> origin" where
  "origin d = (pkt_source_endpoint d, tx_destination (pkt_transmit d), tx_contents (pkt_transmit d))"

lemma origin_mark [simp]: "origin (mark_congestion d) = origin d"
  by (simp add: origin_def mark_congestion_def)

lemma origin_id [simp]: "origin (d\<lparr>pkt_id := u, pkt_duplicate := b\<rparr>) = origin d"
  by (simp add: origin_def)

definition queue_from :: "origin set \<Rightarrow> inbound_queue \<Rightarrow> bool" where
  "queue_from S q \<longleftrightarrow> (\<forall>p \<in> set (iq_queue q). origin (pd_data p) \<in> S)"

text \<open>What waits at a host is addressed to it.\<close>

definition endpoint_from :: "origin set \<Rightarrow> udp_endpoint \<Rightarrow> bool" where
  "endpoint_from S e \<longleftrightarrow> queue_from {x \<in> S. fst (snd x) = ue_addr e} (ue_inbound e)"

definition node_from :: "origin set \<Rightarrow> node \<Rightarrow> bool" where
  "node_from S n \<longleftrightarrow>
     (\<forall>b \<in> set (nd_outbound n). origin (bp_data b) \<in> S) \<and>
     (\<forall>e. nd_udp_endpoint n = Some e \<longrightarrow> endpoint_from S e)"

definition link_from :: "origin set \<Rightarrow> network_link \<Rightarrow> bool" where
  "link_from S l \<longleftrightarrow>
     queue_from S (nl_in_transit l) \<and> (\<forall>p \<in> set (nl_outgoing_queue l). origin (op_data p) \<in> S)"

text \<open>The endpoints never change their addresses; \<open>E\<close> has them, node by node.\<close>

definition net_from :: "socket_addr option list \<Rightarrow> origin set \<Rightarrow> 'r network \<Rightarrow> bool" where
  "net_from E S nw \<longleftrightarrow>
     map quic_addr (nw_nodes nw) = E \<and> (\<forall>n \<in> set (nw_nodes nw). node_from S n) \<and>
     (\<forall>l \<in> set (nw_links nw). link_from S l)"

definition sim_from :: "socket_addr option list \<Rightarrow> origin set \<Rightarrow> 'r simulation \<Rightarrow> bool" where
  "sim_from E S s \<longleftrightarrow>
     net_from E S (sim_network s) \<and>
     (\<forall>ph \<in> set (sim_link_tasks s). \<forall>p \<in> set (phase_packets ph). origin (op_data p) \<in> S)"

section \<open>Updates\<close>

lemma set_update: "P x \<Longrightarrow> \<forall>y \<in> set xs. P y \<Longrightarrow> \<forall>y \<in> set (xs[i := x]). P y"
  using set_update_subset_insert [of xs i x] by blast

lemma net_from_put_node:
  assumes "net_from E S nw" and "i < length (nw_nodes nw) \<Longrightarrow> node_from S n"
    and "i < length (nw_nodes nw) \<Longrightarrow> quic_addr n = quic_addr (nw_nodes nw ! i)"
  shows "net_from E S (put_node i n nw)"
proof (cases "i < length (nw_nodes nw)")
  case True
  then have "\<forall>y \<in> set ((nw_nodes nw)[i := n]). node_from S y"
    using assms by (intro set_update) (simp_all add: net_from_def)
  then show ?thesis using assms True by (simp add: net_from_def)
qed (use assms(1) in \<open>simp add: list_update_beyond\<close>)

lemma net_from_put_link:
  assumes "net_from E S nw" and "l < length (nw_links nw) \<Longrightarrow> link_from S k"
  shows "net_from E S (put_link l k nw)"
proof (cases "l < length (nw_links nw)")
  case True
  then have "\<forall>y \<in> set ((nw_links nw)[l := k]). link_from S y"
    using assms by (intro set_update) (simp_all add: net_from_def)
  then show ?thesis using assms by (simp add: net_from_def)
qed (use assms(1) in \<open>simp add: list_update_beyond\<close>)

lemma net_from_frame [simp]:
  "net_from E S (put_tracer t nw) = net_from E S nw"
  "net_from E S (nw\<lparr>nw_rng := r\<rparr>) = net_from E S nw"
  "net_from E S (nw\<lparr>nw_next_transmit_number := k\<rparr>) = net_from E S nw"
  by (simp_all add: net_from_def)

lemma net_from_node: "net_from E S nw \<Longrightarrow> i < length (nw_nodes nw) \<Longrightarrow> node_from S (nw_nodes nw ! i)"
  by (simp add: net_from_def)

lemma net_from_link: "net_from E S nw \<Longrightarrow> l < length (nw_links nw) \<Longrightarrow> link_from S (nw_links nw ! l)"
  by (simp add: net_from_def)

lemma queue_from_send: "queue_from S q \<Longrightarrow> origin d \<in> S \<Longrightarrow> queue_from S (fst (queue_send now q d delay))"
  by (auto simp: queue_from_def queue_send_def)

lemma poll_loop_subset:
  "poll_loop now m ds sl h = (ex, ds', sl', h') \<Longrightarrow> set ds' \<union> set h' \<subseteq> set ds \<union> set h"
proof (induction now m ds sl h rule: poll_loop.induct)
  case (1 now m ds sl h)
  show ?case
  proof (cases "m \<le> length ds \<or> sl \<noteq> None \<and> (ds \<noteq> [] \<or> now < the sl) \<or> h = []")
    case True
    with "1.prems" show ?thesis
      by (auto simp: poll_loop.simps [of now m ds sl h] split: if_splits)
  next
    case False
    then obtain p ps where h: "h = p # ps" by (cases h) auto
    show ?thesis
    proof (cases "now < arrival_time p")
      case True
      with False h "1.prems" have "poll_loop now m ds (Some (arrival_time p)) h = (ex, ds', sl', h')"
        by (subst (asm) poll_loop.simps) (auto split: if_splits)
      from "1.IH"(1) [OF _ _ _ h True this] False show ?thesis by auto
    next
      case early: False
      with False h "1.prems" have "poll_loop now m (ds @ [p]) None ps = (ex, ds', sl', h')"
        by (subst (asm) poll_loop.simps) (auto split: if_splits)
      from "1.IH"(2) [OF _ _ _ h early this] False h show ?thesis by auto
    qed
  qed
qed

lemma queue_from_poll:
  assumes "poll now w f q = (r, f', q')" and "queue_from S q"
  shows "queue_from S q'" and "r = Ready ds \<Longrightarrow> d \<in> set ds \<Longrightarrow> origin (dt_data d) \<in> S"
proof -
  obtain ex ds' sl h where loop: "poll_loop now (np_max_transmits f) [] (np_sleep f) (iq_queue q) = (ex, ds', sl, h)"
    by (metis prod_cases4)
  from assms(1) loop have q': "iq_queue q' = h" and r: "r = Ready ds \<Longrightarrow> ds = map to_delivered ds'" for ds
    by (auto simp: poll_def Let_def split: loop_exit.splits if_splits)
  from poll_loop_subset [OF loop] assms(2) q' show "queue_from S q'" by (auto simp: queue_from_def)
  show "origin (dt_data d) \<in> S" if "r = Ready ds" "d \<in> set ds"
    using that r [OF that(1)] poll_loop_subset [OF loop] assms(2) by (auto simp: queue_from_def to_delivered_def)
qed

section \<open>Packets at nodes\<close>

lemma net_from_enqueue:
  assumes "enqueue_at now i p nw = Inr nw'" and "net_from E S nw" and "origin (bp_data p) \<in> S"
  shows "net_from E S nw'"
proof -
  from assms(1) obtain n t where e: "enqueue_outbound now p (nw_nodes nw ! i, nw_tracer nw) = Inr (n, t)"
    and nw': "nw' = put_tracer t (put_node i n nw)"
    by (auto simp: enqueue_at_def map_sum_id_Inr)
  have "quic_addr n = quic_addr (nw_nodes nw ! i)"
    "node_from S (nw_nodes nw ! i) \<Longrightarrow> node_from S n"
    using e assms(3)
    by (auto simp: enqueue_outbound_def Let_def node_from_def quic_addr_def split: prod.splits bool.splits if_splits)
  with assms(2) show ?thesis
    unfolding nw' net_from_frame by (intro net_from_put_node) (auto intro: net_from_node)
qed

lemma net_from_new_id: "new_packet_id ops nw = (u, nw') \<Longrightarrow> net_from E S nw \<Longrightarrow> net_from E S nw'"
  by (auto simp: new_packet_id_def split: prod.splits)

lemma net_from_roll: "roll_f64 ops nw = (x, nw') \<Longrightarrow> net_from E S nw \<Longrightarrow> net_from E S nw'"
  by (auto simp: roll_f64_def split: prod.splits)

lemma net_from_send:
  assumes "send_to_next_hop ops now i d nw = Inr nw'" and "net_from E S nw" and "origin d \<in> S"
  shows "net_from E S nw'"
proof -
  obtain x nw1 where x: "roll_f64 ops nw = (x, nw1)" by fastforce
  obtain u nw2 where u: "new_packet_id ops nw1 = (u, nw2)" by fastforce
  have f: "net_from E S nw1" "net_from E S nw2"
    using net_from_roll [OF x assms(2)] net_from_new_id [OF u] by simp_all
  have once: "net_from E S nw''"
    if "enqueue_at now i \<lparr>bp_in_node_since = now, bp_data = d'\<rparr> w = Inr nw''" "net_from E S w" "origin d' = origin d"
    for d' w nw''
    using net_from_enqueue [OF that(1,2)] that(3) assms(3) by simp
  have twice: "net_from E S nw'"
    if "enqueue_at now i \<lparr>bp_in_node_since = now, bp_data = d\<rparr> nw2 = Inr nw3"
      and "enqueue_at now i \<lparr>bp_in_node_since = now, bp_data = d\<lparr>pkt_id := u, pkt_duplicate := True\<rparr>\<rparr>
             (put_tracer t nw3) = Inr nw'"
    for t nw3
    using once [OF that(2)] once [OF that(1) f(2)] by simp
  show ?thesis
    using assms(1) f(1)
    by (auto simp: send_to_next_hop_def x u Let_def bind_ok_Inr_iff split: if_splits intro: once twice)
qed

lemma net_from_forward:
  assumes "forward ops now i d nw = Inr nw'" and "net_from E S nw" and "origin d \<in> S"
  shows "net_from E S nw'"
proof -
  define nw1 where "nw1 = put_tracer (track_packet_in_node now (nd_id (nw_nodes nw ! i)) d (nw_tracer nw)) nw"
  have f: "net_from E S nw1" using assms(2) by (simp add: nw1_def)
  have deliver: "net_from E S (deliver_to_endpoint now i e d nw1)"
    if e: "nd_udp_endpoint (nw_nodes nw ! i) = Some e" and to: "ue_addr e = tx_destination (pkt_transmit d)" for e
    unfolding deliver_to_endpoint_def
  proof (rule net_from_put_node [OF f])
    have e1: "nd_udp_endpoint (nw_nodes nw1 ! i) = Some e" using e by (simp add: nw1_def)
    have mem: "origin d \<in> {x \<in> S. fst (snd x) = ue_addr e}" using to assms(3) by (simp add: origin_def)
    assume "i < length (nw_nodes nw1)"
    from net_from_node [OF f this] e1 queue_from_send [OF _ mem]
    show "node_from S ((nw_nodes nw1 ! i)\<lparr>nd_udp_endpoint :=
        Some (e\<lparr>ue_inbound := fst (queue_send now (ue_inbound e) d 0)\<rparr>)\<rparr>)"
      by (simp add: node_from_def endpoint_from_def)
  qed (use e in \<open>simp add: quic_addr_def nw1_def\<close>)
  have send: "send_to_next_hop ops now i d nw1 = Inr nw' \<Longrightarrow> net_from E S nw'"
    using net_from_send f assms(3) by blast
  show ?thesis
    using assms(1,2) deliver send unfolding nw1_def
    by (auto simp: forward_def Let_def split: if_splits option.splits)
qed

lemma net_from_forward_all:
  assumes "fold_ok (forward_delivered ops now l) nw ds = Inr nw'" and "net_from E S nw"
    and "\<forall>d \<in> set ds. origin (dt_data d) \<in> S"
  shows "net_from E S nw'"
  using assms(1,2)
proof (rule fold_ok_invariant)
  show "net_from E S nw2" if "d \<in> set ds" "net_from E S nw1" "forward_delivered ops now l nw1 d = Inr nw2" for nw1 d nw2
    using that assms(3) net_from_forward
    by (fastforce simp: forward_delivered_def Let_def split: if_splits option.splits)
qed

section \<open>Packets of the tasks\<close>

lemma net_from_offer:
  assumes "net_from E S nw" and "origin (bp_data p) \<in> S"
  shows "net_from E S (offer_packet ops i p ls h l nw)"
proof -
  obtain a nw1 where a: "generate_packet_anomalies ops l nw = (a, nw1)" by fastforce
  then have f: "net_from E S nw1"
    using assms(1) by (auto simp: generate_packet_anomalies_def Let_def intro: net_from_roll split: prod.splits)
  show ?thesis
    unfolding offer_packet_def a prod.case Let_def
    by (rule net_from_put_link [OF f]) (use net_from_link [OF f] assms(2) in \<open>auto simp: link_from_def\<close>)
qed

lemma net_from_offers:
  "net_from E S nw \<Longrightarrow> origin (bp_data p) \<in> S \<Longrightarrow> net_from E S (fold (offer_packet ops i p ls h) ks nw)"
  by (induction ks arbitrary: nw) (simp_all add: net_from_offer)

lemma net_from_process_event:
  assumes "net_from E S nw"
  shows "net_from E S (process_event now k nw)"
proof -
  have node: "net_from E S (put_node i n nw)"
    if "nd_outbound n = nd_outbound (nw_nodes nw ! i)" "nd_udp_endpoint n = nd_udp_endpoint (nw_nodes nw ! i)" for i n
    using net_from_node [OF assms] that by (intro net_from_put_node [OF assms]) (simp_all add: node_from_def quic_addr_def)
  have link: "net_from E S (put_link l k nw)"
    if "nl_in_transit k = nl_in_transit (nw_links nw ! l)" "nl_outgoing_queue k = nl_outgoing_queue (nw_links nw ! l)"
    for l k
    using net_from_link [OF assms] that by (intro net_from_put_link [OF assms]) (simp add: link_from_def)
  show ?thesis
    by (auto simp: process_event_def process_node_event_def process_link_event_def clear_buffer_def
        node_update_status_def Let_def assms intro!: node link
        split: network_event_kind.splits option.splits status.splits update_node_status.splits)
qed

lemma sim_from_put_phase:
  "sim_from E S s \<Longrightarrow> \<forall>p \<in> set (phase_packets ph). origin (op_data p) \<in> S \<Longrightarrow> sim_from E S (put_phase l ph s)"
  using set_update [of "\<lambda>ph. \<forall>p \<in> set (phase_packets ph). origin (op_data p) \<in> S" ph "sim_link_tasks s" l]
  by (simp add: sim_from_def put_phase_def)

lemma sim_from_set_link:
  "sim_from E S s \<Longrightarrow> (l < length (nw_links (sim_network s)) \<Longrightarrow> link_from S k) \<Longrightarrow> sim_from E S (set_link l k s)"
  by (simp add: sim_from_def set_link_def net_from_put_link)

lemma sim_from_ready:
  assumes "ready_to_send l p s = Inr s'" and "sim_from E S s" and "origin (op_data p) \<in> S"
  shows "sim_from E S s'"
proof -
  have idle: "sim_from E S (put_phase l Idle u)" if "sim_from E S u" for u :: "'a simulation"
    using that by (rule sim_from_put_phase) simp
  have net: "net_from E S (sim_network s)" using assms(2) by (simp add: sim_from_def)
  show ?thesis
    using assms(1)
  proof (cases rule: ready_to_send_cases)
    case handled
    then show ?thesis using assms(2) idle by simp
  next
    case cleared
    then show ?thesis using assms(2) idle [of s] by (auto simp: sim_from_def put_phase_def)
  next
    case (sent link n t)
    have l: "link_from S (sim_link s l) \<Longrightarrow> link_from S link" "quic_addr n = quic_addr (sim_node s (op_src_node p))"
      "node_from S (sim_node s (op_src_node p)) \<Longrightarrow> node_from S n"
      using sent(3) assms(3)
      by (auto simp: link_send_def Let_def link_from_def node_from_def quic_addr_def
          split: if_splits intro!: queue_from_send)
    have "net_from E S (put_link l link (put_node (op_src_node p) n (sim_network s)))"
      using l net_from_link [OF net] net_from_node [OF net]
      by (intro net_from_put_link net_from_put_node [OF net]) simp_all
    then show ?thesis
      using assms(2) idle [of s] sent by (auto simp: sim_from_def put_phase_def)
  qed simp
qed

lemma sim_from_link_queue:
  assumes "process_link_queue l s = Inr s'" and "sim_from E S s" and "tasks_ok s"
    and l: "l < length (nw_links (sim_network s))"
  shows "sim_from E S s'"
proof (rule link_task_rule [where H = "\<lambda>p s. sim_from E S s \<and> origin (op_data p) \<in> S" and l = l])
  have net: "net_from E S (sim_network s)" using assms(2) by (simp add: sim_from_def)
  have "sim_link_tasks s ! l \<in> set (sim_link_tasks s)" using l assms(3) by (simp add: tasks_ok_def)
  with assms(2) net_from_link [OF net l]
  show "sim_from E S s \<and> origin (op_data p) \<in> S" if "p \<in> set (link_packets s l)" for p
    using that by (auto simp: link_packets_def sim_from_def link_from_def)
  show "sim_from E S s'" if "sim_from E S s \<and> origin (op_data p) \<in> S" "ready_to_send l p s = Inr s'" for p s s'
    using that sim_from_ready by blast
  show "sim_from E S (put_phase l ph s)"
    if "sim_from E S s \<and> origin (op_data p) \<in> S"
      "\<forall>q \<in> set (phase_packets ph). op_handled q = op_handled p \<and> op_src_node q = op_src_node p \<and> op_data q = op_data p"
    for p s ph
    using that by (intro sim_from_put_phase) auto
  have same: "sim_from E S (set_link l k s)"
    if "sim_from E S s" "nl_in_transit k = nl_in_transit (sim_link s l)"
      "set (nl_outgoing_queue k) \<subseteq> set (nl_outgoing_queue (sim_link s l))" for k s
  proof (rule sim_from_set_link [OF that(1)])
    assume "l < length (nw_links (sim_network s))"
    from net_from_link [OF _ this, of E S] that show "link_from S k"
      by (auto simp: sim_from_def link_from_def)
  qed
  show "sim_from E S (set_link l ((sim_link s l)\<lparr>nl_semaphore := k\<rparr>) s) \<and> origin (op_data p) \<in> S"
    if "sim_from E S s \<and> origin (op_data p) \<in> S" for p s k
    using that by (intro conjI same) auto
  show "sim_from E S (set_link l ((sim_link s l)\<lparr>nl_outgoing_queue := rest\<rparr>) s) \<and> origin (op_data p) \<in> S"
    if "nl_outgoing_queue (sim_link s l) = p # rest" "sim_from E S s \<and> origin (op_data p) \<in> S" for p rest
    using that by (intro conjI same) auto
qed (use assms(1,2) in auto)

lemma sim_from_network:
  "sim_from E S s \<Longrightarrow> net_from E S nw \<Longrightarrow> sim_link_tasks s' = sim_link_tasks s \<Longrightarrow> sim_network s' = nw \<Longrightarrow> sim_from E S s'"
  by (simp add: sim_from_def)

lemma sim_from_node_buffer:
  assumes "process_buffer_for_node ops i s = Inr s'" and "sim_from E S s"
    and i: "i < length (nw_nodes (sim_network s))"
  shows "sim_from E S s'"
proof -
  have net: "net_from E S (sim_network s)" using assms(2) by (simp add: sim_from_def)
  note node = net_from_node [OF net i]
  have put: "net_from E S (put_node i ((sim_node s i)\<lparr>nd_outbound := xs, nd_receiver := r\<rparr>) (sim_network s))"
    if "set xs \<subseteq> set (nd_outbound (sim_node s i))" for xs r
    using node that by (intro net_from_put_node [OF net]) (auto simp: node_from_def quic_addr_def)
  show ?thesis
    using assms(1)
  proof (cases rule: process_buffer_cases)
    case no_route
    then show ?thesis using sim_from_network [OF assms(2) put [of "[]" False]] by simp
  next
    case (offered p rest ls)
    have "net_from E S (put_node i ((sim_node s i)\<lparr>nd_outbound := rest\<rparr>) (sim_network s))"
      using put [of rest "nd_receiver (sim_node s i)"] offered(1) by auto
    moreover have "origin (bp_data p) \<in> S" using node offered(1) by (simp add: node_from_def)
    ultimately have "net_from E S (fold (offer_packet ops i p ls (length (sim_handled s))) ls
        (put_node i ((sim_node s i)\<lparr>nd_outbound := rest\<rparr>) (sim_network s)))"
      by (rule net_from_offers)
    from sim_from_network [OF assms(2) this] show ?thesis by (simp add: offered(2))
  qed (use assms(2) in simp)
qed

lemma sim_from_forwarder:
  assumes "forward_packets_from_link_to_node ops l s = Inr s'" and "sim_from E S s"
    and l: "l < length (nw_links (sim_network s))"
  shows "sim_from E S s'"
proof -
  have net: "net_from E S (sim_network s)" using assms(2) by (simp add: sim_from_def)
  note link = net_from_link [OF net l]
  obtain r f q where p: "poll (sim_now s) l (sim_forwarders s ! l) (nl_in_transit (sim_link s l)) = (r, f, q)"
    by (cases "poll (sim_now s) l (sim_forwarders s ! l) (nl_in_transit (sim_link s l))")
  have "queue_from S (nl_in_transit (sim_link s l))" using link by (simp add: link_from_def)
  note polled = queue_from_poll [OF p this]
  let ?nw = "put_link l ((sim_link s l)\<lparr>nl_in_transit := q\<rparr>) (sim_network s)"
  have nw: "net_from E S ?nw"
    using link polled(1) by (intro net_from_put_link [OF net]) (simp add: link_from_def)
  show ?thesis
  proof (cases r)
    case Pending
    with assms(1) p have "s' = s\<lparr>sim_network := ?nw, sim_forwarders := (sim_forwarders s)[l := f]\<rparr>"
      by (simp add: forward_packets_from_link_to_node_def Let_def set_link_def)
    then show ?thesis by (intro sim_from_network [OF assms(2) nw]) simp_all
  next
    case (Ready ds)
    with assms(1) p obtain nw where "fold_ok (forward_delivered ops (sim_now s) l) ?nw ds = Inr nw"
      and s': "s' = s\<lparr>sim_network := nw,
                sim_forwarders := (sim_forwarders s)[l := next_delivered_packets u64_max]\<rparr>"
      by (auto simp: forward_packets_from_link_to_node_def Let_def set_link_def map_sum_id_Inr)
    from net_from_forward_all [OF this(1) nw] polled(2) [OF Ready] have "net_from E S nw" by blast
    from sim_from_network [OF assms(2) this] show ?thesis by (simp add: s')
  qed
qed

lemma sim_from_events: "sim_from E S s \<Longrightarrow> sim_from E S (run_events s)"
  by (auto simp: run_events_def sim_from_def net_from_process_event split: list.splits)

lemma sim_from_send_from:
  assumes "send_from ops i t s = Inr s'" and "sim_from E S s"
    and "\<And>a. quic_addr (sim_node s i) = Some a \<Longrightarrow> (a, tx_destination t, tx_contents t) \<in> S"
  shows "sim_from E S s'"
proof -
  obtain d nw nw' where d: "in_transit_data ops i t (sim_network s) = Inr (d, nw)"
    and nw': "forward ops (sim_now s) i d nw = Inr nw'" and s': "s' = s\<lparr>sim_network := nw'\<rparr>"
    using assms(1) by (auto simp: send_from_def bind_ok_Inr_iff map_sum_id_Inr)
  obtain u nw1 where u: "new_packet_id ops (sim_network s) = (u, nw1)" by fastforce
  have "nw_nodes nw1 = nw_nodes (sim_network s)" using u by (auto simp: new_packet_id_def split: prod.splits)
  then have "origin d \<in> S" "net_from E S nw"
    using d u assms(2,3) net_from_new_id [OF u]
    by (auto simp: in_transit_data_def Let_def origin_def quic_addr_def sim_from_def split: option.splits)
  from net_from_forward [OF nw' this(2,1)] assms(2) show ?thesis by (simp add: s' sim_from_def)
qed

lemma sim_from_read:
  assumes "read_at i w m s = Inr (ds, s')" and "sim_from E S s" and i: "i < length (nw_nodes (sim_network s))"
  shows "sim_from E S s'"
    and "d \<in> set ds \<Longrightarrow> origin (dt_data d) \<in> S \<and>
      quic_addr (sim_node s i) = Some (tx_destination (pkt_transmit (dt_data d)))"
proof -
  have net: "net_from E S (sim_network s)" using assms(2) by (simp add: sim_from_def)
  obtain e where e: "nd_udp_endpoint (sim_node s i) = Some e"
    using assms(1) by (auto simp: read_at_def Let_def split: option.splits)
  define f where "f = (case sim_sockets s ! i of Some f \<Rightarrow> f | None \<Rightarrow> next_packet_delivery_new m)"
  obtain r f' q where p: "poll (sim_now s) w f (ue_inbound e) = (r, f', q)"
    by (cases "poll (sim_now s) w f (ue_inbound e)")
  let ?S = "{x \<in> S. fst (snd x) = ue_addr e}"
  have waiting: "queue_from ?S (ue_inbound e)"
    using net_from_node [OF net i] e by (simp add: node_from_def endpoint_from_def)
  note polled = queue_from_poll [OF p waiting]
  let ?nw = "put_node i ((sim_node s i)\<lparr>nd_udp_endpoint := Some (e\<lparr>ue_inbound := q\<rparr>)\<rparr>) (sim_network s)"
  have nw: "net_from E S ?nw"
    using net_from_node [OF net i] polled(1) e
    by (intro net_from_put_node [OF net]) (simp_all add: node_from_def endpoint_from_def quic_addr_def)
  show "sim_from E S s'"
    using assms(1) e p nw assms(2)
    by (auto simp: read_at_def Let_def f_def [symmetric] sim_from_def split: poll_result.splits)
  assume d: "d \<in> set ds"
  with assms(1) e p obtain all where "r = Ready all" "d \<in> set all"
    by (auto simp: read_at_def Let_def f_def [symmetric] dest: in_set_takeD split: poll_result.splits)
  from polled(2) [OF this] e show "origin (dt_data d) \<in> S \<and>
      quic_addr (sim_node s i) = Some (tx_destination (pkt_transmit (dt_data d)))"
    by (auto simp: origin_def quic_addr_def)
qed

section \<open>Runs\<close>

definition origins :: "socket_addr option list \<Rightarrow> label list \<Rightarrow> origin set" where
  "origins E labs =
     {(a, tx_destination t, tx_contents t) | i t a. Transmit i t \<in> set labs \<and> i < length E \<and> E ! i = Some a}"

lemma sim_from_mono: "sim_from E S s \<Longrightarrow> S \<subseteq> S' \<Longrightarrow> sim_from E S' s"
  unfolding sim_from_def net_from_def node_from_def link_from_def endpoint_from_def queue_from_def by blast

lemma sim_from_step:
  assumes "sim_step ops lab s = Inr s'" and "sim_from E S s" and "tasks_ok s"
    and "origins E [lab] \<subseteq> S"
  shows "sim_from E S s'"
proof (cases lab)
  case (Transmit i t)
  have "(a, tx_destination t, tx_contents t) \<in> S" if "i < length E" "quic_addr (sim_node s i) = Some a" for a
    using that assms(2,4) Transmit by (auto simp: sim_from_def net_from_def origins_def)
  moreover have "length E = length (nw_nodes (sim_network s))" using assms(2) by (auto simp: sim_from_def net_from_def)
  ultimately show ?thesis
    using assms(1,2) Transmit sim_from_send_from by (fastforce simp: sim_step_def split: if_splits)
next
  case (Receive i w m)
  then show ?thesis
    using assms(1,2) sim_from_read(1) by (fastforce simp: sim_step_def map_sum_id_Inr split: if_splits)
next
  case (Tick d)
  with assms(1,2) show ?thesis by (auto simp: sim_step_def sim_from_def)
qed (use assms(1-3) in \<open>auto simp: sim_step_def split: if_splits
      intro: sim_from_node_buffer sim_from_link_queue sim_from_forwarder sim_from_events\<close>)

lemma sim_from_started:
  assumes "started spec s"
  shows "sim_from (map (\<lambda>n. quic_addr (initial_node n)) (initial_nodes spec)) {} s"
  using assms
proof (rule started_network)
  fix nw t0
  assume a: "nw_nodes nw = map initial_node (initial_nodes spec)" "nw_links nw = map link_new (spec_links spec)"
    "sim_link_tasks s = replicate (length (nw_links (sim_network s))) Idle"
    "\<exists>es1 es2. sim_network s =
       fold (process_node_event (sim_now s)) es2 (fold (process_link_event (sim_now s)) es1 nw)"
  let ?E = "map (\<lambda>n. quic_addr (initial_node n)) (initial_nodes spec)"
  have "net_from ?E {} nw"
    using a(1,2)
    by (auto simp: net_from_def node_from_def link_from_def queue_from_def endpoint_from_def initial_node_def
        node_of_spec_def link_new_def inbound_queue_new_def)
  then have "net_from ?E {} (fold (process_node_event now) es2 (fold (process_link_event now) es1 nw))" for now es1 es2
    by (intro fold_invariant [where P = "net_from ?E {}" and Q = "\<lambda>_. True"] TrueI)
      (use net_from_process_event [of ?E "{}" _ now "NodeEvent _"] net_from_process_event [of ?E "{}" _ now "LinkEvent _"]
        in \<open>auto simp: process_event_def\<close>)
  with a(4) have "net_from ?E {} (sim_network s)" by auto
  then show ?thesis using a(3) by (simp add: sim_from_def)
qed

lemma sim_from_run:
  assumes "sim.reach spec ops s" and "run ops labs s = Inr s'" and "sim_from E S s"
  shows "sim_from E (S \<union> origins E labs) s'"
proof -
  let ?S = "S \<union> origins E labs"
  have "sim.reach spec ops s' \<and> sim_from E ?S s'"
    using assms(2) unfolding run_def
  proof (rule fold_ok_invariant)
    show "sim.reach spec ops s \<and> sim_from E ?S s" using assms(1,3) sim_from_mono by blast
    fix u lab u' assume lab: "lab \<in> set labs" and u: "sim.reach spec ops u \<and> sim_from E ?S u"
      and step: "sim_step ops lab u = Inr u'"
    have "origins E [lab] \<subseteq> ?S" using lab by (auto simp: origins_def)
    with u step show "sim.reach spec ops u' \<and> sim_from E ?S u'"
      using sim_from_step [OF step _ tasks_ok_reach] sim.reach_step by (fastforce simp: net_step_def)
  qed
  then show ?thesis by blast
qed

section \<open>Properties\<close>

text \<open>
  C3. A host reads only what was sent to it: whenever the application reads packets at a host, each
  of them was handed to a socket earlier, at the host whose address is its source, with the
  contents it still has and with the address of the reading host as its destination.
\<close>

theorem packets_have_origin:
  assumes "started spec s0" and "run ops labs s0 = Inr s" and "i < length (nw_nodes (sim_network s))"
    and "read_at i w m s = Inr (ds, s')" and "d \<in> set ds"
  shows "\<exists>j t. Transmit j t \<in> set labs \<and>
    quic_addr (sim_node s0 j) = Some (pkt_source_endpoint (dt_data d)) \<and>
    quic_addr (sim_node s0 i) = Some (tx_destination t) \<and>
    tx_destination (pkt_transmit (dt_data d)) = tx_destination t \<and>
    tx_contents (pkt_transmit (dt_data d)) = tx_contents t"
proof -
  let ?E = "map (\<lambda>n. quic_addr (initial_node n)) (initial_nodes spec)"
  have "sim_from ?E ({} \<union> origins ?E labs) s"
    by (rule sim_from_run [OF sim.reach_initial [OF assms(1)] assms(2) sim_from_started [OF assms(1)]])
  then have s: "sim_from ?E (origins ?E labs) s" by simp
  from sim_from_read(2) [OF assms(4) s assms(3,5)]
  have d: "origin (dt_data d) \<in> origins ?E labs"
    and to: "quic_addr (sim_node s i) = Some (tx_destination (pkt_transmit (dt_data d)))" by simp_all
  from d obtain j t where "Transmit j t \<in> set labs" "j < length ?E"
    "?E ! j = Some (pkt_source_endpoint (dt_data d))"
    "tx_destination (pkt_transmit (dt_data d)) = tx_destination t"
    "tx_contents (pkt_transmit (dt_data d)) = tx_contents t"
    by (auto simp: origins_def origin_def)
  moreover have E: "map quic_addr (nw_nodes (sim_network s)) = ?E" "map quic_addr (nw_nodes (sim_network s0)) = ?E"
    using s sim_from_started [OF assms(1)] by (simp_all add: sim_from_def net_from_def)
  moreover from this have "quic_addr (sim_node s i) = quic_addr (sim_node s0 i)"
    using assms(3) by (metis length_map nth_map)
  ultimately show ?thesis using to by (metis length_map nth_map)
qed

theorem packets_have_origin_witness:
  "\<exists>s0 s ds s'. pair_network [] = Inr s0 \<and> run counter_rng one_packet s0 = Inr s \<and>
     read_at 1 0 10 s = Inr (ds, s') \<and> length ds = 1 \<and>
     (\<forall>d \<in> set ds. quic_addr (sim_node s0 1) = Some (tx_destination (pkt_transmit (dt_data d))) \<and>
        tx_contents (pkt_transmit (dt_data d)) = [42])"
proof -
  have "case pair_network [] of Inl _ \<Rightarrow> False | Inr s0 \<Rightarrow>
      (case run counter_rng one_packet s0 of Inl _ \<Rightarrow> False | Inr s \<Rightarrow>
        (case read_at 1 0 10 s of Inl _ \<Rightarrow> False | Inr (ds, _) \<Rightarrow> length ds = 1))" by code_simp
  then obtain s0 s ds s' where r: "pair_network [] = Inr s0" "run counter_rng one_packet s0 = Inr s"
    "read_at 1 0 10 s = Inr (ds, s')" "length ds = 1"
    by (auto split: sum.splits prod.splits)
  have "fresh_tracer 0 pair_spec (tracer_new 0 pair_spec)" by (simp add: fresh_tracer_def)
  with r(1) have started: "started pair_spec s0" unfolding pair_network_def started_def by blast
  have "pair_run [] one_packet = Some s" using r(1,2) by (simp add: pair_run_def)
  then have "1 < length (nw_nodes (sim_network s))" by (simp add: pair_nodes)
  from packets_have_origin [OF started r(2) this r(3)]
  have "\<forall>d \<in> set ds. quic_addr (sim_node s0 1) = Some (tx_destination (pkt_transmit (dt_data d))) \<and>
      tx_contents (pkt_transmit (dt_data d)) = [42]"
    by (fastforce simp: one_packet_def datagram_def)
  with r show ?thesis by blast
qed

end
