(* ===== verification/Throughput_Run.thy ===== *)
theory Throughput_Run
  imports Provenance Workbench_Report
begin

text \<open>
  The throughput simulation as a whole, \<^verbatim>\<open>run\<close> of \<^verbatim>\<open>quinn-workbench/src/udp/throughput.rs\<close>: the
  task that receives, the one that sends and the main task, which share two sockets of the network
  and the \<^verbatim>\<open>CancellationToken\<close> of \<^verbatim>\<open>util.rs\<close>. A step runs one task up to its next await point, or
  one step of the network; time stops at every timer that is due. The lemmas show that the receiver
  only meets packets of the sender, and what is reported.
\<close>

section \<open>The cancellation token\<close>

text \<open>
  An event is the number of times it was notified; a listener is notified once that number has grown
  since it was made. \<^verbatim>\<open>cancelled\<close> is a future: without a listener (None) it was never polled.
\<close>

record cancellation_token =
  ct_cancelled :: bool
  ct_event :: nat

definition token_new :: cancellation_token where
  "token_new = \<lparr>ct_cancelled = False, ct_event = 0\<rparr>"

definition cancel :: "cancellation_token \<Rightarrow> cancellation_token" where
  "cancel t = t\<lparr>ct_cancelled := True, ct_event := Suc (ct_event t)\<rparr>"

definition is_cancelled :: "cancellation_token \<Rightarrow> bool" where
  "is_cancelled t = ct_cancelled t"

definition poll_cancelled :: "nat option \<Rightarrow> cancellation_token \<Rightarrow> bool \<times> nat option" where
  "poll_cancelled listener t =
     (case listener of
        None \<Rightarrow> if ct_cancelled t then (True, None) else (False, Some (ct_event t))
      | Some e \<Rightarrow> (e < ct_event t, Some e))"

section \<open>State\<close>

text \<open>What the tasks capture, and what they change.\<close>

record throughput_ctx =
  tc_server :: nat
  tc_client :: nat
  tc_server_ip :: ip_addr
  tc_client_ip :: ip_addr
  tc_simulation_start :: instant
  tc_send_bytes_per_interval :: nat

datatype receiver_task = Receiving "nat option" | Received

datatype main_task = Measuring instant | NotStored | Joining | Measured "(duration \<times> nat) list"

record 'r throughput_run =
  tr_sim :: "'r simulation"
  tr_server_pcap :: pcap_exporter
  tr_client_pcap :: pcap_exporter
  tr_token :: cancellation_token
  tr_receiver :: receiver_task
  tr_bufs :: bufs_and_meta
  tr_arrived :: "(duration \<times> nat) list"
  tr_next_send :: "instant option"
  tr_main :: main_task

abbreviation tr_now :: "'r throughput_run \<Rightarrow> instant" where
  "tr_now r \<equiv> sim_now (tr_sim r)"

text \<open>From the beginning of \<^verbatim>\<open>run\<close> to its sleep; \<open>meta\<close> is \<^verbatim>\<open>RecvMeta::default()\<close> of \<^verbatim>\<open>quinn\<close>.\<close>

definition throughput_begin ::
  "throughput_opt \<Rightarrow> network_config \<Rightarrow> recv_meta \<Rightarrow> 'r \<Rightarrow> instant \<Rightarrow>
   panic + (init_error + report_line list \<times> throughput_ctx \<times> 'r throughput_run)" where
  "throughput_begin opt config meta rng now =
     (case start_network config rng now False of
        Inl e \<Rightarrow> Inr (Inl e)
      | Inr (spec, s) \<Rightarrow>
          bind_ok (initial_status_lines spec (sim_network s)) (\<lambda>lines.
          let server_ip = server_ip_address (to_network opt); client_ip = client_ip_address (to_network opt)
          in bind_ok (host (sim_network s) server_ip) (\<lambda>server.
             bind_ok (host (sim_network s) client_ip) (\<lambda>client.
             case send_bps_of opt spec of
               None \<Rightarrow> Inl UnwrappedNone
             | Some send_bps \<Rightarrow>
                 Inr (Inr (lines,
                   \<lparr>tc_server = server, tc_client = client, tc_server_ip = server_ip,
                    tc_client_ip = client_ip, tc_simulation_start = now,
                    tc_send_bytes_per_interval = send_bytes_per_interval send_bps\<rparr>,
                   \<lparr>tr_sim = s, tr_server_pcap = exporter_new now False,
                    tr_client_pcap = exporter_new now False, tr_token = token_new,
                    tr_receiver = Receiving None, tr_bufs = bufs_and_meta_new meta 1200 20,
                    tr_arrived = [], tr_next_send = Some now,
                    tr_main = Measuring (now + millis (to_duration_ms opt))\<rparr>))))))"

section \<open>Tasks\<close>

text \<open>
  One turn of the receiver's loop: the select polls the token first and the socket only while it is
  not cancelled. The next turn makes a new \<^verbatim>\<open>cancelled\<close>.
\<close>

definition receiver_step ::
  "packet_codec \<Rightarrow> throughput_ctx \<Rightarrow> 'r throughput_run \<Rightarrow> panic + 'r throughput_run" where
  "receiver_step lib ctx r =
     (case tr_receiver r of
        Received \<Rightarrow> Inr r
      | Receiving cancelled \<Rightarrow>
          (case poll_cancelled cancelled (tr_token r) of
             (True, _) \<Rightarrow> Inr (r\<lparr>tr_receiver := Received\<rparr>)
           | (False, listener) \<Rightarrow>
               bind_ok (poll_recv lib [] (tc_server ctx) 0 (tr_bufs r) (tr_sim r, tr_server_pcap r))
                 (\<lambda>(n, bufs, s, e).
                   let r1 = r\<lparr>tr_sim := s, tr_server_pcap := e, tr_bufs := bufs\<rparr>
                   in case n of
                        None \<Rightarrow> Inr (r1\<lparr>tr_receiver := Receiving listener\<rparr>)
                      | Some k \<Rightarrow>
                          bind_ok (receive k bufs) (\<lambda>packets.
                            case record_arrivals (tc_client_ip ctx) (tr_now r1 - tc_simulation_start ctx)
                                   packets (tr_arrived r1) of
                              None \<Rightarrow> Inl UnexpectedSource
                            | Some arrived \<Rightarrow>
                                Inr (r1\<lparr>tr_arrived := arrived, tr_receiver := Receiving None\<rparr>)))))"

text \<open>A turn of the sender's loop, when its sleep is over.\<close>

definition sender_step ::
  "packet_codec \<Rightarrow> 'r rng_ops \<Rightarrow> throughput_ctx \<Rightarrow> 'r throughput_run \<Rightarrow> panic + 'r throughput_run" where
  "sender_step lib ops ctx r =
     (case tr_next_send r of
        None \<Rightarrow> Inr r
      | Some t \<Rightarrow>
          if tr_now r < t then Inr r
          else if is_cancelled (tr_token r) then Inr (r\<lparr>tr_next_send := None\<rparr>)
          else bind_ok (send_interval lib ops (tc_client ctx) (tc_server_ip ctx)
                   (tc_send_bytes_per_interval ctx) (tr_sim r, tr_client_pcap r))
                 (\<lambda>(s, e). Inr (r\<lparr>tr_sim := s, tr_client_pcap := e,
                                  tr_next_send := Some (tr_now r + millis send_interval_ms)\<rparr>)))"

text \<open>The main task stores the replay log, which may fail, cancels the others and joins the receiver.\<close>

definition main_step :: "bool \<Rightarrow> 'r throughput_run \<Rightarrow> 'r throughput_run" where
  "main_step stored r =
     (case tr_main r of
        Measuring t \<Rightarrow>
          if tr_now r < t then r
          else if \<not> stored then r\<lparr>tr_main := NotStored\<rparr>
          else r\<lparr>tr_token := cancel (tr_token r), tr_main := Joining\<rparr>
      | Joining \<Rightarrow> if tr_receiver r = Received then r\<lparr>tr_main := Measured (tr_arrived r)\<rparr> else r
      | _ \<Rightarrow> r)"

text \<open>The steps of the network are its own tasks and the clock; the sockets belong to the tasks above.\<close>

definition background :: "label \<Rightarrow> bool" where
  "background lab \<longleftrightarrow> (case lab of Transmit i t \<Rightarrow> False | Receive i w m \<Rightarrow> False | _ \<Rightarrow> True)"

definition timers :: "'r throughput_run \<Rightarrow> instant set" where
  "timers r =
     (case tr_next_send r of None \<Rightarrow> {} | Some t \<Rightarrow> {t}) \<union>
     (case tr_main r of Measuring t \<Rightarrow> {t} | _ \<Rightarrow> {})"

definition may_run :: "label \<Rightarrow> 'r throughput_run \<Rightarrow> bool" where
  "may_run lab r \<longleftrightarrow>
     background lab \<and> (case lab of Tick d \<Rightarrow> \<forall>t \<in> timers r. tr_now r + d \<le> t | _ \<Rightarrow> True)"

datatype throughput_label = RunNetwork label | RunReceiver | RunSender | RunMain bool

definition throughput_step ::
  "packet_codec \<Rightarrow> 'r rng_ops \<Rightarrow> throughput_ctx \<Rightarrow> throughput_label \<Rightarrow> 'r throughput_run \<Rightarrow>
   panic + 'r throughput_run" where
  "throughput_step lib ops ctx lab r =
     (case lab of
        RunNetwork l \<Rightarrow>
          if may_run l r then map_sum id (\<lambda>s. r\<lparr>tr_sim := s\<rparr>) (sim_step ops l (tr_sim r)) else Inr r
      | RunReceiver \<Rightarrow> receiver_step lib ctx r
      | RunSender \<Rightarrow> sender_step lib ops ctx r
      | RunMain stored \<Rightarrow> Inr (main_step stored r))"

definition throughput_steps ::
  "packet_codec \<Rightarrow> 'r rng_ops \<Rightarrow> throughput_ctx \<Rightarrow> throughput_label list \<Rightarrow> 'r throughput_run \<Rightarrow>
   panic + 'r throughput_run" where
  "throughput_steps lib ops ctx labs r = fold_ok (\<lambda>r lab. throughput_step lib ops ctx lab r) r labs"

definition throughput_started ::
  "recv_meta \<Rightarrow> network_spec \<Rightarrow> throughput_ctx \<Rightarrow> 'r throughput_run \<Rightarrow> bool" where
  "throughput_started meta spec ctx r \<longleftrightarrow>
     (\<exists>opt config rng now lines. spec = spec_of_json (nc_network_graph config) \<and>
        throughput_begin opt config meta rng now = Inr (Inr (lines, ctx, r)))"

interpretation throughput: transition_system "throughput_started meta spec ctx"
  "\<lambda>r lab r'. throughput_step lib ops ctx lab r = Inr r'" for meta spec ctx lib ops .

section \<open>The addresses of hosts\<close>

text \<open>The table of addresses has every host under the address of its endpoint.\<close>

definition addresses_ok :: "node list \<times> (ip_addr \<rightharpoonup> nat) \<times> (id \<rightharpoonup> nat) \<Rightarrow> bool" where
  "addresses_ok tab =
     (case tab of (nodes, by_addr, _) \<Rightarrow> in_bounds by_addr (length nodes) \<and>
        (\<forall>ip i a. by_addr ip = Some i \<longrightarrow> quic_addr (nodes ! i) = Some a \<longrightarrow> sa_ip a = ip))"

lemma in_bounds_less: "in_bounds m n \<Longrightarrow> m k = Some i \<Longrightarrow> i < n"
  by (auto simp: in_bounds_def)

lemma addresses_host:
  assumes "add_host tab h = Inr tab'" and "addresses_ok tab"
  shows "addresses_ok tab'"
proof -
  obtain nodes m ids where tab: "tab = (nodes, m, ids)" by (cases tab)
  from assms(1) obtain n e where node: "node_host h = Inr (n, e)"
    and tab': "tab' = (nodes @ [n], m(sa_ip (ue_addr e) \<mapsto> length nodes), ids(nd_id n \<mapsto> length nodes))"
    by (auto simp: tab add_host_def bind_ok_Inr_iff Let_def split: if_splits)
  have "quic_addr n = Some (ue_addr e)"
    using node by (auto simp: node_host_def node_of_spec_def quic_addr_def Let_def split: list.splits if_splits)
  moreover have "in_bounds m (length nodes)"
    "\<And>ip i a. m ip = Some i \<Longrightarrow> quic_addr (nodes ! i) = Some a \<Longrightarrow> sa_ip a = ip"
    using assms(2) by (auto simp: tab addresses_ok_def)
  ultimately show ?thesis
    unfolding tab' addresses_ok_def in_bounds_def
    by (auto simp: nth_append less_Suc_eq split: if_splits)
qed

lemma addresses_router:
  assumes "add_router tab r = Inr tab'" and "addresses_ok tab"
  shows "addresses_ok tab'"
proof -
  obtain nodes m ids where tab: "tab = (nodes, m, ids)" by (cases tab)
  from assms(1) obtain router m' where router: "node_router r = Inr router"
    and m': "fold_ok (add_router_address nodes router (length nodes)) m (nd_addresses router) = Inr m'"
    and tab': "tab' = (nodes @ [router], m', ids(nd_id router \<mapsto> length nodes))"
    by (auto simp: tab add_router_def bind_ok_Inr_iff Let_def)
  have ok: "in_bounds m (length nodes)" "\<And>ip i a. m ip = Some i \<Longrightarrow> quic_addr (nodes ! i) = Some a \<Longrightarrow> sa_ip a = ip"
    using assms(2) by (auto simp: tab addresses_ok_def)
  let ?P = "\<lambda>m'. \<forall>ip i. m' ip = Some i \<longrightarrow> i = length nodes \<or> m ip = Some i"
  have "?P m'"
    using m'
  proof (rule fold_ok_invariant [where P = ?P])
    show "?P m2" if "?P m1" "add_router_address nodes router (length nodes) m1 x = Inr m2" for m1 x m2
      using that(2) that(1) by (auto simp: add_router_address_def split: option.splits if_splits) blast
  qed simp
  moreover have "quic_addr router = None"
    using router by (auto simp: node_router_def node_of_spec_def quic_addr_def Let_def split: if_splits)
  ultimately show ?thesis
    using ok unfolding tab' addresses_ok_def in_bounds_def
    by (fastforce simp: nth_append)
qed

lemma addresses_build:
  assumes "build_network spec t rng = Inr nw"
  shows "addresses_ok (nw_nodes nw, nw_nodes_by_addr nw, nw_nodes_by_id nw)"
proof -
  obtain hs ns where hs: "fold_ok add_host ([], Map.empty, Map.empty)
      (filter (\<lambda>n. ns_kind n = Host) (spec_nodes spec)) = Inr hs"
    and ns: "fold_ok add_router hs (filter (\<lambda>n. ns_kind n \<noteq> Host) (spec_nodes spec)) = Inr ns"
    and nw: "ns = (nw_nodes nw, nw_nodes_by_addr nw, nw_nodes_by_id nw)"
    using assms by (auto simp: build_network_def Let_def bind_ok_Inr_iff split: if_splits prod.splits)
  have "addresses_ok ([], Map.empty, Map.empty)" by (simp add: addresses_ok_def)
  with hs have "addresses_ok hs" by (rule fold_ok_invariant) (auto intro: addresses_host)
  with ns have "addresses_ok ns" by (rule fold_ok_invariant) (auto intro: addresses_router)
  then show ?thesis by (simp add: nw)
qed

text \<open>So the node found under the address of a host has this address, as long as the network runs.\<close>

lemma host_address:
  assumes "started spec s" and "host (sim_network s) ip = Inr i"
  shows "i < length (nw_nodes (sim_network s)) \<and> (\<exists>a. quic_addr (sim_node s i) = Some a \<and> sa_ip a = ip)"
  using assms(1)
proof (rule started_network)
  fix nw t0
  assume a: "evolves (sim_now s) nw (sim_network s)" "tables_ok nw" "nw_nodes nw = map initial_node (initial_nodes spec)"
    "build_network spec (nw_tracer nw) (nw_rng nw) = Inr nw"
  have addr: "map quic_addr (nw_nodes (sim_network s)) = map quic_addr (nw_nodes nw)"
    using sim_from_started [OF assms(1)] by (simp add: a(3) sim_from_def net_from_def o_def)
  have same: "nw_nodes_by_addr (sim_network s) = nw_nodes_by_addr nw"
    using a(1) by (simp add: evolves_def same_tables_def)
  from assms(2) have i: "nw_nodes_by_addr nw ip = Some i" "quic_addr (sim_node s i) \<noteq> None"
    by (auto simp: host_def same quic_addr_def split: option.splits if_splits)
  with a(2) have len: "i < length (nw_nodes nw)" by (auto simp: tables_ok_def intro: in_bounds_less)
  moreover have "length (nw_nodes (sim_network s)) = length (nw_nodes nw)" using addr by (metis length_map)
  moreover from calculation have "quic_addr (sim_node s i) = quic_addr (nw_nodes nw ! i)" by (metis addr nth_map)
  ultimately show ?thesis
    using i addresses_build [OF a(4)] by (auto simp: addresses_ok_def)
qed

section \<open>The sockets\<close>

lemma keeps_sockets:
  assumes "sim_step ops lab s = Inr s'" and "background lab"
  shows "sim_sockets s' = sim_sockets s"
proof (cases lab)
  case (RunLink l)
  have "sim_sockets s' = sim_sockets s" if "process_link_queue l s = Inr s'"
  proof (rule link_task_rule [where H = "\<lambda>_ t. sim_sockets t = sim_sockets s"
        and G = "\<lambda>t. sim_sockets t = sim_sockets s" and s = s and l = l])
    show "sim_sockets u' = sim_sockets s" if "sim_sockets u = sim_sockets s" "ready_to_send l p u = Inr u'" for p u u'
      using that(2,1) by (cases rule: ready_to_send_cases) (simp_all add: put_phase_def)
  qed (use that in \<open>simp_all add: put_phase_def set_link_def\<close>)
  with assms(1) RunLink show ?thesis by (auto simp: sim_step_def split: if_splits)
next
  case (RunNode i)
  with assms(1) show ?thesis
    by (auto simp: sim_step_def split: if_splits elim!: process_buffer_cases)
next
  case (RunForwarder l)
  with assms(1) show ?thesis
    by (auto simp: sim_step_def forward_packets_from_link_to_node_def Let_def set_link_def map_sum_id_Inr
        split: if_splits prod.splits poll_result.splits)
qed (use assms in \<open>auto simp: sim_step_def run_events_def background_def split: list.splits if_splits\<close>)

lemma try_send_step:
  assumes "try_send lib ops lines i t (s, e) = Inr (s', e')" and "i < length (nw_nodes (sim_network s))"
  shows "sim_step ops (Transmit i t) s = Inr s'" and "sim_sockets s' = sim_sockets s" and "sim_now s' = sim_now s"
    and "pe_has_keylog e = False \<Longrightarrow> pe_has_keylog e' = False"
proof -
  from assms(1) obtain a where track: "track_transmit lib lines (sim_now s) a t e = Inr e'"
    and send: "send_from ops i t s = Inr s'"
    by (auto simp: try_send_def bind_ok_Inr_iff map_sum_id_Inr split: if_splits option.splits)
  show "sim_step ops (Transmit i t) s = Inr s'" using send assms(2) by (simp add: sim_step_def)
  show "sim_sockets s' = sim_sockets s" "sim_now s' = sim_now s"
    using send by (auto simp: send_from_def bind_ok_Inr_iff map_sum_id_Inr)
  show "pe_has_keylog e' = False" if "pe_has_keylog e = False"
    using track that by (auto simp: track_transmit_def write_pcapng_transmit_def bind_ok_Inr_iff)
qed

text \<open>An exporter without a key log only fails where a packet cannot be encoded.\<close>

lemma track_without_keylog:
  assumes "\<not> pe_has_keylog e"
  shows "case track_transmit lib lines now a t e of
      Inl x \<Rightarrow> ip_packet lib a t = Inl x | Inr e' \<Rightarrow> \<not> pe_has_keylog e'"
  using assms
  by (cases "ip_packet lib a t") (simp_all add: track_transmit_def write_pcapng_transmit_def)

lemma fill_buffers_outcome:
  assumes "\<not> pe_has_keylog e" and "\<forall>b \<in> set bs. length b = k" and "\<forall>d \<in> set ds. length (contents_of d) \<le> k"
  shows "case fill_buffers lib lines now h ds ms bs (t, e) of
      Inl x \<Rightarrow> \<exists>a t. ip_packet lib a t = Inl x
    | Inr ((ms', bs'), _, e') \<Rightarrow> length ms' = length ms \<and> length bs' = length bs \<and> (\<forall>b \<in> set bs'. length b = k) \<and>
        \<not> pe_has_keylog e'"
  using assms
proof (induction lib lines now h ds ms bs "(t, e)" arbitrary: t e rule: fill_buffers.induct)
  case (1 lib lines now h d ds m ms b bs t e)
  let ?t = "track_read_by_host now h (dt_data d) t"
  note track = track_without_keylog [OF "1.prems"(1), where lib = lib and lines = lines and now = now and a = "pkt_source_endpoint (dt_data d)"
      and t = "pkt_transmit (dt_data d)"]
  have fits: "length (contents_of d) \<le> length b" using "1.prems"(2,3) by simp
  show ?case
  proof (cases "track_transmit lib lines now (pkt_source_endpoint (dt_data d)) (pkt_transmit (dt_data d)) e")
    case (Inl x)
    with track fits show ?thesis by (auto simp: Let_def)
  next
    case (Inr e')
    with track have "\<not> pe_has_keylog e'" by simp
    then have "case fill_buffers lib lines now h ds ms bs (?t, e') of
        Inl x \<Rightarrow> \<exists>a t. ip_packet lib a t = Inl x
      | Inr ((ms', bs'), _, e') \<Rightarrow> length ms' = length ms \<and> length bs' = length bs \<and>
          (\<forall>b \<in> set bs'. length b = k) \<and> \<not> pe_has_keylog e'"
      using fits "1.prems" by (intro "1.hyps" [OF refl refl refl]) (auto simp: not_less)
    with Inr fits "1.prems"(2,3) show ?thesis
      by (cases "fill_buffers lib lines now h ds ms bs (?t, e')") (auto simp: Let_def split: prod.splits)
  qed
qed auto

lemma poll_recv_outcome:
  assumes origins: "sim_from E S s" and i: "i < length (nw_nodes (sim_network s))" and hosted: "quic_addr (sim_node s i) \<noteq> None"
    and bufs: "length (bm_meta bm) \<le> length (bm_bufs bm)" "\<forall>b \<in> set (bm_bufs bm). length b = k"
    and small: "\<forall>x \<in> S. length (snd (snd x)) \<le> k" and noop: "\<not> pe_has_keylog e"
  shows "case poll_recv lib lines i w bm (s, e) of
      Inl x \<Rightarrow> \<exists>a t. ip_packet lib a t = Inl x
    | Inr (n, bm', s', e') \<Rightarrow> length (bm_meta bm') = length (bm_meta bm) \<and>
        length (bm_bufs bm') = length (bm_bufs bm) \<and> (\<forall>b \<in> set (bm_bufs bm'). length b = k) \<and>
        \<not> pe_has_keylog e' \<and> sim_now s' = sim_now s"
proof -
  obtain endpoint where endpoint: "nd_udp_endpoint (sim_node s i) = Some endpoint"
    using hosted by (auto simp: quic_addr_def)
  define f where "f = (case sim_sockets s ! i of Some f \<Rightarrow> f | None \<Rightarrow> next_packet_delivery_new (length (bm_meta bm)))"
  obtain r f' q where p: "poll (sim_now s) w f (ue_inbound endpoint) = (r, f', q)"
    by (cases "poll (sim_now s) w f (ue_inbound endpoint)")
  show ?thesis
  proof (cases r)
    case Pending
    with p bufs noop endpoint show ?thesis
      by (simp add: poll_recv_def Let_def f_def [symmetric])
  next
    case (Ready ds)
    have "node_from S (sim_node s i)" using origins i net_from_node by (auto simp: sim_from_def)
    then have "queue_from {x \<in> S. fst (snd x) = ue_addr endpoint} (ue_inbound endpoint)"
      using endpoint by (simp add: node_from_def endpoint_from_def)
    from queue_from_poll(2) [OF p this Ready] small have "\<forall>d \<in> set ds. length (contents_of d) \<le> k"
      by (fastforce simp: origin_def)
    note filled = fill_buffers_outcome [OF noop bufs(2) this, where lib = lib and lines = lines and now = "sim_now s"
        and h = "nd_id (sim_node s i)" and ms = "bm_meta bm" and t = "nw_tracer (put_node i ((sim_node s i)\<lparr>nd_udp_endpoint := Some (endpoint\<lparr>ue_inbound := q\<rparr>)\<rparr>)
          (sim_network s))"]
    then show ?thesis
      using p bufs(1) endpoint Ready
      by (auto simp: poll_recv_def Let_def f_def [symmetric] split: sum.splits prod.splits)
  qed
qed

lemma read_at_limit:
  assumes "read_at i w m s = Inr (ds, s')" and "socket_limit s i m"
  shows "socket_limit s' i m" and "sim_now s' = sim_now s"
proof -
  define f where "f = (case sim_sockets s ! i of Some f \<Rightarrow> f | None \<Rightarrow> next_packet_delivery_new m)"
  have m: "np_max_transmits f = m"
    using assms(2) by (auto simp: f_def socket_limit_def next_packet_delivery_new_def split: option.splits)
  from assms(1) obtain e where e: "nd_udp_endpoint (sim_node s i) = Some e"
    by (auto simp: read_at_def Let_def split: option.splits)
  obtain r f' q where p: "poll (sim_now s) w f (ue_inbound e) = (r, f', q)"
    by (cases "poll (sim_now s) w f (ue_inbound e)")
  from assms(1) e p have "sim_sockets s' = (sim_sockets s)[i := Some f']" "sim_now s' = sim_now s"
    by (auto simp: read_at_def Let_def f_def [symmetric] split: poll_result.splits)
  with poll_limit(1) [OF p] m assms(2) show "socket_limit s' i m" "sim_now s' = sim_now s"
    by (auto simp: socket_limit_def)
qed

lemma sim_step_time:
  assumes "sim_step ops lab s = Inr s'" and "clock_ok s"
  shows "sim_now s \<le> sim_now s'"
proof (cases "\<exists>d. lab = Tick d")
  case False
  with sim_step_evolves [OF assms] show ?thesis by (simp add: sim_evolves_def)
qed (use assms(1) in \<open>auto simp: sim_step_def\<close>)

section \<open>The invariant of the run\<close>

definition addresses :: "network_spec \<Rightarrow> socket_addr option list" where
  "addresses spec = map (\<lambda>n. quic_addr (initial_node n)) (initial_nodes spec)"

definition ctx_ok :: "network_spec \<Rightarrow> throughput_ctx \<Rightarrow> socket_addr \<Rightarrow> bool" where
  "ctx_ok spec ctx a \<longleftrightarrow>
     tc_server ctx < length (addresses spec) \<and> addresses spec ! tc_server ctx \<noteq> None \<and>
     tc_client ctx < length (addresses spec) \<and> addresses spec ! tc_client ctx = Some a \<and>
     sa_ip a = tc_client_ip ctx"

text \<open>Every packet of the network is one the sender could have made.\<close>

definition sender_origins :: "throughput_ctx \<Rightarrow> socket_addr \<Rightarrow> origin set" where
  "sender_origins ctx a =
     {x. fst x = a \<and> fst (snd x) = \<lparr>sa_ip = tc_server_ip ctx, sa_port = 8080\<rparr> \<and> length (snd (snd x)) \<le> 1200}"

definition sockets_ok ::
  "network_spec \<Rightarrow> 'r rng_ops \<Rightarrow> throughput_ctx \<Rightarrow> socket_addr \<Rightarrow> 'r throughput_run \<Rightarrow> bool" where
  "sockets_ok spec ops ctx a r \<longleftrightarrow>
     sim.reach spec ops (tr_sim r) \<and> sim_from (addresses spec) (sender_origins ctx a) (tr_sim r) \<and>
     socket_limit (tr_sim r) (tc_server ctx) 20 \<and>
     length (bm_meta (tr_bufs r)) = 20 \<and> length (bm_bufs (tr_bufs r)) = 20 \<and>
     (\<forall>b \<in> set (bm_bufs (tr_bufs r)). length b = 1200) \<and>
     \<not> pe_has_keylog (tr_server_pcap r) \<and> \<not> pe_has_keylog (tr_client_pcap r)"

definition tasks_agree :: "throughput_ctx \<Rightarrow> 'r throughput_run \<Rightarrow> bool" where
  "tasks_agree ctx r \<longleftrightarrow>
     tc_simulation_start ctx \<le> tr_now r \<and> sorted (map fst (tr_arrived r)) \<and>
     (\<forall>(t, n) \<in> set (tr_arrived r). t \<le> tr_now r - tc_simulation_start ctx \<and> n \<le> 1200) \<and>
     ct_event (tr_token r) = (if ct_cancelled (tr_token r) then 1 else 0) \<and>
     (\<forall>e. tr_receiver r = Receiving (Some e) \<longrightarrow> e = 0) \<and>
     (tr_receiver r = Received \<longrightarrow> ct_cancelled (tr_token r)) \<and>
     (case tr_main r of
        Measuring t \<Rightarrow> \<not> ct_cancelled (tr_token r)
      | NotStored \<Rightarrow> \<not> ct_cancelled (tr_token r)
      | Joining \<Rightarrow> ct_cancelled (tr_token r)
      | Measured arrived \<Rightarrow> tr_receiver r = Received \<and> arrived = tr_arrived r)"

lemma sim_from_addr:
  "sim_from (addresses spec) S s \<Longrightarrow> i < length (addresses spec) \<Longrightarrow>
   i < length (nw_nodes (sim_network s)) \<and> quic_addr (sim_node s i) = addresses spec ! i"
  unfolding sim_from_def net_from_def by (metis length_map nth_map)

lemma tasks_agree_later:
  assumes later: "tr_now r \<le> sim_now s" and "tasks_agree ctx r"
  shows "tasks_agree ctx (r\<lparr>tr_sim := s\<rparr>)"
proof -
  have "t \<le> sim_now s - tc_simulation_start ctx \<and> n \<le> 1200" if "(t, n) \<in> set (tr_arrived r)" for t n
    using assms(2) diff_le_mono [OF later] that unfolding tasks_agree_def by (blast intro: order_trans)
  moreover have "tc_simulation_start ctx \<le> sim_now s" using assms by (simp add: tasks_agree_def)
  ultimately show ?thesis using assms(2) by (cases "tr_main r") (auto simp: tasks_agree_def)
qed

lemma run_network_ok:
  assumes "sim_step ops lab (tr_sim r) = Inr s" and "background lab"
    and "sockets_ok spec ops ctx a r" and "tasks_agree ctx r"
  shows "sockets_ok spec ops ctx a (r\<lparr>tr_sim := s\<rparr>)" and "tasks_agree ctx (r\<lparr>tr_sim := s\<rparr>)"
proof -
  have reach: "sim.reach spec ops (tr_sim r)" and orig: "sim_from (addresses spec) (sender_origins ctx a) (tr_sim r)"
    using assms(3) by (simp_all add: sockets_ok_def)
  have "sim.reach spec ops s" using reach assms(1) by (auto intro: sim.reach_step simp: net_step_def)
  moreover have "origins (addresses spec) [lab] = {}" using assms(2) by (auto simp: origins_def background_def)
  then have "sim_from (addresses spec) (sender_origins ctx a) s"
    using sim_from_step [OF assms(1) orig tasks_ok_reach [OF reach]] by simp
  ultimately show "sockets_ok spec ops ctx a (r\<lparr>tr_sim := s\<rparr>)"
    using assms(3) keeps_sockets [OF assms(1,2)] by (simp add: sockets_ok_def socket_limit_def)
  show "tasks_agree ctx (r\<lparr>tr_sim := s\<rparr>)"
    using sim_step_time [OF assms(1) clock_ok_reach [OF reach]] assms(4) by (rule tasks_agree_later)
qed

lemma record_arrivals_ok:
  assumes "tasks_agree ctx r" and "\<forall>p \<in> set packets. sa_ip (up_source_addr p) = tc_client_ip ctx \<and> length (up_payload p) \<le> 1200"
  shows "\<exists>arrived. record_arrivals (tc_client_ip ctx) (tr_now r - tc_simulation_start ctx) packets (tr_arrived r) = Some arrived \<and>
    arrived = tr_arrived r @ map (\<lambda>p. (tr_now r - tc_simulation_start ctx, length (up_payload p))) packets \<and>
    sorted (map fst arrived) \<and> (\<forall>(t, n) \<in> set arrived. t \<le> tr_now r - tc_simulation_start ctx \<and> n \<le> 1200)"
  using assms by (auto simp: record_arrivals_def tasks_agree_def sorted_append comp_def sorted_replicate
      map_replicate_const)

text \<open>What a read at the server hands over was made by the sender.\<close>

lemma read_of_sender:
  assumes "sockets_ok spec ops ctx a r" and "ctx_ok spec ctx a"
    and "read_at (tc_server ctx) w 20 (tr_sim r) = Inr (ds, s)"
  shows "sim.reach spec ops s" and "sim_from (addresses spec) (sender_origins ctx a) s"
    and "socket_limit s (tc_server ctx) 20" and "sim_now s = tr_now r"
    and "\<forall>p \<in> set (map udp_packet_of ds). sa_ip (up_source_addr p) = tc_client_ip ctx \<and> length (up_payload p) \<le> 1200"
proof -
  have orig: "sim_from (addresses spec) (sender_origins ctx a) (tr_sim r)"
    and server: "tc_server ctx < length (nw_nodes (sim_network (tr_sim r)))"
    using assms(1,2) sim_from_addr by (auto simp: sockets_ok_def ctx_ok_def)
  have "sim_step ops (Receive (tc_server ctx) w 20) (tr_sim r) = Inr s"
    using assms(3) server by (simp add: sim_step_def)
  then show "sim.reach spec ops s"
    using assms(1) by (auto simp: sockets_ok_def net_step_def intro: sim.reach_step)
  show "sim_from (addresses spec) (sender_origins ctx a) s" by (rule sim_from_read(1) [OF assms(3) orig server])
  show "socket_limit s (tc_server ctx) 20" "sim_now s = tr_now r"
    using read_at_limit [OF assms(3)] assms(1) by (simp_all add: sockets_ok_def)
  show "\<forall>p \<in> set (map udp_packet_of ds). sa_ip (up_source_addr p) = tc_client_ip ctx \<and> length (up_payload p) \<le> 1200"
    using sim_from_read(2) [OF assms(3) orig server] assms(2)
    by (auto simp: udp_packet_of_def sender_origins_def origin_def ctx_ok_def)
qed

text \<open>A turn either finds the receiver at its end or records what the network hands over.\<close>

definition reads_on :: "throughput_ctx \<Rightarrow> 'r throughput_run \<Rightarrow> 'r throughput_run \<Rightarrow> bool" where
  "reads_on ctx r r' \<longleftrightarrow>
     tr_receiver r' = Received \<and> tr_arrived r' = tr_arrived r \<or>
     (\<exists>ds. read_at (tc_server ctx) 0 20 (tr_sim r) = Inr (ds, tr_sim r') \<and>
        tr_arrived r' = tr_arrived r @
          map (\<lambda>d. (tr_now r - tc_simulation_start ctx, length (contents_of d))) ds)"

lemma receiver_step_ok:
  assumes ok: "sockets_ok spec ops ctx a r" "tasks_agree ctx r" and ctx: "ctx_ok spec ctx a"
  shows "case receiver_step lib ctx r of
      Inl x \<Rightarrow> \<exists>a t. ip_packet lib a t = Inl x
    | Inr r' \<Rightarrow> sockets_ok spec ops ctx a r' \<and> tasks_agree ctx r' \<and> reads_on ctx r r'"
proof (cases "tr_receiver r")
  case Received
  with ok show ?thesis by (simp add: receiver_step_def reads_on_def)
next
  case (Receiving c)
  show ?thesis
  proof (cases "fst (poll_cancelled c (tr_token r))")
    case True
    then have "receiver_step lib ctx r = Inr (r\<lparr>tr_receiver := Received\<rparr>)"
      using Receiving by (auto simp: receiver_step_def split: prod.splits bool.splits)
    moreover have "ct_cancelled (tr_token r)"
      using True ok(2) Receiving
      by (auto simp: poll_cancelled_def tasks_agree_def split: option.splits if_splits)
    ultimately show ?thesis
      using ok by (cases "tr_main r") (auto simp: sockets_ok_def tasks_agree_def reads_on_def)
  next
    case False
    then obtain l where l: "poll_cancelled c (tr_token r) = (False, l)" by (cases "poll_cancelled c (tr_token r)") auto
    have l0: "\<forall>e. l = Some e \<longrightarrow> e = 0" and main: "\<forall>ps. tr_main r \<noteq> Measured ps"
      using l ok(2) Receiving by (auto simp: poll_cancelled_def tasks_agree_def split: option.splits if_splits)
    let ?poll = "poll_recv lib [] (tc_server ctx) 0 (tr_bufs r) (tr_sim r, tr_server_pcap r)"
    have orig: "sim_from (addresses spec) (sender_origins ctx a) (tr_sim r)"
      and server: "tc_server ctx < length (nw_nodes (sim_network (tr_sim r)))"
        "quic_addr (sim_node (tr_sim r) (tc_server ctx)) \<noteq> None"
      and bufs: "length (bm_meta (tr_bufs r)) = 20" "length (bm_meta (tr_bufs r)) \<le> length (bm_bufs (tr_bufs r))"
        "\<forall>b \<in> set (bm_bufs (tr_bufs r)). length b = 1200"
      and noop: "\<not> pe_has_keylog (tr_server_pcap r)"
      using ok(1) ctx sim_from_addr [of spec "sender_origins ctx a" "tr_sim r" "tc_server ctx"]
      by (simp_all add: sockets_ok_def ctx_ok_def)
    have small: "\<forall>x \<in> sender_origins ctx a. length (snd (snd x)) \<le> 1200" by (simp add: sender_origins_def)
    note outcome = poll_recv_outcome [OF orig server bufs(2,3) small noop, of lib "[]" 0]
    show ?thesis
    proof (cases ?poll)
      case (Inl x)
      with outcome l Receiving show ?thesis by (simp add: receiver_step_def)
    next
      case (Inr y)
      obtain n bm s e where y: "y = (n, bm, s, e)" by (cases y)
      have shape: "length (bm_meta bm) = 20" "length (bm_bufs bm) = 20" "\<forall>b \<in> set (bm_bufs bm). length b = 1200"
        "\<not> pe_has_keylog e"
        using outcome Inr y bufs(1) ok(1) by (simp_all add: sockets_ok_def)
      let ?r = "r\<lparr>tr_sim := s, tr_server_pcap := e, tr_bufs := bm\<rparr>"
      have ok': "sockets_ok spec ops ctx a (?r\<lparr>tr_arrived := ps, tr_receiver := rt\<rparr>)"
        if "read_at (tc_server ctx) 0 20 (tr_sim r) = Inr (ds, s)" for ds ps rt
        using read_of_sender(1-3) [OF ok(1) ctx that] shape ok(1) by (simp add: sockets_ok_def)
      have agree: "tasks_agree ctx (?r\<lparr>tr_arrived := ps, tr_receiver := Receiving k\<rparr>)"
        if "sim_now s = tr_now r" "sorted (map fst ps)" "\<forall>e. k = Some e \<longrightarrow> e = 0"
          "\<forall>(t, n) \<in> set ps. t \<le> tr_now r - tc_simulation_start ctx \<and> n \<le> 1200" for ps k
        using that ok(2) main by (cases "tr_main r") (auto simp: tasks_agree_def)
      show ?thesis
      proof (cases n)
        case None
        have read: "read_at (tc_server ctx) 0 20 (tr_sim r) = Inr ([], s)"
          using poll_recv_None(1) [of lib "[]" "tc_server ctx" 0 "tr_bufs r"] Inr y None bufs(1) by simp
        have "receiver_step lib ctx r = Inr (?r\<lparr>tr_arrived := tr_arrived r, tr_receiver := Receiving l\<rparr>)"
          using Inr y None l Receiving by (simp add: receiver_step_def Let_def)
        moreover have "sorted (map fst (tr_arrived r))"
          "\<forall>(t, n) \<in> set (tr_arrived r). t \<le> tr_now r - tc_simulation_start ctx \<and> n \<le> 1200"
          using ok(2) by (simp_all add: tasks_agree_def)
        ultimately show ?thesis
          using ok' [OF read, of "Receiving l" "tr_arrived r"] agree [of "tr_arrived r" l]
            read_of_sender(4) [OF ok(1) ctx read] l0 read by (simp add: reads_on_def)
      next
        case (Some k)
        have poll: "poll_recv lib [] (tc_server ctx) 0 (tr_bufs r) (tr_sim r, tr_server_pcap r) = Inr (Some k, bm, s, e)"
          using Inr y Some by simp
        have "k \<le> 20" using poll_recv_Some [OF poll] ok(1) by (auto simp: sockets_ok_def)
        with receive_delivered [OF poll] bufs(1) obtain ds
          where read: "read_at (tc_server ctx) 0 20 (tr_sim r) = Inr (ds, s)"
            and packets: "receive k bm = Inr (map udp_packet_of ds)" by auto
        note now = read_of_sender(4) [OF ok(1) ctx read]
        obtain ps where ps: "record_arrivals (tc_client_ip ctx) (tr_now r - tc_simulation_start ctx)
            (map udp_packet_of ds) (tr_arrived r) = Some ps" "sorted (map fst ps)"
          "ps = tr_arrived r @ map (\<lambda>p. (tr_now r - tc_simulation_start ctx, length (up_payload p))) (map udp_packet_of ds)"
          "\<forall>(t, n) \<in> set ps. t \<le> tr_now r - tc_simulation_start ctx \<and> n \<le> 1200"
          using record_arrivals_ok [OF ok(2) read_of_sender(5) [OF ok(1) ctx read]] by blast
        have "receiver_step lib ctx r = Inr (?r\<lparr>tr_arrived := ps, tr_receiver := Receiving None\<rparr>)"
          using poll l Receiving packets ps(1) now by (simp add: receiver_step_def Let_def)
        moreover have "reads_on ctx r (?r\<lparr>tr_arrived := ps, tr_receiver := Receiving None\<rparr>)"
          using read ps(3) by (simp add: reads_on_def udp_packet_of_def comp_def)
        ultimately show ?thesis using ok' [OF read] agree now ps(2,4) by simp
      qed
    qed
  qed
qed

text \<open>An interval of the sender is a sequence of transmits.\<close>

lemma sender_step_ok:
  assumes "sender_step lib ops ctx r = Inr r'" and ok: "sockets_ok spec ops ctx a r" "tasks_agree ctx r"
    and ctx: "ctx_ok spec ctx a"
  shows "sockets_ok spec ops ctx a r' \<and> tasks_agree ctx r'"
proof -
  consider "r' = r" | "r' = r\<lparr>tr_next_send := None\<rparr>"
    | s e t where "send_interval lib ops (tc_client ctx) (tc_server_ip ctx) (tc_send_bytes_per_interval ctx)
        (tr_sim r, tr_client_pcap r) = Inr (s, e)"
      "r' = r\<lparr>tr_sim := s, tr_client_pcap := e, tr_next_send := Some t\<rparr>"
  proof (cases "tr_next_send r")
    case None
    with assms(1) show ?thesis by (intro that(1)) (simp add: sender_step_def)
  next
    case (Some t)
    show ?thesis
    proof (cases "tr_now r < t \<or> is_cancelled (tr_token r)")
      case True
      with assms(1) Some have "r' = r \<or> r' = r\<lparr>tr_next_send := None\<rparr>"
        by (auto simp: sender_step_def split: if_splits)
      with that(1,2) show ?thesis by blast
    next
      case False
      with assms(1) Some obtain y where "send_interval lib ops (tc_client ctx) (tc_server_ip ctx)
          (tc_send_bytes_per_interval ctx) (tr_sim r, tr_client_pcap r) = Inr y"
        "(case y of (s, e) \<Rightarrow> Inr (r\<lparr>tr_sim := s, tr_client_pcap := e,
           tr_next_send := Some (tr_now r + millis send_interval_ms)\<rparr>)) = (Inr r' :: panic + _)"
        by (auto simp: sender_step_def bind_ok_Inr_iff)
      then show ?thesis by (intro that(3) [of "fst y" "snd y" "tr_now r + millis send_interval_ms"]) (simp_all add: case_prod_unfold)
    qed
  qed
  then show ?thesis
  proof cases
    case (3 s e t)
    let ?P = "\<lambda>(s, e). sockets_ok spec ops ctx a (r\<lparr>tr_sim := s, tr_client_pcap := e\<rparr>) \<and> sim_now s = tr_now r"
    have "?P (s, e)"
      using 3(1) unfolding send_interval_def
    proof (rule fold_ok_invariant [where P = ?P])
      show "?P (tr_sim r, tr_client_pcap r)" using ok(1) by (simp add: sockets_ok_def)
      fix st n st'
      assume n: "n \<in> set (packet_sizes (tc_send_bytes_per_interval ctx))" and P: "?P st"
        and send: "try_send lib ops [] (tc_client ctx)
          \<lparr>tx_destination = \<lparr>sa_ip = tc_server_ip ctx, sa_port = 8080\<rparr>, tx_ecn = None,
           tx_contents = replicate n 0, tx_segment_size = None\<rparr> st = Inr st'"
      obtain u x where st: "st = (u, x)" by (cases st)
      obtain u' x' where st': "st' = (u', x')" by (cases st')
      have reach: "sim.reach spec ops u" and orig: "sim_from (addresses spec) (sender_origins ctx a) u"
        and noop: "\<not> pe_has_keylog x"
        using P by (simp_all add: st sockets_ok_def)
      have client: "tc_client ctx < length (nw_nodes (sim_network u))"
        using sim_from_addr [OF orig] ctx by (simp add: ctx_ok_def)
      note step = try_send_step [OF send [unfolded st st'] client]
      have "origins (addresses spec) [Transmit (tc_client ctx)
          \<lparr>tx_destination = \<lparr>sa_ip = tc_server_ip ctx, sa_port = 8080\<rparr>, tx_ecn = None,
           tx_contents = replicate n 0, tx_segment_size = None\<rparr>] \<subseteq> sender_origins ctx a"
        using ctx n packet_sizes_spec by (auto simp: origins_def sender_origins_def ctx_ok_def)
      from sim_from_step [OF step(1) orig tasks_ok_reach [OF reach] this]
      have "sim_from (addresses spec) (sender_origins ctx a) u'" .
      moreover have "sim.reach spec ops u'" using reach step(1) by (auto simp: net_step_def intro: sim.reach_step)
      ultimately show "?P st'" using P step noop by (simp add: st st' sockets_ok_def socket_limit_def)
    qed
    moreover from this have "tasks_agree ctx (r\<lparr>tr_sim := s\<rparr>)" using tasks_agree_later [OF _ ok(2), of s] by simp
    ultimately show ?thesis by (cases "tr_main r") (auto simp: 3(2) sockets_ok_def tasks_agree_def)
  next
    case 2
    with ok show ?thesis by (cases "tr_main r") (auto simp: sockets_ok_def tasks_agree_def)
  qed (use ok in simp)
qed

lemma main_step_ok:
  assumes "sockets_ok spec ops ctx a r" "tasks_agree ctx r"
  shows "sockets_ok spec ops ctx a (main_step stored r) \<and> tasks_agree ctx (main_step stored r)"
proof (cases "tr_main r")
  case (Measuring t)
  with assms show ?thesis by (auto simp: main_step_def cancel_def sockets_ok_def tasks_agree_def)
qed (use assms in \<open>auto simp: main_step_def sockets_ok_def tasks_agree_def\<close>)

lemma throughput_started_ok:
  assumes "throughput_started meta spec ctx (r :: 'r throughput_run)"
  obtains a where "sockets_ok spec ops ctx a r" "tasks_agree ctx r" "ctx_ok spec ctx a"
proof -
  obtain opt config rng now lines where opened: "throughput_begin opt config meta rng now = Inr (Inr (lines, ctx, r))"
    and spec: "spec = spec_of_json (nc_network_graph config)"
    using assms by (auto simp: throughput_started_def)
  obtain spec' s where start: "start_network config rng now False = Inr (spec', s)"
    using opened by (auto simp: throughput_begin_def split: sum.splits)
  then have "spec' = spec" by (auto simp: start_network_def spec Let_def map_sum_id_Inr)
  note start = start [unfolded this]
  from opened start obtain bps where
      server: "host (sim_network s) (server_ip_address (to_network opt)) = Inr (tc_server ctx)"
    and client: "host (sim_network s) (client_ip_address (to_network opt)) = Inr (tc_client ctx)"
    and ctx: "tc_client_ip ctx = client_ip_address (to_network opt)" "tc_simulation_start ctx = now"
    and r: "r = \<lparr>tr_sim = s, tr_server_pcap = exporter_new now False,
        tr_client_pcap = exporter_new now False, tr_token = token_new,
        tr_receiver = Receiving None, tr_bufs = bufs_and_meta_new meta 1200 20,
        tr_arrived = [], tr_next_send = Some now,
        tr_main = Measuring (now + millis (to_duration_ms opt))\<rparr>"
    by (auto simp: throughput_begin_def Let_def bind_ok_Inr_iff split: option.splits)
  note started = start_network_started [OF start]
  have now: "sim_now s = now" "sim_sockets s = replicate (length (nw_nodes (sim_network s))) None"
    using start by (auto simp: start_network_def Let_def map_sum_id_Inr initialize_def bind_ok_Inr_iff split: if_splits)
  have orig: "sim_from (addresses spec) {} s" using sim_from_started [OF started] by (simp add: addresses_def)
  then have E: "map quic_addr (nw_nodes (sim_network s)) = addresses spec"
    by (simp add: sim_from_def net_from_def)
  then have len: "length (addresses spec) = length (nw_nodes (sim_network s))" by (metis length_map)
  obtain a where a: "tc_server ctx < length (addresses spec)" "addresses spec ! tc_server ctx \<noteq> None"
    "tc_client ctx < length (addresses spec)" "addresses spec ! tc_client ctx = Some a" "sa_ip a = tc_client_ip ctx"
    using host_address [OF started server] host_address [OF started client] len
    by (auto simp: ctx E [symmetric])
  have "sockets_ok spec ops ctx a r"
    using sim.reach_initial [OF started] sim_from_mono [OF orig, of "sender_origins ctx a"] a(1) len
    by (simp add: r sockets_ok_def socket_limit_def now bufs_and_meta_new_def exporter_new_def)
  moreover have "tasks_agree ctx r" by (simp add: r tasks_agree_def ctx now token_new_def)
  ultimately show thesis using that a by (simp add: ctx_ok_def)
qed

lemma throughput_step_ok:
  assumes "throughput_step lib ops ctx lab r = Inr r'" and "sockets_ok spec ops ctx a r" "tasks_agree ctx r"
    and "ctx_ok spec ctx a"
  shows "sockets_ok spec ops ctx a r' \<and> tasks_agree ctx r'"
proof (cases lab)
  case (RunNetwork l)
  with assms(1-3) run_network_ok show ?thesis
    by (fastforce simp: throughput_step_def may_run_def map_sum_id_Inr split: if_splits)
next
  case RunReceiver
  with assms(1) receiver_step_ok [OF assms(2-4), of lib] show ?thesis by (simp add: throughput_step_def)
next
  case RunSender
  with assms(1) sender_step_ok [OF _ assms(2-4)] show ?thesis by (simp add: throughput_step_def)
next
  case (RunMain stored)
  with assms(1) main_step_ok [OF assms(2,3)] show ?thesis by (auto simp: throughput_step_def)
qed

lemma throughput_ok_reach:
  assumes "throughput.reach meta spec ctx lib ops r"
  obtains a where "sockets_ok spec ops ctx a r" "tasks_agree ctx r" "ctx_ok spec ctx a"
proof -
  have "\<exists>a. sockets_ok spec ops ctx a r \<and> tasks_agree ctx r \<and> ctx_ok spec ctx a"
    using assms
  proof (rule throughput.reach_invariant)
    show "\<exists>a. sockets_ok spec ops ctx a r \<and> tasks_agree ctx r \<and> ctx_ok spec ctx a"
      if "throughput_started meta spec ctx r" for r
      using that by (rule throughput_started_ok) blast
    show "\<exists>a. sockets_ok spec ops ctx a r' \<and> tasks_agree ctx r' \<and> ctx_ok spec ctx a"
      if "\<exists>a. sockets_ok spec ops ctx a r \<and> tasks_agree ctx r \<and> ctx_ok spec ctx a"
        "throughput_step lib ops ctx lab r = Inr r'" for r lab r'
      using that(1) throughput_step_ok [OF that(2)] by blast
  qed
  with that show thesis by blast
qed

section \<open>A small test\<close>

text \<open>
  Two hosts, a link with a delay of ten milliseconds, one byte per interval, a test of five: the
  first packet is still in flight when the time is over.
\<close>

definition test_node :: "string \<Rightarrow> 32 word \<Rightarrow> node_json" where
  "test_node name a =
     \<lparr>nj_id = name, nj_buffer_size_bytes = 1000, nj_kind = HostJson, nj_quic = None,
      nj_interfaces = [\<lparr>ij_addresses = [\<lparr>address = a, network_prefix = 24\<rparr>], ij_routes = []\<rparr>],
      nj_packet_duplication_ratio = 0, nj_packet_loss_ratio = 0\<rparr>"

definition test_config :: network_config where
  "test_config =
     \<lparr>nc_network_graph =
        \<lparr>nsj_nodes = [test_node ''a'' 1, test_node ''b'' 2],
         nsj_links = [\<lparr>lj_id = ''l'', lj_source = V4 1, lj_target = V4 2, lj_bandwidth_bps = 1000000,
           lj_delay_ms = 10, lj_extra_delay_ms = 0, lj_extra_delay_ratio = 0, lj_congestion_event_ratio = 0\<rparr>]\<rparr>,
      nc_network_events = []\<rparr>"

definition test_opt :: throughput_opt where
  "test_opt =
     \<lparr>to_duration_ms = 5, to_send_bps = Some 160,
      to_network = network_opt_default (V4 1) (V4 2) ''graph.json'' ''events.json''\<rparr>"

definition test_labels :: "throughput_label list" where
  "test_labels =
     [RunSender, RunNetwork (RunNode 0), RunNetwork (RunLink 0), RunNetwork (Tick (millis 5))]"

definition test_transmit :: owned_transmit where
  "test_transmit =
     \<lparr>tx_destination = \<lparr>sa_ip = V4 2, sa_port = 8080\<rparr>, tx_ecn = None, tx_contents = [0],
      tx_segment_size = None\<rparr>"

lemma test_packet: "\<exists>data. ip_packet sample_codec \<lparr>sa_ip = V4 1, sa_port = 8080\<rparr> test_transmit = Inr data"
  by (simp add: ip_packet_def test_transmit_def write_udp_def write_ipv4_def
      set_fields_def sample_codec_def put_bytes_def buffer_prefix_def udp_length_def)

lemma test_runs:
  obtains ctx r r' where "throughput_started blank_meta (spec_of_json (nc_network_graph test_config)) ctx r"
    "throughput_steps sample_codec counter_rng ctx test_labels r = Inr r'"
    "tr_main r' = Measuring (millis 5)" "tr_now r' = millis 5" "tr_arrived r' = []"
proof -
  have "case start_network test_config (0::nat) 0 False of Inl _ \<Rightarrow> False | Inr (spec, s) \<Rightarrow>
      host (sim_network s) (V4 1) = Inr 0 \<and> host (sim_network s) (V4 2) = Inr 1 \<and>
      send_bps_of test_opt spec = Some 160 \<and> sim_now s = 0 \<and>
      quic_addr (sim_node s 0) = Some \<lparr>sa_ip = V4 1, sa_port = 8080\<rparr> \<and>
      (case send_from counter_rng 0 test_transmit s of
         Inl _ \<Rightarrow> False
       | Inr s1 \<Rightarrow> sim_now s1 = 0 \<and>
           (case run counter_rng [RunNode 0, RunLink 0, Tick (millis 5)] s1 of
              Inl _ \<Rightarrow> False | Inr s2 \<Rightarrow> sim_now s2 = millis 5))"
    by code_simp
  then obtain spec s where s: "start_network test_config (0::nat) 0 False = Inr (spec, s)"
    and facts: "host (sim_network s) (V4 1) = Inr 0 \<and> host (sim_network s) (V4 2) = Inr 1 \<and>
      send_bps_of test_opt spec = Some 160 \<and> sim_now s = 0 \<and>
      quic_addr (sim_node s 0) = Some \<lparr>sa_ip = V4 1, sa_port = 8080\<rparr>"
    and rest: "case send_from counter_rng 0 test_transmit s of
         Inl _ \<Rightarrow> False
       | Inr s1 \<Rightarrow> sim_now s1 = 0 \<and>
           (case run counter_rng [RunNode 0, RunLink 0, Tick (millis 5)] s1 of
              Inl _ \<Rightarrow> False | Inr s2 \<Rightarrow> sim_now s2 = millis 5)"
    by (cases "start_network test_config (0::nat) 0 False") (simp, fastforce split: prod.splits)
  from rest obtain s1 where sent: "send_from counter_rng 0 test_transmit s = Inr s1" and "sim_now s1 = 0"
    and rest': "case run counter_rng [RunNode 0, RunLink 0, Tick (millis 5)] s1 of
              Inl _ \<Rightarrow> False | Inr s2 \<Rightarrow> sim_now s2 = millis 5"
    by (cases "send_from counter_rng 0 test_transmit s") simp_all
  from rest' obtain s2 where ran: "run counter_rng [RunNode 0, RunLink 0, Tick (millis 5)] s1 = Inr s2"
    and "sim_now s2 = millis 5"
    by (cases "run counter_rng [RunNode 0, RunLink 0, Tick (millis 5)] s1") simp_all
  note now = conjunct1 [OF conjunct2 [OF conjunct2 [OF conjunct2 [OF facts]]]] \<open>sim_now s1 = 0\<close> \<open>sim_now s2 = millis 5\<close>
  have hosts: "host (sim_network s) (V4 1) = Inr 0" "host (sim_network s) (V4 2) = Inr 1"
    and bps: "send_bps_of test_opt spec = Some 160"
    and addr: "quic_addr (sim_node s 0) = Some \<lparr>sa_ip = V4 1, sa_port = 8080\<rparr>"
    using facts by simp_all
  obtain e where "track_transmit sample_codec [] 0 \<lparr>sa_ip = V4 1, sa_port = 8080\<rparr> test_transmit (exporter_new 0 False) =
      Inr e"
    using test_packet by (auto simp: track_transmit_def exporter_new_def write_pcapng_transmit_def)
  moreover have "packet_sizes 1 = [1]" by code_simp
  ultimately have interval: "send_interval sample_codec counter_rng 0 (V4 2) 1 (s, exporter_new 0 False) = Inr (s1, e)"
    using sent addr now by (simp add: send_interval_def try_send_def test_transmit_def)
  obtain lines where lines: "initial_status_lines spec (sim_network s) = Inr lines"
    using initial_status_lines_ok [OF s] by blast
  let ?ctx = "\<lparr>tc_server = 1, tc_client = 0, tc_server_ip = V4 2, tc_client_ip = V4 1,
      tc_simulation_start = 0, tc_send_bytes_per_interval = 1\<rparr>"
  have "send_bytes_per_interval 160 = 1" by (simp add: send_bytes_per_interval_def send_interval_ms_def)
  then obtain r where r: "throughput_begin test_opt test_config blank_meta (0::nat) 0 = Inr (Inr (lines, ?ctx, r))"
    and init: "tr_sim r = s" "tr_client_pcap r = exporter_new 0 False" "tr_token r = token_new" "tr_next_send r = Some 0"
      "tr_main r = Measuring (millis 5)" "tr_arrived r = []"
    using s hosts bps lines
    by (simp add: throughput_begin_def test_opt_def network_opt_default_def Let_def)
  have "throughput_started blank_meta (spec_of_json (nc_network_graph test_config)) ?ctx r"
    using r unfolding throughput_started_def by blast
  moreover have "throughput_steps sample_codec counter_rng ?ctx test_labels r =
      Inr (r\<lparr>tr_sim := s2, tr_client_pcap := e, tr_next_send := Some (millis send_interval_ms)\<rparr>)"
  proof -
    from ran obtain u1 u2 where net: "sim_step counter_rng (RunNode 0) s1 = Inr u1"
      "sim_step counter_rng (RunLink 0) u1 = Inr u2" and "s2 = u2\<lparr>sim_now := sim_now u2 + millis 5\<rparr>"
      by (auto simp: run_def bind_ok_Inr_iff sim_step_def [of _ "Tick d" for d])
    then have tick: "sim_now u2 = 0" "sim_step counter_rng (Tick (millis 5)) u2 = Inr s2"
      using now(3) by (simp_all add: sim_step_def)
    define r0 where "r0 = r\<lparr>tr_client_pcap := e, tr_next_send := Some (millis send_interval_ms)\<rparr>"
    have "sender_step sample_codec counter_rng ?ctx r = Inr (r0\<lparr>tr_sim := s1\<rparr>)"
      using interval init now by (simp add: sender_step_def is_cancelled_def token_new_def r0_def)
    moreover have "may_run (RunNode 0) (r0\<lparr>tr_sim := u\<rparr>)" "may_run (RunLink 0) (r0\<lparr>tr_sim := u\<rparr>)" for u
      by (simp_all add: may_run_def background_def)
    moreover have "may_run (Tick (millis 5)) (r0\<lparr>tr_sim := u2\<rparr>)"
      using tick(1) init(5)
      by (simp add: may_run_def background_def timers_def r0_def millis_def send_interval_ms_def)
    ultimately have "throughput_steps sample_codec counter_rng ?ctx test_labels r = Inr (r0\<lparr>tr_sim := s2\<rparr>)"
      using net tick(2) by (simp add: throughput_steps_def test_labels_def throughput_step_def)
    then show ?thesis by (simp add: r0_def)
  qed
  ultimately show thesis using that init(5,6) now(3) by simp
qed

section \<open>Properties\<close>

text \<open>
  C39. The receiver of the throughput test only meets what the sender made: in every reachable state
  its turn succeeds, unless a packet cannot be encoded for the capture (even one that writes
  nothing encodes it). Its assertion on the source, the copies into its buffers and its indices
  never fail. It records exactly the packets the network hands over, with the time and their size.
\<close>

theorem receiver_records_packets:
  assumes "throughput.reach meta spec ctx lib ops r"
  shows "case receiver_step lib ctx r of
      Inl x \<Rightarrow> \<exists>a t. ip_packet lib a t = Inl x
    | Inr r' \<Rightarrow> tr_receiver r' = Received \<and> tr_arrived r' = tr_arrived r \<or>
        (\<exists>ds. read_at (tc_server ctx) 0 20 (tr_sim r) = Inr (ds, tr_sim r') \<and>
           tr_arrived r' = tr_arrived r @
             map (\<lambda>d. (tr_now r - tc_simulation_start ctx, length (tx_contents (pkt_transmit (dt_data d))))) ds)"
proof -
  obtain a where "sockets_ok spec ops ctx a r" "tasks_agree ctx r" "ctx_ok spec ctx a"
    using assms(1) by (rule throughput_ok_reach)
  from receiver_step_ok [OF this, of lib] show ?thesis by (auto simp: reads_on_def split: sum.splits)
qed

text \<open>
  C40. When the time of the test is over, three more turns end it, whatever is in flight: the token is
  cancelled, the receiver stops before it reads again, and the main task gets what had arrived. The
  arrivals are in the order of time, and the number reported is the peak of their 100 ms windows.
\<close>

theorem throughput_test_ends:
  assumes "throughput.reach meta spec ctx lib ops r" and "tr_main r = Measuring t" and "t \<le> tr_now r"
    and "80 * (\<Sum>(t, n) \<leftarrow> tr_arrived r. n) < 2 ^ 64"
  shows "\<exists>r'. throughput_steps lib ops ctx [RunMain True, RunReceiver, RunMain True] r = Inr r' \<and>
    tr_main r' = Measured (tr_arrived r) \<and>
    max_smoothed_throughput (tr_arrived r) =
      Max (insert 0 ((\<lambda>k. 80 * (\<Sum>(t, n) \<leftarrow> take (Suc k) (tr_arrived r).
                               if fst (tr_arrived r ! k) \<le> t + millis 100 then n else 0))
                     ` {..<length (tr_arrived r)}))"
proof -
  obtain a where agree: "tasks_agree ctx r" using assms(1) by (rule throughput_ok_reach)
  then have token: "\<not> ct_cancelled (tr_token r)" "ct_event (tr_token r) = 0" "tr_receiver r \<noteq> Received"
    using assms(2) by (auto simp: tasks_agree_def)
  then obtain c where c: "tr_receiver r = Receiving c" "\<forall>e. c = Some e \<longrightarrow> e = 0"
    using agree by (cases "tr_receiver r") (auto simp: tasks_agree_def)
  define r1 where "r1 = r\<lparr>tr_token := cancel (tr_token r), tr_main := Joining\<rparr>"
  have 1: "main_step True r = r1" using assms(2,3) by (simp add: main_step_def r1_def)
  have "fst (poll_cancelled c (tr_token r1))"
    using c(2) token(2) by (auto simp: r1_def poll_cancelled_def cancel_def split: option.splits)
  then have 2: "receiver_step lib ctx r1 = Inr (r1\<lparr>tr_receiver := Received\<rparr>)"
    using c(1) by (auto simp: receiver_step_def r1_def split: prod.splits bool.splits)
  have "throughput_steps lib ops ctx [RunMain True, RunReceiver, RunMain True] r =
      Inr (r1\<lparr>tr_receiver := Received, tr_main := Measured (tr_arrived r)\<rparr>)"
    by (simp add: throughput_steps_def throughput_step_def 1 2) (simp add: main_step_def r1_def)
  moreover have "sorted (map fst (tr_arrived r))" using agree by (simp add: tasks_agree_def)
  ultimately show ?thesis using max_smoothed_is_peak [OF _ assms(4)] by simp
qed

lemma throughput_steps_reach:
  assumes "throughput.reach meta spec ctx lib ops r" and "throughput_steps lib ops ctx labs r = Inr r'"
  shows "throughput.reach meta spec ctx lib ops r'"
  using assms(2) unfolding throughput_steps_def
  by (rule fold_ok_invariant) (use assms(1) throughput.reach_step in blast)+

theorem receiver_records_packets_witness:
  "\<exists>ctx r r'. throughput_steps sample_codec counter_rng ctx test_labels r = Inr (r' :: nat throughput_run) \<and>
     (case receiver_step sample_codec ctx r' of
        Inl x \<Rightarrow> \<exists>a t. ip_packet sample_codec a t = Inl x
      | Inr r2 \<Rightarrow> tr_receiver r2 = Received \<or> (\<exists>ds. read_at (tc_server ctx) 0 20 (tr_sim r') = Inr (ds, tr_sim r2)))"
proof -
  obtain ctx r r' where r: "throughput_started blank_meta (spec_of_json (nc_network_graph test_config)) ctx r"
    "throughput_steps sample_codec counter_rng ctx test_labels r = Inr (r' :: nat throughput_run)"
    by (rule test_runs)
  from receiver_records_packets [OF throughput_steps_reach [OF throughput.reach_initial [OF r(1)] r(2)]] r(2)
  show ?thesis by (intro exI conjI) (assumption, auto split: sum.splits)
qed

theorem throughput_test_ends_witness:
  "\<exists>ctx r r' r2. throughput_steps sample_codec counter_rng ctx test_labels r = Inr (r' :: nat throughput_run) \<and>
     throughput_steps sample_codec counter_rng ctx [RunMain True, RunReceiver, RunMain True] r' = Inr r2 \<and>
     tr_main r2 = Measured []"
proof -
  obtain ctx r r' where r: "throughput_started blank_meta (spec_of_json (nc_network_graph test_config)) ctx r"
    "throughput_steps sample_codec counter_rng ctx test_labels r = Inr (r' :: nat throughput_run)"
    "tr_main r' = Measuring (millis 5)" "tr_now r' = millis 5" "tr_arrived r' = []"
    by (rule test_runs)
  from throughput_steps_reach [OF throughput.reach_initial [OF r(1)] r(2)]
  have "throughput.reach blank_meta (spec_of_json (nc_network_graph test_config)) ctx sample_codec counter_rng r'" .
  from throughput_test_ends [OF this r(3)] r(2,4,5) show ?thesis by auto
qed

end
