(* ===== verification/Quic_Client.thy ===== *)
theory Quic_Client
  imports Quic_Setup
begin

text \<open>
  The client side of the QUIC simulation: the connection tasks of
  \<^verbatim>\<open>quinn-workbench/src/quic/simulation.rs\<close> and the requests they make
  (\<^verbatim>\<open>quinn-workbench/src/quic/client.rs\<close>). The tasks share the number of requests left; each has a
  semaphore of concurrent streams. What QUIC decides (when a connection is established, when and how
  a request ends) are labels of the steps. A task runs from one await point to the next.

  The lemmas show that the tasks together make every configured request exactly once, never use
  more streams than configured, and keep the interval between requests.
\<close>

section \<open>State\<close>

datatype conn_phase =
    Connecting
  | AwaitPermit
  | Interval instant
  | Joining nat
  | Closed
  | Failed

record quic_conn =
  qc_phase :: conn_phase
  qc_permits :: nat
  qc_requests_made :: nat
  qc_running :: "nat list"
  qc_errored :: "nat list"
  qc_started_at :: "(nat \<times> instant) list"
  qc_finished_at :: "(nat \<times> instant) list"

record quic_clients =
  ql_now :: instant
  ql_start :: instant
  ql_requests_left :: nat
  ql_conns :: "quic_conn list"

definition conn_new :: "quic_opt \<Rightarrow> quic_conn" where
  "conn_new opts =
     \<lparr>qc_phase = Connecting, qc_permits = concurrent_streams_per_connection opts,
      qc_requests_made = 0, qc_running = [], qc_errored = [], qc_started_at = [], qc_finished_at = []\<rparr>"

definition clients_new :: "quic_opt \<Rightarrow> instant \<Rightarrow> quic_clients" where
  "clients_new opts now =
     \<lparr>ql_now = now, ql_start = now, ql_requests_left = qo_requests opts, ql_conns = []\<rparr>"

definition request_interval :: "quic_opt \<Rightarrow> duration" where
  "request_interval opts = millis (case request_interval_ms opts of None \<Rightarrow> 0 | Some ms \<Rightarrow> ms)"

section \<open>The loop over requests\<close>

definition start_request :: "instant \<Rightarrow> quic_conn \<Rightarrow> quic_conn" where
  "start_request now c =
     (let requests_made = Suc (qc_requests_made c)
      in c\<lparr>qc_requests_made := requests_made, qc_running := qc_running c @ [requests_made],
           qc_started_at := qc_started_at c @ [(requests_made, now)]\<rparr>)"

text \<open>From the head of the loop; a request taken from the shared number is the caller's to make.\<close>

function make_requests :: "duration \<Rightarrow> instant \<Rightarrow> nat \<Rightarrow> quic_conn \<Rightarrow> nat \<times> quic_conn" where
  "make_requests interval now requests_left c =
     (if requests_left = 0 then (0, c\<lparr>qc_phase := Joining 1\<rparr>)
      else if qc_permits c = 0 then (requests_left - 1, c\<lparr>qc_phase := AwaitPermit\<rparr>)
      else
        let c1 = c\<lparr>qc_permits := qc_permits c - 1\<rparr>
        in if 0 < qc_requests_made c \<and> interval \<noteq> 0
           then (requests_left - 1, c1\<lparr>qc_phase := Interval (now + interval)\<rparr>)
           else make_requests interval now (requests_left - 1) (start_request now c1))"
  by pat_completeness auto
termination
  by (relation "measure (\<lambda>(interval, now, requests_left, c). requests_left)") auto

declare make_requests.simps [simp del]

lemma make_requests_none: "make_requests interval now 0 c = (0, c\<lparr>qc_phase := Joining 1\<rparr>)"
  by (subst make_requests.simps) simp

lemma make_requests_wait:
  "0 < n \<Longrightarrow> qc_permits c = 0 \<Longrightarrow>
   make_requests interval now n c = (n - 1, c\<lparr>qc_phase := AwaitPermit\<rparr>)"
  by (subst make_requests.simps) simp

lemma make_requests_sleep:
  "0 < n \<Longrightarrow> 0 < qc_permits c \<Longrightarrow> 0 < qc_requests_made c \<Longrightarrow> 0 < interval \<Longrightarrow>
   make_requests interval now n c =
     (n - 1, c\<lparr>qc_permits := qc_permits c - 1, qc_phase := Interval (now + interval)\<rparr>)"
  by (subst make_requests.simps) (simp add: Let_def)

lemma make_requests_go:
  "0 < n \<Longrightarrow> 0 < qc_permits c \<Longrightarrow> qc_requests_made c = 0 \<or> interval = 0 \<Longrightarrow>
   make_requests interval now n c =
     make_requests interval now (n - 1) (start_request now (c\<lparr>qc_permits := qc_permits c - 1\<rparr>))"
  by (subst make_requests.simps) (auto simp: Let_def)

definition permit_acquired :: "duration \<Rightarrow> instant \<Rightarrow> nat \<Rightarrow> quic_conn \<Rightarrow> nat \<times> quic_conn" where
  "permit_acquired interval now requests_left c =
     (let c1 = c\<lparr>qc_permits := qc_permits c - 1\<rparr>
      in if 0 < qc_requests_made c \<and> interval \<noteq> 0
         then (requests_left, c1\<lparr>qc_phase := Interval (now + interval)\<rparr>)
         else make_requests interval now requests_left (start_request now c1))"

text \<open>The loop over the request tasks; a task that failed ends the connection with an error.\<close>

function join_requests :: "nat \<Rightarrow> quic_conn \<Rightarrow> quic_conn" where
  "join_requests k c =
     (if qc_requests_made c < k then c\<lparr>qc_phase := Closed\<rparr>
      else if k \<in> set (qc_running c) then c\<lparr>qc_phase := Joining k\<rparr>
      else if k \<in> set (qc_errored c) then c\<lparr>qc_phase := Failed\<rparr>
      else join_requests (Suc k) c)"
  by pat_completeness auto
termination
  by (relation "measure (\<lambda>(k, c). Suc (qc_requests_made c) - k)") auto

declare join_requests.simps [simp del]

definition finish_request :: "instant \<Rightarrow> nat \<Rightarrow> bool \<Rightarrow> quic_conn \<Rightarrow> quic_conn" where
  "finish_request now k ok c =
     c\<lparr>qc_running := remove1 k (qc_running c), qc_permits := Suc (qc_permits c),
       qc_errored := (if ok then qc_errored c else qc_errored c @ [k]),
       qc_finished_at := qc_finished_at c @ [(k, now)]\<rparr>"

section \<open>Steps\<close>

datatype client_label =
    ClientTick duration
  | SpawnConn
  | Connected nat bool
  | ResumeConn nat
  | RequestDone nat nat bool

definition resume_conn :: "duration \<Rightarrow> instant \<Rightarrow> nat \<Rightarrow> quic_conn \<Rightarrow> nat \<times> quic_conn" where
  "resume_conn interval now requests_left c =
     (case qc_phase c of
        AwaitPermit \<Rightarrow>
          if qc_permits c = 0 then (requests_left, c) else permit_acquired interval now requests_left c
      | Interval t \<Rightarrow>
          if t \<le> now then make_requests interval now requests_left (start_request now c)
          else (requests_left, c)
      | Joining k \<Rightarrow> (requests_left, join_requests k c)
      | _ \<Rightarrow> (requests_left, c))"

definition at_conn :: "nat \<Rightarrow> (nat \<Rightarrow> quic_conn \<Rightarrow> nat \<times> quic_conn) \<Rightarrow> quic_clients \<Rightarrow> quic_clients" where
  "at_conn i f s =
     (if i < length (ql_conns s) then
        (case f (ql_requests_left s) (ql_conns s ! i) of
           (requests_left, c) \<Rightarrow> s\<lparr>ql_requests_left := requests_left, ql_conns := (ql_conns s)[i := c]\<rparr>)
      else s)"

definition client_step :: "quic_opt \<Rightarrow> client_label \<Rightarrow> quic_clients \<Rightarrow> quic_clients" where
  "client_step opts lab s =
     (case lab of
        ClientTick d \<Rightarrow> s\<lparr>ql_now := ql_now s + d\<rparr>
      | SpawnConn \<Rightarrow>
          if length (ql_conns s) < concurrent_connections opts \<and>
             ql_start s + millis (length (ql_conns s)) \<le> ql_now s
          then s\<lparr>ql_conns := ql_conns s @ [conn_new opts]\<rparr> else s
      | Connected i ok \<Rightarrow>
          at_conn i (\<lambda>requests_left c.
            if qc_phase c \<noteq> Connecting then (requests_left, c)
            else if ok then make_requests (request_interval opts) (ql_now s) requests_left c
            else (requests_left, c\<lparr>qc_phase := Failed\<rparr>)) s
      | ResumeConn i \<Rightarrow> at_conn i (resume_conn (request_interval opts) (ql_now s)) s
      | RequestDone i k ok \<Rightarrow>
          at_conn i (\<lambda>requests_left c.
            (requests_left, if k \<in> set (qc_running c) then finish_request (ql_now s) k ok c else c)) s)"

definition client_run :: "quic_opt \<Rightarrow> client_label list \<Rightarrow> quic_clients \<Rightarrow> quic_clients" where
  "client_run opts labs s = fold (client_step opts) labs s"

text \<open>The simulation ends without error when every connection was started and has closed.\<close>

definition all_closed :: "quic_opt \<Rightarrow> quic_clients \<Rightarrow> bool" where
  "all_closed opts s \<longleftrightarrow>
     length (ql_conns s) = concurrent_connections opts \<and> (\<forall>c \<in> set (ql_conns s). qc_phase c = Closed)"

interpretation qc: transition_system "\<lambda>s. \<exists>now. s = clients_new opts now" "\<lambda>s lab t. t = client_step opts lab s"
  for opts .

section \<open>The invariant of a connection\<close>

definition claimed :: "quic_conn \<Rightarrow> nat" where
  "claimed c = (case qc_phase c of AwaitPermit \<Rightarrow> 1 | Interval t \<Rightarrow> 1 | _ \<Rightarrow> 0)"

definition held_by_sleep :: "quic_conn \<Rightarrow> nat" where
  "held_by_sleep c = (case qc_phase c of Interval t \<Rightarrow> 1 | _ \<Rightarrow> 0)"

text \<open>
  Requests are numbered from one, and each is running or finished. The permits, the running
  requests and a sleeping claim make up the configured number of streams.
\<close>

definition requests_ok :: "nat \<Rightarrow> quic_conn \<Rightarrow> bool" where
  "requests_ok streams c \<longleftrightarrow>
     distinct (qc_running c @ map fst (qc_finished_at c)) \<and>
     set (qc_running c) \<union> fst ` set (qc_finished_at c) = {1..qc_requests_made c} \<and>
     map fst (qc_started_at c) = [1..<Suc (qc_requests_made c)] \<and>
     set (qc_errored c) \<subseteq> fst ` set (qc_finished_at c) \<and>
     (0 < qc_requests_made c \<longrightarrow> 0 < streams)"

definition phase_ok :: "quic_conn \<Rightarrow> bool" where
  "phase_ok c \<longleftrightarrow>
     (case qc_phase c of
        Connecting \<Rightarrow> qc_requests_made c = 0
      | Joining k \<Rightarrow> 0 < k \<and> (\<forall>j. 0 < j \<and> j < k \<longrightarrow> j \<notin> set (qc_running c) \<and> j \<notin> set (qc_errored c))
      | Closed \<Rightarrow> qc_running c = [] \<and> qc_errored c = []
      | _ \<Rightarrow> True)"

definition streams_ok :: "nat \<Rightarrow> quic_conn \<Rightarrow> bool" where
  "streams_ok streams c \<longleftrightarrow>
     requests_ok streams c \<and> phase_ok c \<and>
     qc_permits c + length (qc_running c) + held_by_sleep c = streams"

definition no_longer_asking :: "quic_conn \<Rightarrow> bool" where
  "no_longer_asking c \<longleftrightarrow> (case qc_phase c of Joining k \<Rightarrow> True | Closed \<Rightarrow> True | _ \<Rightarrow> False)"

lemma conn_new_ok: "streams_ok (concurrent_streams_per_connection opts) (conn_new opts)"
  by (simp add: streams_ok_def requests_ok_def phase_ok_def conn_new_def held_by_sleep_def)

lemma requests_ok_update [simp]:
  "requests_ok streams (c\<lparr>qc_phase := ph\<rparr>) = requests_ok streams c"
  "requests_ok streams (c\<lparr>qc_permits := k\<rparr>) = requests_ok streams c"
  by (simp_all add: requests_ok_def)

lemma start_request_ok:
  assumes "requests_ok streams c" and "0 < streams"
  shows "requests_ok streams (start_request now c)"
proof -
  have "Suc (qc_requests_made c) \<notin> set (qc_running c) \<union> fst ` set (qc_finished_at c)"
    using assms(1) by (simp add: requests_ok_def)
  then show ?thesis
    using assms by (auto simp: requests_ok_def start_request_def Let_def atLeastAtMostSuc_conv)
qed

lemma start_request_frame [simp]:
  "qc_requests_made (start_request now c) = Suc (qc_requests_made c)"
  "qc_permits (start_request now c) = qc_permits c"
  "length (qc_running (start_request now c)) = Suc (length (qc_running c))"
  "qc_finished_at (start_request now c) = qc_finished_at c"
  by (simp_all add: start_request_def Let_def)

text \<open>What the loop over requests does to the shared number and to its connection.\<close>

definition asks :: "nat \<Rightarrow> nat \<Rightarrow> nat \<Rightarrow> nat \<times> quic_conn \<Rightarrow> bool" where
  "asks streams requests_left made r \<longleftrightarrow>
     streams_ok streams (snd r) \<and> fst r \<le> requests_left \<and>
     fst r + qc_requests_made (snd r) + claimed (snd r) = requests_left + made \<and>
     (no_longer_asking (snd r) \<longrightarrow> fst r = 0)"

lemma asks_one_more:
  "asks streams (requests_left - 1) (Suc made) r \<Longrightarrow> 0 < requests_left \<Longrightarrow> asks streams requests_left made r"
  by (auto simp: asks_def)

lemma make_requests_ok:
  assumes "requests_ok streams c" and "qc_permits c + length (qc_running c) = streams"
  shows "asks streams requests_left (qc_requests_made c) (make_requests interval now requests_left c)"
  using assms
proof (induction interval now requests_left c rule: make_requests.induct)
  case (1 interval now requests_left c)
  let ?c1 = "c\<lparr>qc_permits := qc_permits c - 1\<rparr>"
  consider (none) "requests_left = 0"
    | (wait) "0 < requests_left" "qc_permits c = 0"
    | (sleep) "0 < requests_left" "0 < qc_permits c" "0 < qc_requests_made c" "0 < interval"
    | (go) "0 < requests_left" "0 < qc_permits c" "qc_requests_made c = 0 \<or> interval = 0"
    by blast
  then show ?case
  proof cases
    case none
    then show ?thesis
      using "1.prems" by (simp add: make_requests_none asks_def streams_ok_def phase_ok_def claimed_def
          held_by_sleep_def)
  next
    case wait
    then show ?thesis
      using "1.prems" by (simp add: make_requests_wait asks_def streams_ok_def phase_ok_def claimed_def
          held_by_sleep_def no_longer_asking_def)
  next
    case sleep
    then show ?thesis
      using "1.prems" by (simp add: make_requests_sleep asks_def streams_ok_def phase_ok_def claimed_def
          held_by_sleep_def no_longer_asking_def)
  next
    case go
    have "0 < streams" using "1.prems"(2) go(2) by simp
    then have ok: "requests_ok streams (start_request now ?c1)"
      using "1.prems"(1) by (intro start_request_ok) simp_all
    have len: "qc_permits (start_request now ?c1) + length (qc_running (start_request now ?c1)) = streams"
      using "1.prems"(2) go(2) by simp
    have now: "requests_left \<noteq> 0" "qc_permits c \<noteq> 0" "\<not> (0 < qc_requests_made c \<and> interval \<noteq> 0)"
      using go by auto
    have made: "qc_requests_made ?c1 = qc_requests_made c" by simp
    note "1.IH" [OF now(1) now(2) refl now(3) ok len]
    then have "asks streams requests_left (qc_requests_made c)
        (make_requests interval now (requests_left - 1) (start_request now ?c1))"
      unfolding start_request_frame made by (rule asks_one_more [OF _ go(1)])
    then show ?thesis unfolding make_requests_go [OF go] .
  qed
qed

lemma permit_acquired_ok:
  assumes "streams_ok streams c" and "qc_phase c = AwaitPermit" and "qc_permits c \<noteq> 0"
  shows "asks streams requests_left (Suc (qc_requests_made c)) (permit_acquired interval now requests_left c)"
proof (cases "0 < qc_requests_made c \<and> interval \<noteq> 0")
  case True
  then show ?thesis
    using assms
    by (auto simp: permit_acquired_def asks_def streams_ok_def phase_ok_def claimed_def
        held_by_sleep_def no_longer_asking_def Let_def)
next
  case False
  let ?c1 = "c\<lparr>qc_permits := qc_permits c - 1\<rparr>"
  have "0 < streams" using assms by (simp add: streams_ok_def)
  then have "asks streams requests_left (qc_requests_made (start_request now ?c1))
      (make_requests interval now requests_left (start_request now ?c1))"
    using assms by (intro make_requests_ok start_request_ok)
      (auto simp: streams_ok_def held_by_sleep_def)
  with False show ?thesis by (auto simp: permit_acquired_def Let_def)
qed

lemma join_requests_frame [simp]:
  "qc_requests_made (join_requests k c) = qc_requests_made c"
  "qc_permits (join_requests k c) = qc_permits c"
  "qc_running (join_requests k c) = qc_running c"
  "qc_errored (join_requests k c) = qc_errored c"
  "qc_started_at (join_requests k c) = qc_started_at c"
  "qc_finished_at (join_requests k c) = qc_finished_at c"
  by (induction k c rule: join_requests.induct; subst join_requests.simps; simp)+

lemma join_requests_phase:
  assumes "requests_ok streams c" and "0 < k"
    and "\<forall>j. 0 < j \<and> j < k \<longrightarrow> j \<notin> set (qc_running c) \<and> j \<notin> set (qc_errored c)"
  shows "phase_ok (join_requests k c) \<and> qc_phase (join_requests k c) \<in> {Closed, Failed} \<union> range Joining"
  using assms
proof (induction k c rule: join_requests.induct)
  case (1 k c)
  show ?case
  proof (cases "qc_requests_made c < k")
    case True
    have "qc_running c = [] \<and> qc_errored c = []"
    proof -
      have in_range: "set (qc_running c) \<union> set (qc_errored c) \<subseteq> {1..qc_requests_made c}"
        using "1.prems"(1) unfolding requests_ok_def by blast
      have "set (qc_running c) \<union> set (qc_errored c) = {}"
      proof (rule equals0I)
        fix j
        assume j: "j \<in> set (qc_running c) \<union> set (qc_errored c)"
        with in_range have "j \<in> {1..qc_requests_made c}" by blast
        with True have "0 < j \<and> j < k" by simp
        with "1.prems"(3) j show False by blast
      qed
      then show ?thesis by simp
    qed
    with True show ?thesis by (simp add: join_requests.simps [of k c] phase_ok_def)
  next
    case False
    show ?thesis
    proof (cases "k \<in> set (qc_running c) \<or> k \<in> set (qc_errored c)")
      case True
      with False "1.prems" show ?thesis by (auto simp: join_requests.simps [of k c] phase_ok_def)
    next
      case False
      have "\<forall>j. 0 < j \<and> j < Suc k \<longrightarrow> j \<notin> set (qc_running c) \<and> j \<notin> set (qc_errored c)"
        using "1.prems"(3) False by (auto simp: less_Suc_eq)
      then have "phase_ok (join_requests (Suc k) c) \<and>
          qc_phase (join_requests (Suc k) c) \<in> {Closed, Failed} \<union> range Joining"
        using "1.IH" \<open>\<not> qc_requests_made c < k\<close> False "1.prems" by simp
      then show ?thesis using False \<open>\<not> qc_requests_made c < k\<close> by (simp add: join_requests.simps [of k c])
    qed
  qed
qed

section \<open>The invariant of the clients\<close>

definition clients_ok :: "quic_opt \<Rightarrow> quic_clients \<Rightarrow> bool" where
  "clients_ok opts s \<longleftrightarrow>
     length (ql_conns s) \<le> concurrent_connections opts \<and>
     (\<forall>c \<in> set (ql_conns s). streams_ok (concurrent_streams_per_connection opts) c \<and>
        (no_longer_asking c \<longrightarrow> ql_requests_left s = 0)) \<and>
     ql_requests_left s + (\<Sum>c \<leftarrow> ql_conns s. qc_requests_made c + claimed c) = qo_requests opts"

text \<open>A change of one connection that keeps its streams and asks for as many requests as it makes.\<close>

definition conn_step_ok :: "nat \<Rightarrow> (nat \<Rightarrow> quic_conn \<Rightarrow> nat \<times> quic_conn) \<Rightarrow> bool" where
  "conn_step_ok streams f \<longleftrightarrow>
     (\<forall>n c. streams_ok streams c \<and> (no_longer_asking c \<longrightarrow> n = 0) \<longrightarrow>
        asks streams n (qc_requests_made c + claimed c) (f n c))"

lemma clients_ok_at_conn:
  assumes "clients_ok opts s" and "conn_step_ok (concurrent_streams_per_connection opts) f"
  shows "clients_ok opts (at_conn i f s)"
proof (cases "i < length (ql_conns s)")
  case True
  let ?c = "ql_conns s ! i" and ?n = "ql_requests_left s"
  obtain n c where f: "f ?n ?c = (n, c)" by (cases "f ?n ?c")
  have "?c \<in> set (ql_conns s)" using True by simp
  then have "streams_ok (concurrent_streams_per_connection opts) ?c \<and> (no_longer_asking ?c \<longrightarrow> ?n = 0)"
    using assms(1) by (simp add: clients_ok_def)
  then have a: "asks (concurrent_streams_per_connection opts) ?n (qc_requests_made ?c + claimed ?c) (n, c)"
    using assms(2) f by (metis conn_step_ok_def)
  have "(\<Sum>c \<leftarrow> (ql_conns s)[i := c]. qc_requests_made c + claimed c) + (qc_requests_made ?c + claimed ?c) =
      (\<Sum>c \<leftarrow> ql_conns s. qc_requests_made c + claimed c) + (qc_requests_made c + claimed c)"
    using True elem_le_sum_list [of i "map (\<lambda>c. qc_requests_made c + claimed c) (ql_conns s)"]
    by (simp add: map_update sum_list_update)
  then have sum: "n + (\<Sum>c \<leftarrow> (ql_conns s)[i := c]. qc_requests_made c + claimed c) = qo_requests opts"
    using assms(1) a by (simp add: clients_ok_def asks_def)
  have "streams_ok (concurrent_streams_per_connection opts) d \<and> (no_longer_asking d \<longrightarrow> n = 0)"
    if d: "d \<in> set ((ql_conns s)[i := c])" for d
  proof (cases "d = c")
    case False
    then have "d \<in> set (ql_conns s)" using d set_update_subset_insert by fastforce
    then have "streams_ok (concurrent_streams_per_connection opts) d \<and> (no_longer_asking d \<longrightarrow> ?n = 0)"
      using assms(1) by (simp add: clients_ok_def)
    moreover have "n \<le> ?n" using a by (simp add: asks_def)
    ultimately show ?thesis by auto
  qed (use a in \<open>simp add: asks_def\<close>)
  with sum show ?thesis
    using assms(1) True by (simp add: clients_ok_def at_conn_def f)
qed (use assms(1) in \<open>simp add: at_conn_def\<close>)

lemma asks_refl:
  "streams_ok streams c \<Longrightarrow> (no_longer_asking c \<longrightarrow> n = 0) \<Longrightarrow>
   asks streams n (qc_requests_made c + claimed c) (n, c)"
  by (simp add: asks_def)

lemma connected_ok:
  "conn_step_ok streams (\<lambda>n c.
     if qc_phase c \<noteq> Connecting then (n, c)
     else if ok then make_requests interval now n c else (n, c\<lparr>qc_phase := Failed\<rparr>))"
  unfolding conn_step_ok_def
proof (intro allI impI)
  fix n :: nat and c
  assume a: "streams_ok streams c \<and> (no_longer_asking c \<longrightarrow> n = 0)"
  have fail: "asks streams n (qc_requests_made c + claimed c) (n, c\<lparr>qc_phase := Failed\<rparr>)"
    if "qc_phase c = Connecting"
    using a that by (simp add: asks_def streams_ok_def phase_ok_def claimed_def held_by_sleep_def
        no_longer_asking_def)
  have go: "asks streams n (qc_requests_made c + claimed c) (make_requests interval now n c)"
    if "qc_phase c = Connecting"
    using make_requests_ok [of streams c n interval now] a that
    by (simp add: streams_ok_def claimed_def held_by_sleep_def)
  show "asks streams n (qc_requests_made c + claimed c)
      (if qc_phase c \<noteq> Connecting then (n, c)
       else if ok then make_requests interval now n c else (n, c\<lparr>qc_phase := Failed\<rparr>))"
    using fail go asks_refl a by simp
qed

lemma resumed_ok: "conn_step_ok streams (resume_conn interval now)"
  unfolding conn_step_ok_def
proof (intro allI impI)
  fix n :: nat and c
  assume a: "streams_ok streams c \<and> (no_longer_asking c \<longrightarrow> n = 0)"
  have same: "asks streams n (qc_requests_made c + claimed c) (n, c)"
    using a by (intro asks_refl) simp_all
  show "asks streams n (qc_requests_made c + claimed c) (resume_conn interval now n c)"
  proof (cases "qc_phase c")
    case AwaitPermit
    then have "claimed c = 1" by (simp add: claimed_def)
    then show ?thesis
      using a same permit_acquired_ok [of streams c n interval now] AwaitPermit
      by (cases "qc_permits c = 0") (simp_all add: resume_conn_def)
  next
    case (Interval t)
    have "asks streams n (qc_requests_made (start_request now c)) (make_requests interval now n (start_request now c))"
      using a Interval
      by (intro make_requests_ok start_request_ok) (auto simp: streams_ok_def held_by_sleep_def)
    moreover have "claimed c = 1" using Interval by (simp add: claimed_def)
    ultimately show ?thesis using same Interval by (cases "t \<le> now") (simp_all add: resume_conn_def)
  next
    case (Joining k)
    have j: "phase_ok (join_requests k c)" "qc_phase (join_requests k c) \<in> {Closed, Failed} \<union> range Joining"
      using join_requests_phase [of streams c k] a Joining by (simp_all add: streams_ok_def phase_ok_def)
    then have "held_by_sleep (join_requests k c) = 0" "claimed (join_requests k c) = 0"
      by (auto simp: held_by_sleep_def claimed_def)
    then show ?thesis
      using a j Joining
      by (simp add: resume_conn_def asks_def streams_ok_def requests_ok_def held_by_sleep_def
          claimed_def no_longer_asking_def)
  qed (use same in \<open>simp_all add: resume_conn_def\<close>)
qed

lemma finish_request_ok:
  assumes "streams_ok streams c" and "k \<in> set (qc_running c)"
  shows "streams_ok streams (finish_request now k ok c)"
proof -
  have k: "k \<in> {1..qc_requests_made c}" "k \<notin> fst ` set (qc_finished_at c)" "distinct (qc_running c)"
    using assms by (auto simp: streams_ok_def requests_ok_def)
  have len: "Suc (length (remove1 k (qc_running c))) = length (qc_running c)"
    using assms(2) by (simp add: length_remove1) (cases "qc_running c", simp_all)
  have "requests_ok streams (finish_request now k ok c)"
    using assms k by (auto simp: streams_ok_def requests_ok_def finish_request_def)
  moreover have "phase_ok (finish_request now k ok c)"
    using assms by (auto simp: streams_ok_def phase_ok_def finish_request_def set_remove1_eq k(3)
        split: conn_phase.splits)
  ultimately show ?thesis
    using assms(1) len by (simp add: streams_ok_def finish_request_def held_by_sleep_def)
qed

lemma request_done_ok:
  "conn_step_ok streams (\<lambda>n c. (n, if k \<in> set (qc_running c) then finish_request now k ok c else c))"
  unfolding conn_step_ok_def asks_def
  by (auto simp: finish_request_ok)
    (simp_all add: finish_request_def claimed_def no_longer_asking_def)

lemma clients_ok_step:
  assumes "clients_ok opts s"
  shows "clients_ok opts (client_step opts lab s)"
proof (cases lab)
  case SpawnConn
  have "claimed (conn_new opts) = 0" "\<not> no_longer_asking (conn_new opts)" "qc_requests_made (conn_new opts) = 0"
    by (simp_all add: conn_new_def claimed_def no_longer_asking_def)
  with SpawnConn assms show ?thesis by (auto simp: client_step_def clients_ok_def conn_new_ok)
next
  case (ClientTick d)
  then show ?thesis using assms by (simp add: client_step_def clients_ok_def)
qed (use clients_ok_at_conn [OF assms] connected_ok resumed_ok request_done_ok in
    \<open>simp_all add: client_step_def\<close>)

lemma clients_ok_reach: "qc.reach opts s \<Longrightarrow> clients_ok opts s"
proof (erule qc.reach_invariant)
  show "clients_ok opts s" if "\<exists>now. s = clients_new opts now" for s
    using that by (auto simp: clients_ok_def clients_new_def)
qed (simp add: clients_ok_step)

lemma client_run_reach: "qc.reach opts s \<Longrightarrow> qc.reach opts (client_run opts labs s)"
proof (induction labs arbitrary: s)
  case (Cons lab labs)
  have "qc.reach opts (client_step opts lab s)" by (rule qc.reach_step [OF Cons.prems refl])
  then show ?case using Cons.IH by (simp add: client_run_def)
qed (simp add: client_run_def)

section \<open>Requests are accounted for\<close>

text \<open>
  At every moment the requests left, made and claimed by a connection that waits are the
  configured number, no connection has more requests in the air than streams, and it numbers its
  requests one after the other.
\<close>

lemma requests_accounted:
  assumes "qc.reach opts s"
  shows "ql_requests_left s + (\<Sum>c \<leftarrow> ql_conns s. qc_requests_made c + claimed c) = qo_requests opts \<and>
    (\<forall>c \<in> set (ql_conns s). length (qc_running c) \<le> concurrent_streams_per_connection opts \<and>
       map fst (qc_started_at c) = [1..<Suc (qc_requests_made c)])"
  using clients_ok_reach [OF assms] by (auto simp: clients_ok_def streams_ok_def requests_ok_def)

definition sample_network :: network_opt where
  "sample_network = network_opt_default (V4 1) (V4 2) ''graph.json'' ''events.json''"

definition two_connections :: quic_opt where
  "two_connections = (quic_opt_default sample_network)\<lparr>qo_requests := 3, concurrent_connections := 2,
     concurrent_streams_per_connection := 1\<rparr>"

definition two_connections_run :: "client_label list" where
  "two_connections_run =
     [SpawnConn, Connected 0 True, ClientTick (millis 1), SpawnConn, Connected 1 True,
      RequestDone 0 1 True, ResumeConn 0, RequestDone 1 1 True, ResumeConn 1,
      RequestDone 0 2 True, ResumeConn 0]"

lemma two_connections_reach:
  "qc.reach two_connections (client_run two_connections labs (clients_new two_connections 0))"
  by (intro client_run_reach qc.reach_initial) blast

lemma all_closed_requests:
  assumes "clients_ok opts s" and "all_closed opts s" and "0 < concurrent_connections opts"
  shows "(\<Sum>c \<leftarrow> ql_conns s. qc_requests_made c) = qo_requests opts"
proof -
  have closed: "claimed c = 0 \<and> no_longer_asking c" if "c \<in> set (ql_conns s)" for c
    using assms(2) that by (simp add: all_closed_def claimed_def no_longer_asking_def)
  have "ql_conns s \<noteq> []" using assms(2,3) by (auto simp: all_closed_def)
  then have left: "ql_requests_left s = 0"
    using assms(1) closed by (cases "ql_conns s") (auto simp: clients_ok_def)
  have eq: "map (\<lambda>c. qc_requests_made c + claimed c) (ql_conns s) = map qc_requests_made (ql_conns s)"
    using closed by simp
  have "ql_requests_left s + (\<Sum>c \<leftarrow> ql_conns s. qc_requests_made c + claimed c) = qo_requests opts"
    using assms(1) by (simp add: clients_ok_def)
  then show ?thesis using left unfolding eq by simp
qed

lemma closed_conn_finished:
  assumes "clients_ok opts s" and "all_closed opts s" and "c \<in> set (ql_conns s)"
  shows "qc_errored c = []" and "distinct (map fst (qc_finished_at c))"
    and "fst ` set (qc_finished_at c) = {1..qc_requests_made c}"
proof -
  have "streams_ok (concurrent_streams_per_connection opts) c" "qc_phase c = Closed"
    using assms by (auto simp: clients_ok_def all_closed_def)
  then show "qc_errored c = []" "distinct (map fst (qc_finished_at c))"
    "fst ` set (qc_finished_at c) = {1..qc_requests_made c}"
    by (auto simp: streams_ok_def phase_ok_def requests_ok_def)
qed

text \<open>
  C33. When every connection has closed without an error, the connections together made exactly the
  configured number of requests, and each request they made ended once and successfully.
\<close>

theorem clean_finish:
  assumes "qc.reach opts s" and "all_closed opts s" and "0 < concurrent_connections opts"
  shows "(\<Sum>c \<leftarrow> ql_conns s. qc_requests_made c) = qo_requests opts \<and>
    (\<forall>c \<in> set (ql_conns s). qc_errored c = [] \<and> distinct (map fst (qc_finished_at c)) \<and>
       fst ` set (qc_finished_at c) = {1..qc_requests_made c})"
proof -
  have ok: "clients_ok opts s" by (rule clients_ok_reach [OF assms(1)])
  from all_closed_requests [OF ok assms(2,3)] closed_conn_finished [OF ok assms(2)] show ?thesis by blast
qed

theorem clean_finish_witness:
  "let s = client_run two_connections two_connections_run (clients_new two_connections 0)
   in all_closed two_connections s \<and> (\<Sum>c \<leftarrow> ql_conns s. qc_requests_made c) = 3 \<and>
      map qc_requests_made (ql_conns s) = [2, 1]"
proof -
  let ?s = "client_run two_connections two_connections_run (clients_new two_connections 0)"
  have "all_closed two_connections ?s \<and> map qc_requests_made (ql_conns ?s) = [2, 1]"
    by code_simp
  then show ?thesis
    using clean_finish [OF two_connections_reach [of two_connections_run]]
    by (simp add: Let_def two_connections_def)
qed

text \<open>
  With no stream per connection, no request is ever made and a run that has requests to make
  does not finish: a connection takes its first request and waits for a permit that never comes.
\<close>

lemma no_streams_hang:
  assumes "qc.reach opts s" and "concurrent_streams_per_connection opts = 0"
    and "0 < qo_requests opts" and "0 < concurrent_connections opts"
  shows "(\<forall>c \<in> set (ql_conns s). qc_requests_made c = 0) \<and> \<not> all_closed opts s"
proof
  show none: "\<forall>c \<in> set (ql_conns s). qc_requests_made c = 0"
    using clients_ok_reach [OF assms(1)] assms(2)
    by (auto simp: clients_ok_def streams_ok_def requests_ok_def)
  show "\<not> all_closed opts s"
  proof
    assume "all_closed opts s"
    then have "(\<Sum>c \<leftarrow> ql_conns s. qc_requests_made c) = qo_requests opts"
      by (rule all_closed_requests [OF clients_ok_reach [OF assms(1)] _ assms(4)])
    moreover have "(\<Sum>c \<leftarrow> ql_conns s. qc_requests_made c) = 0" using none by simp
    ultimately show False using assms(3) by simp
  qed
qed

section \<open>The interval between requests\<close>

text \<open>
  With one stream, a request starts when none is running; it starts the interval after every request
  before it has ended.
\<close>

definition spaced :: "duration \<Rightarrow> instant \<Rightarrow> quic_conn \<Rightarrow> bool" where
  "spaced interval now c \<longleftrightarrow>
     (\<forall>(k, t) \<in> set (qc_started_at c). \<forall>(j, u) \<in> set (qc_finished_at c). j < k \<longrightarrow> u + interval \<le> t) \<and>
     (\<forall>(j, u) \<in> set (qc_finished_at c). u \<le> now) \<and>
     (qc_running c = [] \<or> qc_running c = [qc_requests_made c]) \<and>
     (\<forall>(k, t) \<in> set (qc_started_at c). k \<le> qc_requests_made c) \<and>
     (\<forall>t. qc_phase c = Interval t \<longrightarrow> (\<forall>(j, u) \<in> set (qc_finished_at c). u + interval \<le> t))"

lemma spaced_later: "spaced interval now c \<Longrightarrow> now \<le> now' \<Longrightarrow> spaced interval now' c"
  by (fastforce simp: spaced_def)

lemma spaced_phase:
  "spaced interval now c \<Longrightarrow> (\<And>t. ph \<noteq> Interval t) \<Longrightarrow> spaced interval now (c\<lparr>qc_phase := ph\<rparr>)"
  by (simp add: spaced_def)

lemma spaced_permits: "spaced interval now (c\<lparr>qc_permits := k\<rparr>) = spaced interval now c"
  by (simp add: spaced_def)

lemma spaced_sleep:
  "spaced interval now c \<Longrightarrow> spaced interval now (c\<lparr>qc_phase := Interval (now + interval)\<rparr>)"
  by (auto simp: spaced_def)

lemma spaced_start:
  assumes "spaced interval now c" and "qc_running c = []" and "\<And>t. qc_phase c \<noteq> Interval t"
    and "\<forall>(j, u) \<in> set (qc_finished_at c). u + interval \<le> now"
  shows "spaced interval now (start_request now c)"
  using assms by (fastforce simp: spaced_def start_request_def Let_def)

lemma only_permit: "p + length xs = 1 \<Longrightarrow> 0 < p \<Longrightarrow> xs = []"
  by (cases xs) auto

text \<open>From a connection that may start at once.\<close>

lemma spaced_make_requests:
  assumes "spaced interval now c" and "\<And>t. qc_phase c \<noteq> Interval t"
    and "qc_permits c + length (qc_running c) = 1"
    and "qc_requests_made c = 0 \<Longrightarrow> qc_finished_at c = []"
  shows "spaced interval now (snd (make_requests interval now n c))"
  using assms
proof (induction interval now n c rule: make_requests.induct)
  case (1 interval now n c)
  let ?c1 = "c\<lparr>qc_permits := qc_permits c - 1\<rparr>"
  consider (none) "n = 0"
    | (wait) "0 < n" "qc_permits c = 0"
    | (sleep) "0 < n" "0 < qc_permits c" "0 < qc_requests_made c" "0 < interval"
    | (go) "0 < n" "0 < qc_permits c" "qc_requests_made c = 0 \<or> interval = 0"
    by blast
  then show ?case
  proof cases
    case none
    then show ?thesis using "1.prems"(1) by (simp add: make_requests_none spaced_phase)
  next
    case wait
    then show ?thesis using "1.prems"(1) by (simp add: make_requests_wait spaced_phase)
  next
    case sleep
    have "spaced interval now (?c1\<lparr>qc_phase := Interval (now + interval)\<rparr>)"
      using "1.prems"(1) by (intro spaced_sleep) (simp add: spaced_permits)
    then show ?thesis unfolding make_requests_sleep [OF sleep] by simp
  next
    case go
    let ?c2 = "start_request now ?c1"
    have running: "qc_running c = []" by (rule only_permit [OF "1.prems"(3) go(2)])
    have finished: "\<forall>(j, u) \<in> set (qc_finished_at c). u + interval \<le> now"
      using go(3) "1.prems"(1,4) by (auto simp: spaced_def)
    have s: "spaced interval now ?c2"
      using "1.prems"(1,2) running finished by (intro spaced_start) (auto simp: spaced_permits)
    have p: "qc_phase ?c2 \<noteq> Interval t" for t
      using "1.prems"(2) by (simp add: start_request_def Let_def)
    have l: "qc_permits ?c2 + length (qc_running ?c2) = 1" using "1.prems"(3) go(2) running by simp
    have now: "n \<noteq> 0" "qc_permits c \<noteq> 0" "\<not> (0 < qc_requests_made c \<and> interval \<noteq> 0)"
      using go by auto
    have "qc_requests_made ?c2 = 0 \<Longrightarrow> qc_finished_at ?c2 = []" by simp
    from "1.IH" [OF now(1) now(2) refl now(3) s p l this]
    show ?thesis unfolding make_requests_go [OF go] .
  qed
qed

lemma finished_none: "streams_ok streams c \<Longrightarrow> qc_requests_made c = 0 \<Longrightarrow> qc_finished_at c = []"
  by (auto simp: streams_ok_def requests_ok_def)

definition keeps_spaced :: "duration \<Rightarrow> instant \<Rightarrow> (nat \<Rightarrow> quic_conn \<Rightarrow> nat \<times> quic_conn) \<Rightarrow> bool" where
  "keeps_spaced interval now f \<longleftrightarrow>
     (\<forall>n c. streams_ok 1 c \<and> spaced interval now c \<longrightarrow> spaced interval now (snd (f n c)))"

lemma spaced_connected:
  "keeps_spaced interval now (\<lambda>n c.
     if qc_phase c \<noteq> Connecting then (n, c)
     else if ok then make_requests interval now n c else (n, c\<lparr>qc_phase := Failed\<rparr>))"
  unfolding keeps_spaced_def
proof (intro allI impI)
  fix n :: nat and c
  assume a: "streams_ok 1 c \<and> spaced interval now c"
  have "spaced interval now (snd (make_requests interval now n c))" if "qc_phase c = Connecting"
    using a that finished_none by (intro spaced_make_requests) (auto simp: streams_ok_def held_by_sleep_def)
  then show "spaced interval now (snd (if qc_phase c \<noteq> Connecting then (n, c)
     else if ok then make_requests interval now n c else (n, c\<lparr>qc_phase := Failed\<rparr>)))"
    using a by (simp add: spaced_phase)
qed

lemma spaced_permit_acquired:
  assumes "streams_ok 1 c" and "spaced interval now c" and "qc_phase c = AwaitPermit" and "qc_permits c \<noteq> 0"
  shows "spaced interval now (snd (permit_acquired interval now n c))"
proof (cases "0 < qc_requests_made c \<and> interval \<noteq> 0")
  case True
  have "spaced interval now (c\<lparr>qc_permits := qc_permits c - 1, qc_phase := Interval (now + interval)\<rparr>)"
    using assms(2) by (intro spaced_sleep) (simp add: spaced_permits)
  with True show ?thesis by (simp add: permit_acquired_def Let_def)
next
  case False
  let ?c1 = "c\<lparr>qc_permits := qc_permits c - 1\<rparr>"
  have sum: "qc_permits c + length (qc_running c) = 1"
    using assms(1,3) by (simp add: streams_ok_def held_by_sleep_def)
  then have running: "qc_running c = []" using assms(4) by (intro only_permit) simp_all
  have finished: "\<forall>(j, u) \<in> set (qc_finished_at c). u + interval \<le> now"
    using False assms(2) finished_none [OF assms(1)] by (auto simp: spaced_def)
  have s: "spaced interval now (start_request now ?c1)"
    using assms(2,3) running finished by (intro spaced_start) (auto simp: spaced_permits)
  have "spaced interval now (snd (make_requests interval now n (start_request now ?c1)))"
    using sum running assms(3,4) by (intro spaced_make_requests s) (auto simp: start_request_def Let_def)
  with False show ?thesis by (auto simp: permit_acquired_def Let_def)
qed

lemma spaced_wake:
  assumes "streams_ok 1 c" and "spaced interval now c" and "qc_phase c = Interval t" and "t \<le> now"
  shows "spaced interval now (snd (make_requests interval now n (start_request now c)))"
proof -
  have held: "qc_permits c = 0" "qc_running c = []"
    using assms(1,3) by (simp_all add: streams_ok_def held_by_sleep_def)
  have finished: "\<forall>(j, u) \<in> set (qc_finished_at c). u + interval \<le> now"
    using assms(2-4) by (fastforce simp: spaced_def)
  have s: "spaced interval now ((start_request now c)\<lparr>qc_phase := AwaitPermit\<rparr>)"
  proof -
    have "(start_request now c)\<lparr>qc_phase := AwaitPermit\<rparr> = start_request now (c\<lparr>qc_phase := AwaitPermit\<rparr>)"
      by (simp add: start_request_def Let_def)
    then show ?thesis
      using assms(2) held finished by (simp only:) (intro spaced_start spaced_phase, auto)
  qed
  show ?thesis
  proof (cases n)
    case 0
    have "spaced interval now ((start_request now c)\<lparr>qc_phase := Joining 1\<rparr>)"
      using spaced_phase [OF s, of "Joining 1"] by simp
    then show ?thesis unfolding 0 by (simp add: make_requests_none)
  next
    case (Suc m)
    have "make_requests interval now n (start_request now c) =
        (n - 1, (start_request now c)\<lparr>qc_phase := AwaitPermit\<rparr>)"
      using Suc held(1) by (intro make_requests_wait) simp_all
    with s show ?thesis by simp
  qed
qed

lemma spaced_join:
  assumes "streams_ok 1 c" and "spaced interval now c" and "qc_phase c = Joining k"
  shows "spaced interval now (join_requests k c)"
proof -
  have "qc_phase (join_requests k c) \<noteq> Interval t" for t
    using join_requests_phase [of 1 c k] assms by (auto simp: streams_ok_def phase_ok_def)
  then show ?thesis using assms(2) by (simp add: spaced_def)
qed

lemma spaced_resumed: "keeps_spaced interval now (resume_conn interval now)"
  unfolding keeps_spaced_def
  by (auto simp: resume_conn_def spaced_permit_acquired spaced_wake spaced_join split: conn_phase.splits)

lemma spaced_request_done:
  "keeps_spaced interval now (\<lambda>n c. (n, if k \<in> set (qc_running c) then finish_request now k ok c else c))"
  unfolding keeps_spaced_def
proof (intro allI impI)
  fix n :: nat and c
  assume a: "streams_ok 1 c \<and> spaced interval now c"
  have "spaced interval now (finish_request now k ok c)" if k: "k \<in> set (qc_running c)"
  proof -
    have r: "qc_running c = [k]" "k = qc_requests_made c" using a k by (auto simp: spaced_def)
    then have "qc_phase c \<noteq> Interval t" for t
      using a by (auto simp: streams_ok_def held_by_sleep_def)
    with a r show ?thesis by (fastforce simp: spaced_def finish_request_def)
  qed
  with a show "spaced interval now (snd (n, if k \<in> set (qc_running c) then finish_request now k ok c else c))"
    by simp
qed

definition all_spaced :: "quic_opt \<Rightarrow> quic_clients \<Rightarrow> bool" where
  "all_spaced opts s \<longleftrightarrow> (\<forall>c \<in> set (ql_conns s). spaced (request_interval opts) (ql_now s) c)"

lemma all_spaced_at_conn:
  assumes "clients_ok opts s" and "concurrent_streams_per_connection opts = 1" and "all_spaced opts s"
    and "keeps_spaced (request_interval opts) (ql_now s) f"
  shows "all_spaced opts (at_conn i f s)"
proof (cases "i < length (ql_conns s)")
  case True
  let ?c = "ql_conns s ! i" and ?r = "f (ql_requests_left s) (ql_conns s ! i)"
  have "?c \<in> set (ql_conns s)" using True by simp
  then have "spaced (request_interval opts) (ql_now s) (snd ?r)"
    using assms by (auto simp: clients_ok_def all_spaced_def keeps_spaced_def)
  moreover have "d = snd ?r \<or> d \<in> set (ql_conns s)" if "d \<in> set ((ql_conns s)[i := snd ?r])" for d
    using that set_update_subset_insert by fastforce
  ultimately show ?thesis
    using assms(3) True by (auto simp: all_spaced_def at_conn_def case_prod_beta)
qed (use assms(3) in \<open>simp add: at_conn_def\<close>)

lemma all_spaced_step:
  assumes "clients_ok opts s" and "concurrent_streams_per_connection opts = 1" and "all_spaced opts s"
  shows "all_spaced opts (client_step opts lab s)"
proof (cases lab)
  case (ClientTick d)
  then show ?thesis using assms(3) by (auto simp: client_step_def all_spaced_def intro: spaced_later)
next
  case SpawnConn
  then show ?thesis
    using assms(3) by (auto simp: client_step_def all_spaced_def conn_new_def spaced_def)
qed (use all_spaced_at_conn [OF assms] spaced_connected spaced_resumed spaced_request_done in
    \<open>simp_all add: client_step_def\<close>)

text \<open>
  C34. A run whose options were accepted with an interval between requests keeps it on every
  connection: a request starts no earlier than the interval after each request before it ended.
\<close>

theorem interval_kept:
  assumes "validate_opts opts" and "request_interval_ms opts = Some ms" and "0 < ms"
    and "qc.reach opts s" and "c \<in> set (ql_conns s)"
    and "(k, t) \<in> set (qc_started_at c)" and "(j, u) \<in> set (qc_finished_at c)" and "j < k"
  shows "u + millis ms \<le> t"
proof -
  have one: "concurrent_streams_per_connection opts = 1" using assms(1-3) by (simp add: validate_opts_def)
  have "clients_ok opts s \<and> all_spaced opts s"
    using assms(4)
  proof (rule qc.reach_invariant)
    show "clients_ok opts s \<and> all_spaced opts s" if "\<exists>now. s = clients_new opts now" for s
      using that by (auto simp: clients_ok_def clients_new_def all_spaced_def)
  qed (use one in \<open>auto simp: clients_ok_step all_spaced_step\<close>)
  then have "spaced (request_interval opts) (ql_now s) c" using assms(5) by (simp add: all_spaced_def)
  then show ?thesis using assms(2,6-8) by (fastforce simp: spaced_def request_interval_def)
qed

definition slow_requests :: quic_opt where
  "slow_requests = (quic_opt_default sample_network)\<lparr>qo_requests := 2, request_interval_ms := Some 100\<rparr>"

definition slow_requests_run :: "client_label list" where
  "slow_requests_run =
     [SpawnConn, Connected 0 True, ClientTick 7, RequestDone 0 1 True, ResumeConn 0,
      ClientTick (millis 100), ResumeConn 0]"

theorem interval_kept_witness:
  "let c = ql_conns (client_run slow_requests slow_requests_run (clients_new slow_requests 0)) ! 0
   in qc_finished_at c = [(1, 7)] \<and> (\<exists>t. (2, t) \<in> set (qc_started_at c) \<and> 7 + millis 100 \<le> t)"
proof -
  let ?s = "client_run slow_requests slow_requests_run (clients_new slow_requests 0)"
  let ?c = "ql_conns ?s ! 0"
  have r: "qc.reach slow_requests ?s" by (intro client_run_reach qc.reach_initial) blast
  have run: "qc_finished_at ?c = [(1, 7)]" "map fst (qc_started_at ?c) = [1, 2]" "length (ql_conns ?s) = 1"
    by code_simp+
  then obtain t where t: "(2, t) \<in> set (qc_started_at ?c)" by (cases "qc_started_at ?c") auto
  have "?c \<in> set (ql_conns ?s)" using run(3) by simp
  from interval_kept [OF _ _ _ r this t, of 100 1 7] run(1) t show ?thesis
    by (auto simp: Let_def slow_requests_def validate_opts_def quic_opt_default_def)
qed

end
