(* ===== verification/Quic_Progress.thy ===== *)
theory Quic_Progress
  imports Quic_Client
begin

text \<open>
  The client tasks of the QUIC simulation do not deadlock. A weight counts what a run still has to
  do; from every state in which no request and no connection has failed, some further steps
  lower it until all connections have closed.
\<close>

section \<open>What is left to do\<close>

fun phase_weight :: "conn_phase \<Rightarrow> nat" where
  "phase_weight Connecting = 3"
| "phase_weight AwaitPermit = 5"
| "phase_weight (Interval t) = 4"
| "phase_weight (Joining k) = 1"
| "phase_weight Closed = 0"
| "phase_weight Failed = 0"

definition conn_weight :: "quic_conn \<Rightarrow> nat" where
  "conn_weight c = length (qc_running c) + phase_weight (qc_phase c)"

definition clients_weight :: "quic_opt \<Rightarrow> quic_clients \<Rightarrow> nat" where
  "clients_weight opts s =
     4 * (concurrent_connections opts - length (ql_conns s)) + 4 * ql_requests_left s +
     (\<Sum>c \<leftarrow> ql_conns s. conn_weight c)"

definition healthy_conn :: "quic_conn \<Rightarrow> bool" where
  "healthy_conn c \<longleftrightarrow> qc_phase c \<noteq> Failed \<and> qc_errored c = []"

definition healthy :: "quic_clients \<Rightarrow> bool" where
  "healthy s \<longleftrightarrow> (\<forall>c \<in> set (ql_conns s). healthy_conn c)"

text \<open>The outcome of a step of one connection, against a bound on the work left.\<close>

definition lighter :: "nat \<Rightarrow> nat \<times> quic_conn \<Rightarrow> bool" where
  "lighter w r \<longleftrightarrow> healthy_conn (snd r) \<and> 4 * fst r + conn_weight (snd r) < w"

lemma lighter_mono: "lighter v r \<Longrightarrow> v \<le> w \<Longrightarrow> lighter w r"
  by (simp add: lighter_def)

lemma make_requests_lighter:
  assumes "qc_errored c = []"
  shows "lighter (4 * n + length (qc_running c) + 2) (make_requests interval now n c)"
  using assms
proof (induction interval now n c rule: make_requests.induct)
  case (1 interval now n c)
  let ?c1 = "c\<lparr>qc_permits := qc_permits c - 1\<rparr>"
  consider (none) "n = 0"
    | (wait) "0 < n" "qc_permits c = 0"
    | (sleep) "0 < n" "0 < qc_permits c" "0 < qc_requests_made c" "0 < interval"
    | (go) "0 < n" "0 < qc_permits c" "qc_requests_made c = 0 \<or> interval = 0"
    by blast
  then show ?case
  proof cases
    case go
    let ?c2 = "start_request now ?c1"
    have errored: "qc_errored ?c2 = []" using "1.prems" by (simp add: start_request_def Let_def)
    have now: "n \<noteq> 0" "qc_permits c \<noteq> 0" "\<not> (0 < qc_requests_made c \<and> interval \<noteq> 0)"
      using go by auto
    have w: "4 * (n - 1) + length (qc_running ?c2) + 2 \<le> 4 * n + length (qc_running c) + 2"
      using go(1) by simp
    show ?thesis
      unfolding make_requests_go [OF go]
      by (rule lighter_mono [OF "1.IH" [OF now(1) now(2) refl now(3) errored] w])
  qed (use "1.prems" in \<open>simp_all add: make_requests_none make_requests_wait make_requests_sleep
      lighter_def healthy_conn_def conn_weight_def\<close>)
qed

lemma permit_acquired_lighter:
  assumes "qc_phase c = AwaitPermit" and "qc_errored c = []"
  shows "lighter (4 * n + conn_weight c) (permit_acquired interval now n c)"
proof (cases "0 < qc_requests_made c \<and> interval \<noteq> 0")
  case True
  then show ?thesis
    using assms by (simp add: permit_acquired_def Let_def lighter_def healthy_conn_def conn_weight_def)
next
  case False
  let ?c2 = "start_request now (c\<lparr>qc_permits := qc_permits c - 1\<rparr>)"
  have "lighter (4 * n + length (qc_running ?c2) + 2) (make_requests interval now n ?c2)"
    using assms(2) by (intro make_requests_lighter) (simp add: start_request_def Let_def)
  then have "lighter (4 * n + conn_weight c) (make_requests interval now n ?c2)"
    using assms(1) by (elim lighter_mono) (simp add: conn_weight_def)
  with False show ?thesis by (auto simp: permit_acquired_def Let_def)
qed

section \<open>A step that makes progress\<close>

definition progress_step :: "nat \<Rightarrow> (nat \<Rightarrow> quic_conn \<Rightarrow> nat \<times> quic_conn) \<Rightarrow> quic_clients \<Rightarrow> bool" where
  "progress_step i f s \<longleftrightarrow>
     i < length (ql_conns s) \<and>
     lighter (4 * ql_requests_left s + conn_weight (ql_conns s ! i)) (f (ql_requests_left s) (ql_conns s ! i))"

lemma progress_at_conn:
  assumes "progress_step i f s" and "healthy s"
  shows "healthy (at_conn i f s) \<and> clients_weight opts (at_conn i f s) < clients_weight opts s"
proof -
  let ?c = "ql_conns s ! i" and ?n = "ql_requests_left s"
  obtain n c where f: "f ?n ?c = (n, c)" by (cases "f ?n ?c")
  have i: "i < length (ql_conns s)" and l: "healthy_conn c" "4 * n + conn_weight c < 4 * ?n + conn_weight ?c"
    using assms(1) by (auto simp: progress_step_def lighter_def f)
  have "healthy (at_conn i f s)"
    using assms(2) i l(1) set_update_subset_insert [of "ql_conns s" i c]
    by (auto simp: healthy_def at_conn_def f)
  moreover have "(\<Sum>c \<leftarrow> (ql_conns s)[i := c]. conn_weight c) + conn_weight ?c =
      (\<Sum>c \<leftarrow> ql_conns s. conn_weight c) + conn_weight c"
    using i elem_le_sum_list [of i "map conn_weight (ql_conns s)"]
    by (simp add: map_update sum_list_update)
  ultimately show ?thesis using i l(2) by (simp add: clients_weight_def at_conn_def f)
qed

lemma request_done_progress:
  assumes "i < length (ql_conns s)" and "k \<in> set (qc_running (ql_conns s ! i))" and "healthy s"
  shows "progress_step i (\<lambda>n c. (n, if k \<in> set (qc_running c) then finish_request now k True c else c)) s"
proof -
  let ?c = "ql_conns s ! i"
  have "healthy_conn ?c" using assms(1,3) by (simp add: healthy_def)
  moreover have "length (remove1 k (qc_running ?c)) < length (qc_running ?c)"
    using assms(2) by (simp add: length_remove1) (cases "qc_running ?c", simp_all)
  ultimately show ?thesis
    using assms(1,2)
    by (simp add: progress_step_def lighter_def healthy_conn_def conn_weight_def finish_request_def)
qed

lemma join_requests_idle:
  assumes "qc_running c = []" and "qc_errored c = []"
  shows "join_requests k c = c\<lparr>qc_phase := Closed\<rparr>"
  using assms by (induction k c rule: join_requests.induct) (subst join_requests.simps, simp)

text \<open>A connection with no request in the air and time to wake up goes on.\<close>

lemma resume_progress:
  assumes "i < length (ql_conns s)" and "qc_running (ql_conns s ! i) = []" and "healthy s"
    and "0 < streams" and "streams_ok streams (ql_conns s ! i)"
    and "qc_phase (ql_conns s ! i) \<notin> {Connecting, Closed}"
    and "\<And>t. qc_phase (ql_conns s ! i) = Interval t \<Longrightarrow> t \<le> now"
  shows "progress_step i (resume_conn interval now) s"
proof -
  let ?c = "ql_conns s ! i" and ?n = "ql_requests_left s"
  have h: "qc_errored ?c = []" "qc_phase ?c \<noteq> Failed"
    using assms(1,3) by (simp_all add: healthy_def healthy_conn_def)
  have "lighter (4 * ?n + conn_weight ?c) (resume_conn interval now ?n ?c)"
  proof (cases "qc_phase ?c")
    case AwaitPermit
    then have "qc_permits ?c \<noteq> 0" using assms(2,4,5) by (simp add: streams_ok_def held_by_sleep_def)
    with AwaitPermit h show ?thesis by (simp add: resume_conn_def permit_acquired_lighter)
  next
    case (Interval t)
    let ?c2 = "start_request now ?c"
    have "lighter (4 * ?n + length (qc_running ?c2) + 2) (make_requests interval now ?n ?c2)"
      using h by (intro make_requests_lighter) (simp add: start_request_def Let_def)
    then have "lighter (4 * ?n + conn_weight ?c) (make_requests interval now ?n ?c2)"
      using Interval by (elim lighter_mono) (simp add: conn_weight_def)
    with Interval assms(7) show ?thesis by (simp add: resume_conn_def)
  next
    case (Joining k)
    with h assms(2) show ?thesis
      by (simp add: resume_conn_def join_requests_idle lighter_def healthy_conn_def conn_weight_def)
  qed (use assms(6) h in simp_all)
  with assms(1) show ?thesis by (simp add: progress_step_def)
qed

lemma connected_progress:
  assumes "i < length (ql_conns s)" and "healthy s" and "qc_phase (ql_conns s ! i) = Connecting"
  shows "progress_step i (\<lambda>n c.
     if qc_phase c \<noteq> Connecting then (n, c)
     else if True then make_requests interval now n c else (n, c\<lparr>qc_phase := Failed\<rparr>)) s"
proof -
  let ?c = "ql_conns s ! i" and ?n = "ql_requests_left s"
  have "lighter (4 * ?n + length (qc_running ?c) + 2) (make_requests interval now ?n ?c)"
    using assms(1,2) by (intro make_requests_lighter) (simp add: healthy_def healthy_conn_def)
  then have "lighter (4 * ?n + conn_weight ?c) (make_requests interval now ?n ?c)"
    using assms(3) by (elim lighter_mono) (simp add: conn_weight_def)
  then show ?thesis using assms(1,3) by (simp add: progress_step_def)
qed

lemma tick_frame [simp]:
  "ql_conns (client_step opts (ClientTick d) s) = ql_conns s"
  "ql_now (client_step opts (ClientTick d) s) = ql_now s + d"
  "healthy (client_step opts (ClientTick d) s) = healthy s"
  "clients_weight opts (client_step opts (ClientTick d) s) = clients_weight opts s"
  by (simp_all add: client_step_def healthy_def clients_weight_def)

lemma clients_progress:
  assumes "clients_ok opts s" and "healthy s" and "0 < concurrent_streams_per_connection opts"
    and "\<not> all_closed opts s"
  shows "\<exists>labs. healthy (client_run opts labs s) \<and>
     clients_weight opts (client_run opts labs s) < clients_weight opts s"
proof (cases "length (ql_conns s) < concurrent_connections opts")
  case True
  let ?labs = "[ClientTick (ql_start s + millis (length (ql_conns s))), SpawnConn]"
  have "healthy (client_run opts ?labs s) \<and> clients_weight opts (client_run opts ?labs s) < clients_weight opts s"
    using True assms(2)
    by (simp add: client_run_def client_step_def healthy_def healthy_conn_def clients_weight_def
        conn_new_def conn_weight_def)
  then show ?thesis by blast
next
  case False
  then have "length (ql_conns s) = concurrent_connections opts"
    using assms(1) by (simp add: clients_ok_def)
  with assms(4) obtain i where i: "i < length (ql_conns s)" "qc_phase (ql_conns s ! i) \<noteq> Closed"
    by (auto simp: all_closed_def in_set_conv_nth)
  let ?c = "ql_conns s ! i"
  have ok: "streams_ok (concurrent_streams_per_connection opts) ?c"
    using assms(1) i(1) by (simp add: clients_ok_def)
  consider (busy) k where "k \<in> set (qc_running ?c)" | (new) "qc_phase ?c = Connecting"
    | (idle) "qc_running ?c = []" "qc_phase ?c \<noteq> Connecting"
    by (cases "qc_running ?c") auto
  then show ?thesis
  proof cases
    case (busy k)
    have "healthy (client_run opts [RequestDone i k True] s) \<and>
        clients_weight opts (client_run opts [RequestDone i k True] s) < clients_weight opts s"
      using progress_at_conn [OF request_done_progress [OF i(1) busy assms(2)] assms(2)]
      by (simp add: client_run_def client_step_def)
    then show ?thesis by blast
  next
    case new
    have "healthy (client_run opts [Connected i True] s) \<and>
        clients_weight opts (client_run opts [Connected i True] s) < clients_weight opts s"
      using progress_at_conn [OF connected_progress [OF i(1) assms(2) new] assms(2)]
      by (simp add: client_run_def client_step_def)
    then show ?thesis by blast
  next
    case idle
    define d where "d = (case qc_phase ?c of Interval t \<Rightarrow> t | _ \<Rightarrow> 0)"
    let ?s = "client_step opts (ClientTick d) s"
    have d: "t \<le> ql_now s + d" if "qc_phase ?c = Interval t" for t using that by (simp add: d_def)
    have p: "progress_step i (resume_conn (request_interval opts) (ql_now ?s)) ?s"
      by (rule resume_progress [where streams = "concurrent_streams_per_connection opts"])
        (use i idle ok assms(2,3) d in simp_all)
    have "healthy (client_run opts [ClientTick d, ResumeConn i] s) \<and>
        clients_weight opts (client_run opts [ClientTick d, ResumeConn i] s) < clients_weight opts s"
      using progress_at_conn [OF p, of opts] assms(2)
      by (simp add: client_run_def) (simp add: client_step_def)
    then show ?thesis by blast
  qed
qed

lemma client_run_append: "client_run opts (xs @ ys) s = client_run opts ys (client_run opts xs s)"
  by (simp add: client_run_def)

lemma clients_finish:
  assumes "qc.reach opts s" and "healthy s" and "0 < concurrent_streams_per_connection opts"
  shows "\<exists>labs. all_closed opts (client_run opts labs s)"
  using assms(1,2)
proof (induction "clients_weight opts s" arbitrary: s rule: less_induct)
  case less
  show ?case
  proof (cases "all_closed opts s")
    case True
    then have "all_closed opts (client_run opts [] s)" by (simp add: client_run_def)
    then show ?thesis by blast
  next
    case False
    from clients_progress [OF clients_ok_reach [OF less.prems(1)] less.prems(2) assms(3) False]
    obtain labs where labs: "healthy (client_run opts labs s)"
      "clients_weight opts (client_run opts labs s) < clients_weight opts s" by blast
    from less.hyps [OF labs(2) client_run_reach [OF less.prems(1)] labs(1)]
    obtain labs2 where "all_closed opts (client_run opts labs2 (client_run opts labs s))" by blast
    then have "all_closed opts (client_run opts (labs @ labs2) s)" by (simp add: client_run_append)
    then show ?thesis by blast
  qed
qed

text \<open>
  C32. With at least one connection and at least one stream per connection (without one,
  \<open>no_streams_hang\<close> shows the opposite) the clients never deadlock: from every reachable state that
  has seen no failure there are further steps, in which QUIC serves what is asked, after which every
  connection has closed and all requests were made.
\<close>

theorem clients_never_deadlock:
  assumes "qc.reach opts s" and "healthy s" and "0 < concurrent_streams_per_connection opts"
    and "0 < concurrent_connections opts"
  shows "\<exists>labs. all_closed opts (client_run opts labs s) \<and>
    (\<Sum>c \<leftarrow> ql_conns (client_run opts labs s). qc_requests_made c) = qo_requests opts"
proof -
  obtain labs where l: "all_closed opts (client_run opts labs s)"
    using clients_finish [OF assms(1-3)] by blast
  have "clients_ok opts (client_run opts labs s)"
    by (rule clients_ok_reach [OF client_run_reach [OF assms(1)]])
  from all_closed_requests [OF this l assms(4)] l show ?thesis by blast
qed

theorem clients_never_deadlock_witness:
  "let s = client_run two_connections (take 5 two_connections_run) (clients_new two_connections 0)
   in \<exists>labs. all_closed two_connections (client_run two_connections labs s) \<and>
        (\<Sum>c \<leftarrow> ql_conns (client_run two_connections labs s). qc_requests_made c) = 3"
proof -
  let ?s = "client_run two_connections (take 5 two_connections_run) (clients_new two_connections 0)"
  have h: "healthy ?s" by code_simp
  have "0 < concurrent_streams_per_connection two_connections" "0 < concurrent_connections two_connections"
    by (simp_all add: two_connections_def)
  from clients_never_deadlock [OF two_connections_reach h this] show ?thesis
    by (simp add: Let_def two_connections_def)
qed

end
