(* ===== verification/Quic_Server.thy ===== *)
theory Quic_Server
  imports Quic_Client
begin

text \<open>
  The server side of the QUIC simulation, \<^verbatim>\<open>server_listen\<close> of \<^verbatim>\<open>quinn-workbench/src/quic/server.rs\<close>, and
  the shutdown at the end of \<^verbatim>\<open>quic/simulation.rs\<close> that waits for the connections it handled. One task
  accepts connections, one handles each connection and one each stream; a handle of every connection
  task goes through a channel to the shutdown. What QUIC decides is in the labels of the steps. The
  lemmas show when a stream task crashes, and which connections the shutdown waits for.
\<close>

section \<open>State\<close>

definition request_text :: string where "request_text = ''GET /index.html''"

text \<open>A stream reads its request, then writes the response; it ends without or with an error.\<close>

datatype stream_phase = Reading | Responding | StreamOk | StreamError | StreamCrashed

datatype server_error = NotEstablished | StreamTaskErrored | StreamTaskCrashed

text \<open>\<open>JoiningStreams k\<close>: the task of stream \<open>k\<close> is awaited, those before it ended without error.\<close>

datatype server_phase =
    Handshake
  | Accepting
  | JoiningStreams nat
  | AwaitClose
  | Handled
  | HandlingFailed server_error
  | HandlingCrashed

record server_conn =
  sc_phase :: server_phase
  sc_streams :: "stream_phase list"

text \<open>The shutdown has taken \<open>sh_handled\<close> handles from the channel and awaited them.\<close>

datatype shutdown_result = ShutdownOk | ConnTaskErrored server_error | ConnTaskCrashed

record quic_server =
  qs_listening :: bool
  qs_conns :: "server_conn list"
  qs_handled :: nat
  qs_shutdown :: "shutdown_result option"

definition server_conn_new :: server_conn where
  "server_conn_new = \<lparr>sc_phase = Handshake, sc_streams = []\<rparr>"

definition server_listen :: quic_server where
  "server_listen = \<lparr>qs_listening = True, qs_conns = [], qs_handled = 0, qs_shutdown = None\<rparr>"

section \<open>Tasks\<close>

text \<open>The loop over the stream tasks, from stream \<open>k\<close> on.\<close>

function join_streams :: "nat \<Rightarrow> server_conn \<Rightarrow> server_conn" where
  "join_streams k c =
     (if length (sc_streams c) \<le> k then c\<lparr>sc_phase := AwaitClose\<rparr>
      else case sc_streams c ! k of
        StreamOk \<Rightarrow> join_streams (Suc k) c
      | StreamError \<Rightarrow> c\<lparr>sc_phase := HandlingFailed StreamTaskErrored\<rparr>
      | StreamCrashed \<Rightarrow> c\<lparr>sc_phase := HandlingFailed StreamTaskCrashed\<rparr>
      | _ \<Rightarrow> c\<lparr>sc_phase := JoiningStreams k\<rparr>)"
  by pat_completeness auto
termination
  by (relation "measure (\<lambda>(k, c). length (sc_streams c) - k)") auto

declare join_streams.simps [simp del]

datatype server_label =
    Incoming
  | EndpointClosed
  | Established nat bool
  | AcceptBi nat bool
  | RequestRead nat nat "string option"
  | ResponseDone nat nat bool
  | ResumeServer nat
  | ConnClosed nat bool
  | ResumeShutdown

definition at_server_conn ::
  "nat \<Rightarrow> (server_conn \<Rightarrow> server_conn) \<Rightarrow> quic_server \<Rightarrow> quic_server" where
  "at_server_conn i f s =
     (if i < length (qs_conns s) then s\<lparr>qs_conns := (qs_conns s)[i := f (qs_conns s ! i)]\<rparr> else s)"

definition at_stream :: "nat \<Rightarrow> (stream_phase \<Rightarrow> stream_phase) \<Rightarrow> server_conn \<Rightarrow> server_conn" where
  "at_stream k f c =
     (if k < length (sc_streams c) then c\<lparr>sc_streams := (sc_streams c)[k := f (sc_streams c ! k)]\<rparr> else c)"

definition read_request :: "string option \<Rightarrow> stream_phase \<Rightarrow> stream_phase" where
  "read_request r st =
     (if st \<noteq> Reading then st
      else case r of
        None \<Rightarrow> StreamError
      | Some request \<Rightarrow> if request = request_text then Responding else StreamCrashed)"

definition finish_response :: "bool \<Rightarrow> stream_phase \<Rightarrow> stream_phase" where
  "finish_response ok st = (if st \<noteq> Responding then st else if ok then StreamOk else StreamError)"

text \<open>
  Taking the next handle from the channel and awaiting its task: the channel is first in, first
  out, so the handles come in the order the connections were accepted, and it ends when the
  listening task has ended and every handle was taken. The count is compared with
  the number of connections of the client only after a connection was handled.
\<close>

function await_handled :: "nat \<Rightarrow> quic_server \<Rightarrow> quic_server" where
  "await_handled expected s =
     (if qs_shutdown s \<noteq> None then s
      else if length (qs_conns s) \<le> qs_handled s
      then if qs_listening s then s else s\<lparr>qs_shutdown := Some ShutdownOk\<rparr>
      else case sc_phase (qs_conns s ! qs_handled s) of
        Handled \<Rightarrow>
          let s' = s\<lparr>qs_handled := Suc (qs_handled s)\<rparr>
          in if expected \<le> qs_handled s' then s'\<lparr>qs_shutdown := Some ShutdownOk\<rparr> else await_handled expected s'
      | HandlingFailed e \<Rightarrow> s\<lparr>qs_shutdown := Some (ConnTaskErrored e)\<rparr>
      | HandlingCrashed \<Rightarrow> s\<lparr>qs_shutdown := Some ConnTaskCrashed\<rparr>
      | _ \<Rightarrow> s)"
  by pat_completeness auto
termination
  by (relation "measure (\<lambda>(expected, s). length (qs_conns s) - qs_handled s)") auto

declare await_handled.simps [simp del]

text \<open>Once the shutdown is over nobody receives the handles, and sending one stops the listening task.\<close>

definition server_step :: "nat \<Rightarrow> server_label \<Rightarrow> quic_server \<Rightarrow> quic_server" where
  "server_step expected lab s =
     (case lab of
        Incoming \<Rightarrow>
          if qs_listening s
          then s\<lparr>qs_conns := qs_conns s @ [server_conn_new], qs_listening := qs_shutdown s = None\<rparr>
          else s
      | EndpointClosed \<Rightarrow> s\<lparr>qs_listening := False\<rparr>
      | Established i ok \<Rightarrow>
          at_server_conn i (\<lambda>c.
            if sc_phase c \<noteq> Handshake then c
            else c\<lparr>sc_phase := (if ok then Accepting else HandlingFailed NotEstablished)\<rparr>) s
      | AcceptBi i ok \<Rightarrow>
          at_server_conn i (\<lambda>c.
            if sc_phase c \<noteq> Accepting then c
            else if ok then c\<lparr>sc_streams := sc_streams c @ [Reading]\<rparr> else join_streams 0 c) s
      | RequestRead i k r \<Rightarrow> at_server_conn i (at_stream k (read_request r)) s
      | ResponseDone i k ok \<Rightarrow> at_server_conn i (at_stream k (finish_response ok)) s
      | ResumeServer i \<Rightarrow>
          at_server_conn i (\<lambda>c. case sc_phase c of JoiningStreams k \<Rightarrow> join_streams k c | _ \<Rightarrow> c) s
      | ConnClosed i by_application \<Rightarrow>
          at_server_conn i (\<lambda>c.
            if sc_phase c \<noteq> AwaitClose then c
            else c\<lparr>sc_phase := (if by_application then Handled else HandlingCrashed)\<rparr>) s
      | ResumeShutdown \<Rightarrow> await_handled expected s)"

interpretation qserver: transition_system "\<lambda>s. s = server_listen" "\<lambda>s lab t. t = server_step expected lab s"
  for expected .

section \<open>Streams\<close>

text \<open>A connection that ended well answered all its streams; one still joining has joined those before.\<close>

definition server_conn_ok :: "server_conn \<Rightarrow> bool" where
  "server_conn_ok c \<longleftrightarrow>
     (case sc_phase c of
        Handshake \<Rightarrow> sc_streams c = []
      | JoiningStreams k \<Rightarrow> k < length (sc_streams c) \<and> (\<forall>j < k. sc_streams c ! j = StreamOk)
      | AwaitClose \<Rightarrow> \<forall>st \<in> set (sc_streams c). st = StreamOk
      | Handled \<Rightarrow> \<forall>st \<in> set (sc_streams c). st = StreamOk
      | HandlingCrashed \<Rightarrow> \<forall>st \<in> set (sc_streams c). st = StreamOk
      | HandlingFailed StreamTaskErrored \<Rightarrow> StreamError \<in> set (sc_streams c)
      | HandlingFailed StreamTaskCrashed \<Rightarrow> StreamCrashed \<in> set (sc_streams c)
      | _ \<Rightarrow> True)"

lemma join_streams_eqs:
  "length (sc_streams c) \<le> k \<Longrightarrow> join_streams k c = c\<lparr>sc_phase := AwaitClose\<rparr>"
  "k < length (sc_streams c) \<Longrightarrow> sc_streams c ! k = StreamOk \<Longrightarrow> join_streams k c = join_streams (Suc k) c"
  "k < length (sc_streams c) \<Longrightarrow> sc_streams c ! k = StreamError \<Longrightarrow>
     join_streams k c = c\<lparr>sc_phase := HandlingFailed StreamTaskErrored\<rparr>"
  "k < length (sc_streams c) \<Longrightarrow> sc_streams c ! k = StreamCrashed \<Longrightarrow>
     join_streams k c = c\<lparr>sc_phase := HandlingFailed StreamTaskCrashed\<rparr>"
  "k < length (sc_streams c) \<Longrightarrow> sc_streams c ! k \<in> {Reading, Responding} \<Longrightarrow>
     join_streams k c = c\<lparr>sc_phase := JoiningStreams k\<rparr>"
  by (subst join_streams.simps; auto)+

lemma join_streams_ok:
  "(\<forall>j < k. j < length (sc_streams c) \<longrightarrow> sc_streams c ! j = StreamOk) \<Longrightarrow>
   server_conn_ok (join_streams k c) \<and> sc_streams (join_streams k c) = sc_streams c"
proof (induction "length (sc_streams c) - k" arbitrary: k)
  case 0
  then show ?case by (auto simp: join_streams_eqs(1) server_conn_ok_def in_set_conv_nth)
next
  case (Suc n)
  then have k: "k < length (sc_streams c)" by simp
  then have set: "sc_streams c ! k \<in> set (sc_streams c)" by simp
  show ?case
  proof (cases "sc_streams c ! k")
    case StreamOk
    with Suc.prems have "\<forall>j < Suc k. j < length (sc_streams c) \<longrightarrow> sc_streams c ! j = StreamOk"
      by (auto simp: less_Suc_eq)
    with Suc.hyps(1) [of "Suc k"] Suc.hyps(2) k StreamOk show ?thesis by (simp add: join_streams_eqs(2))
  qed (use Suc.prems k set in \<open>auto simp: join_streams_eqs(3-5) server_conn_ok_def\<close>)
qed

lemma join_streams_keeps: "sc_streams (join_streams k c) = sc_streams c"
proof (induction "length (sc_streams c) - k" arbitrary: k)
  case (Suc n)
  then have "k < length (sc_streams c)" by simp
  with Suc show ?case by (cases "sc_streams c ! k") (simp_all add: join_streams_eqs(2-5))
qed (simp add: join_streams_eqs(1))

text \<open>A stream only changes while it runs, so what was joined stays joined.\<close>

lemma at_stream_ok:
  assumes "server_conn_ok c" and "\<And>st. st \<notin> {Reading, Responding} \<Longrightarrow> f st = st"
  shows "server_conn_ok (at_stream k f c)"
proof -
  have keep: "st \<in> set ((sc_streams c)[k := f (sc_streams c ! k)])"
    if st: "st \<in> set (sc_streams c)" "st \<notin> {Reading, Responding}" for st
  proof -
    obtain j where "j < length (sc_streams c)" "st = sc_streams c ! j"
      using st(1) by (metis in_set_conv_nth)
    then have "(sc_streams c)[k := f (sc_streams c ! k)] ! j = st" "j < length (sc_streams c)"
      using st(2) assms(2) by (auto simp: nth_list_update_if)
    then show ?thesis by (metis length_list_update nth_mem)
  qed
  have same: "(sc_streams c)[k := f (sc_streams c ! k)] = sc_streams c"
    if "\<forall>st \<in> set (sc_streams c). st = StreamOk" "k < length (sc_streams c)"
  proof -
    have "sc_streams c ! k = StreamOk" using that by simp
    then show ?thesis using assms(2) [of StreamOk] by (metis empty_iff insert_iff list_update_id stream_phase.distinct(3,9))
  qed
  show ?thesis
  proof (cases "k < length (sc_streams c)")
    case True
    with assms(1) keep same assms(2) [of StreamOk] show ?thesis
      by (auto simp: server_conn_ok_def at_stream_def nth_list_update_if
          split: server_phase.splits server_error.splits)
  qed (use assms(1) in \<open>simp add: at_stream_def\<close>)
qed

section \<open>The shutdown\<close>

text \<open>
  What the shutdown says about the connections in the order they were accepted. Its count stops it
  only after a connection, so it never ends without one.
\<close>

definition shutdown_ok :: "nat \<Rightarrow> quic_server \<Rightarrow> bool" where
  "shutdown_ok expected s \<longleftrightarrow>
     qs_handled s \<le> length (qs_conns s) \<and> (\<forall>i < qs_handled s. sc_phase (qs_conns s ! i) = Handled) \<and>
     (case qs_shutdown s of
        None \<Rightarrow> qs_handled s = 0 \<or> qs_handled s < expected
      | Some ShutdownOk \<Rightarrow>
          qs_handled s = max 1 expected \<or> \<not> qs_listening s \<and> qs_handled s = length (qs_conns s)
      | Some (ConnTaskErrored e) \<Rightarrow>
          qs_handled s < length (qs_conns s) \<and> sc_phase (qs_conns s ! qs_handled s) = HandlingFailed e
      | Some ConnTaskCrashed \<Rightarrow>
          qs_handled s < length (qs_conns s) \<and> sc_phase (qs_conns s ! qs_handled s) = HandlingCrashed)"

definition server_ok :: "nat \<Rightarrow> quic_server \<Rightarrow> bool" where
  "server_ok expected s \<longleftrightarrow> (\<forall>c \<in> set (qs_conns s). server_conn_ok c) \<and> shutdown_ok expected s"

lemma await_handled_eqs:
  "qs_shutdown s \<noteq> None \<or> qs_listening s \<and> length (qs_conns s) \<le> qs_handled s \<Longrightarrow>
   await_handled expected s = s"
  "qs_shutdown s = None \<Longrightarrow> qs_handled s < length (qs_conns s) \<Longrightarrow>
   await_handled expected s =
     (case sc_phase (qs_conns s ! qs_handled s) of
        Handled \<Rightarrow>
          if expected \<le> Suc (qs_handled s)
          then s\<lparr>qs_handled := Suc (qs_handled s), qs_shutdown := Some ShutdownOk\<rparr>
          else await_handled expected (s\<lparr>qs_handled := Suc (qs_handled s)\<rparr>)
      | HandlingFailed e \<Rightarrow> s\<lparr>qs_shutdown := Some (ConnTaskErrored e)\<rparr>
      | HandlingCrashed \<Rightarrow> s\<lparr>qs_shutdown := Some ConnTaskCrashed\<rparr>
      | _ \<Rightarrow> s)"
  "qs_shutdown s = None \<Longrightarrow> \<not> qs_listening s \<Longrightarrow> length (qs_conns s) \<le> qs_handled s \<Longrightarrow>
   await_handled expected s = s\<lparr>qs_shutdown := Some ShutdownOk\<rparr>"
  by (subst await_handled.simps; auto simp: Let_def split: server_phase.split)+

lemma await_handled_ok:
  "shutdown_ok expected s \<Longrightarrow>
   shutdown_ok expected (await_handled expected s) \<and> qs_conns (await_handled expected s) = qs_conns s"
proof (induction "length (qs_conns s) - qs_handled s" arbitrary: s rule: less_induct)
  case less
  show ?case
  proof (cases "qs_shutdown s = None \<and> qs_handled s < length (qs_conns s)")
    case False
    then consider "await_handled expected s = s"
      | "qs_shutdown s = None" "\<not> qs_listening s" "length (qs_conns s) \<le> qs_handled s"
      using await_handled_eqs(1) by fastforce
    then show ?thesis
      by cases (use less.prems in \<open>auto simp: shutdown_ok_def await_handled_eqs(3)\<close>)
  next
    case True
    let ?s = "s\<lparr>qs_handled := Suc (qs_handled s)\<rparr>"
    note eq = await_handled_eqs(2) [OF conjunct1 [OF True] conjunct2 [OF True], of expected]
    show ?thesis
    proof (cases "sc_phase (qs_conns s ! qs_handled s)")
      case Handled
      then have handled: "\<forall>i < Suc (qs_handled s). sc_phase (qs_conns s ! i) = Handled"
        using less.prems by (auto simp: shutdown_ok_def less_Suc_eq)
      show ?thesis
      proof (cases "expected \<le> Suc (qs_handled s)")
        case False
        with handled True have "shutdown_ok expected ?s" by (simp add: shutdown_ok_def)
        moreover have "length (qs_conns ?s) - qs_handled ?s < length (qs_conns s) - qs_handled s"
          using True by (simp add: diff_less_mono2)
        ultimately show ?thesis using less.hyps [of ?s] eq Handled False by simp
      qed (use handled less.prems True eq Handled in \<open>auto simp: shutdown_ok_def\<close>)
    qed (use less.prems True eq in \<open>auto simp: shutdown_ok_def\<close>)
  qed
qed

lemma await_handled_conns: "qs_conns (await_handled expected s) = qs_conns s"
proof (induction "length (qs_conns s) - qs_handled s" arbitrary: s rule: less_induct)
  case less
  show ?case
  proof (cases "qs_shutdown s = None \<and> qs_handled s < length (qs_conns s)")
    case True
    let ?s = "s\<lparr>qs_handled := Suc (qs_handled s)\<rparr>"
    have "qs_conns (await_handled expected ?s) = qs_conns ?s"
      using True by (intro less) (simp add: diff_less_mono2)
    with True show ?thesis by (simp add: await_handled_eqs(2) split: server_phase.split)
  next
    case False
    then consider "await_handled expected s = s"
      | "qs_shutdown s = None" "\<not> qs_listening s" "length (qs_conns s) \<le> qs_handled s"
      using await_handled_eqs(1) by fastforce
    then show ?thesis by cases (simp_all add: await_handled_eqs(3))
  qed
qed

text \<open>A change of a connection that has not ended yet.\<close>

definition ended :: "server_conn \<Rightarrow> bool" where
  "ended c \<longleftrightarrow> (case sc_phase c of Handled \<Rightarrow> True | HandlingFailed e \<Rightarrow> True | HandlingCrashed \<Rightarrow> True | _ \<Rightarrow> False)"

lemma at_server_conn_ok:
  assumes "server_ok expected s" and "\<And>c. server_conn_ok c \<Longrightarrow> server_conn_ok (f c)"
    and "\<And>c. ended c \<Longrightarrow> sc_phase (f c) = sc_phase c"
  shows "server_ok expected (at_server_conn i f s)"
proof (cases "i < length (qs_conns s)")
  case True
  have old: "\<forall>c \<in> set (qs_conns s). server_conn_ok c" using assms(1) by (simp add: server_ok_def)
  have conn: "server_conn_ok c" if "c \<in> set ((qs_conns s)[i := f (qs_conns s ! i)])" for c
  proof -
    have "c = f (qs_conns s ! i) \<or> c \<in> set (qs_conns s)" using that set_update_subset_insert by fastforce
    with old assms(2) nth_mem [OF True] show ?thesis by auto
  qed
  have keep: "sc_phase ((qs_conns s)[i := f (qs_conns s ! i)] ! j) = ph"
    if "sc_phase (qs_conns s ! j) = ph" "ph = Handled \<or> ph = HandlingCrashed \<or> (\<exists>e. ph = HandlingFailed e)" for j ph
    using that assms(3) [of "qs_conns s ! j"]
    by (cases "i = j"; cases "j < length (qs_conns s)") (auto simp: ended_def list_update_beyond)
  have "shutdown_ok expected (at_server_conn i f s)"
    using assms(1) True keep
    by (auto simp: server_ok_def shutdown_ok_def at_server_conn_def split: option.splits shutdown_result.splits)
  with conn True show ?thesis by (simp add: server_ok_def at_server_conn_def)
qed (use assms(1) in \<open>simp add: at_server_conn_def\<close>)

lemma server_ok_step:
  assumes "server_ok expected s"
  shows "server_ok expected (server_step expected lab s)"
proof (cases lab)
  case Incoming
  with assms show ?thesis
    by (auto simp: server_step_def server_ok_def shutdown_ok_def server_conn_new_def server_conn_ok_def
        nth_append split: option.splits shutdown_result.splits)
next
  case EndpointClosed
  with assms show ?thesis
    by (auto simp: server_step_def server_ok_def shutdown_ok_def split: option.splits shutdown_result.splits)
next
  case (AcceptBi i ok)
  with assms show ?thesis
    by (auto simp: server_step_def ended_def server_conn_ok_def intro!: at_server_conn_ok
        join_streams_ok [THEN conjunct1, unfolded server_conn_ok_def])
next
  case (RequestRead i k r)
  with assms show ?thesis
    by (auto simp: server_step_def read_request_def at_stream_def intro!: at_server_conn_ok at_stream_ok)
next
  case (ResponseDone i k ok)
  with assms show ?thesis
    by (auto simp: server_step_def finish_response_def at_stream_def intro!: at_server_conn_ok at_stream_ok
        split: if_splits)
next
  case (ResumeServer i)
  have "server_conn_ok (case sc_phase c of JoiningStreams k \<Rightarrow> join_streams k c | _ \<Rightarrow> c)"
    if "server_conn_ok c" for c
    using that by (auto simp: join_streams_ok server_conn_ok_def [of c] split: server_phase.split)
  with assms ResumeServer show ?thesis
    by (auto simp: server_step_def ended_def intro!: at_server_conn_ok split: server_phase.splits)
next
  case ResumeShutdown
  with assms await_handled_ok show ?thesis by (simp add: server_step_def server_ok_def)
qed (use assms in \<open>auto simp: server_step_def ended_def server_conn_ok_def intro!: at_server_conn_ok\<close>)

lemma server_ok_reach: "qserver.reach expected s \<Longrightarrow> server_ok expected s"
  by (erule qserver.reach_invariant)
    (auto simp: server_ok_step, simp add: server_ok_def shutdown_ok_def server_listen_def)

section \<open>Properties\<close>

definition server_run :: "nat \<Rightarrow> server_label list \<Rightarrow> quic_server \<Rightarrow> quic_server" where
  "server_run expected labs s = fold (server_step expected) labs s"

lemma server_run_reach: "qserver.reach expected s \<Longrightarrow> qserver.reach expected (server_run expected labs s)"
  unfolding server_run_def by (induction labs arbitrary: s) (auto intro: qserver.reach_step)

lemma handled_conn_ok:
  assumes "server_ok expected s" and "i < qs_handled s"
  shows "sc_phase (qs_conns s ! i) = Handled \<and> (\<forall>st \<in> set (sc_streams (qs_conns s ! i)). st = StreamOk)"
proof -
  have "sc_phase (qs_conns s ! i) = Handled" "i < length (qs_conns s)"
    using assms by (auto simp: server_ok_def shutdown_ok_def)
  moreover from this(2) have "server_conn_ok (qs_conns s ! i)" using assms(1) by (simp add: server_ok_def)
  ultimately show ?thesis by (simp add: server_conn_ok_def)
qed

text \<open>
  C37. The shutdown of the simulation succeeds only after it has awaited, in the order they were
  accepted, as many connections as the client made (at least one), each of which answered all its
  streams and was closed by the client, or when the server listens no more and all connections were handled; it fails
  with the error of the first that ended differently.
\<close>

theorem shutdown_awaits_connections:
  assumes "qserver.reach expected s"
  shows "(qs_shutdown s = Some ShutdownOk \<longrightarrow>
      (qs_handled s = max 1 expected \<or> \<not> qs_listening s \<and> qs_handled s = length (qs_conns s)) \<and>
      qs_handled s \<le> length (qs_conns s)) \<and>
    (\<forall>i < qs_handled s. sc_phase (qs_conns s ! i) = Handled \<and>
       (\<forall>st \<in> set (sc_streams (qs_conns s ! i)). st = StreamOk)) \<and>
    (\<forall>e. qs_shutdown s = Some (ConnTaskErrored e) \<longrightarrow>
       sc_phase (qs_conns s ! qs_handled s) = HandlingFailed e) \<and>
    (qs_shutdown s = Some ConnTaskCrashed \<longrightarrow> sc_phase (qs_conns s ! qs_handled s) = HandlingCrashed)"
proof -
  have ok: "shutdown_ok expected s"
    using server_ok_reach [OF assms] by (simp add: server_ok_def)
  note handled_conn_ok [OF server_ok_reach [OF assms]]
  moreover have "qs_shutdown s = Some ShutdownOk \<Longrightarrow>
      qs_handled s = max 1 expected \<or> \<not> qs_listening s \<and> qs_handled s = length (qs_conns s)"
    "qs_shutdown s = Some (ConnTaskErrored e) \<Longrightarrow> sc_phase (qs_conns s ! qs_handled s) = HandlingFailed e"
    "qs_shutdown s = Some ConnTaskCrashed \<Longrightarrow> sc_phase (qs_conns s ! qs_handled s) = HandlingCrashed"
    "qs_handled s \<le> length (qs_conns s)" for e
    using ok by (auto simp: shutdown_ok_def split: option.splits shutdown_result.splits)
  ultimately show ?thesis by blast
qed

text \<open>One connection with two streams, closed by the client before the shutdown looks at it.\<close>

definition two_streams :: "server_label list" where
  "two_streams =
     [Incoming, Established 0 True, AcceptBi 0 True, AcceptBi 0 True, RequestRead 0 1 (Some request_text),
      RequestRead 0 0 (Some request_text), ResponseDone 0 0 True, AcceptBi 0 False, ResponseDone 0 1 True,
      ResumeServer 0, ConnClosed 0 True, ResumeShutdown]"

theorem shutdown_awaits_connections_witness:
  "let s = server_run 1 two_streams server_listen
   in qs_shutdown s = Some ShutdownOk \<and> qs_handled s = 1 \<and>
      sc_phase (qs_conns s ! 0) = Handled \<and> length (sc_streams (qs_conns s ! 0)) = 2"
proof -
  let ?s = "server_run 1 two_streams server_listen"
  have "qs_shutdown ?s = Some ShutdownOk \<and> qs_listening ?s \<and> length (sc_streams (qs_conns ?s ! 0)) = 2" by code_simp
  moreover have "qserver.reach 1 ?s" by (intro server_run_reach qserver.reach_initial refl)
  ultimately show ?thesis using shutdown_awaits_connections [of 1 ?s] by (simp add: Let_def)
qed

text \<open>
  No stream task of the server crashes, and no connection fails for that reason, as long as every
  request it reads is the one the clients of the simulation send.
\<close>

lemma expected_requests_do_not_crash:
  assumes "\<forall>i k r. RequestRead i k (Some r) \<in> set labs \<longrightarrow> r = request_text"
  shows "\<forall>c \<in> set (qs_conns (server_run expected labs server_listen)).
    StreamCrashed \<notin> set (sc_streams c) \<and> sc_phase c \<noteq> HandlingFailed StreamTaskCrashed"
proof -
  let ?P = "\<lambda>s. \<forall>c \<in> set (qs_conns s). StreamCrashed \<notin> set (sc_streams c)"
  have at: "?P (at_server_conn i f s)"
    if "?P s" "\<And>c. StreamCrashed \<notin> set (sc_streams c) \<Longrightarrow> StreamCrashed \<notin> set (sc_streams (f c))" for i f s
  proof (cases "i < length (qs_conns s)")
    case True
    with that have "StreamCrashed \<notin> set (sc_streams (f (qs_conns s ! i)))" by simp
    with that(1) True set_update_subset_insert [of "qs_conns s" i "f (qs_conns s ! i)"] show ?thesis
      by (auto simp: at_server_conn_def)
  qed (use that(1) in \<open>simp add: at_server_conn_def\<close>)
  have stream: "StreamCrashed \<notin> set (sc_streams (at_stream k f c))"
    if "StreamCrashed \<notin> set (sc_streams c)" "\<And>st. st \<noteq> StreamCrashed \<Longrightarrow> f st \<noteq> StreamCrashed" for k f c
    using that set_update_subset_insert [of "sc_streams c" k "f (sc_streams c ! k)"]
    by (auto simp: at_stream_def) (metis nth_mem subsetD insertE)
  have joined: "sc_streams (join_streams k c) = sc_streams c" for k c
    using join_streams_keeps by blast
  have step: "?P (server_step expected lab s)" if p: "?P s" and lab: "lab \<in> set labs" for lab s
  proof (cases lab)
    case (RequestRead i k r)
    with assms lab have "read_request r st \<noteq> StreamCrashed" if "st \<noteq> StreamCrashed" for st
      using that by (auto simp: read_request_def split: option.split)
    then show ?thesis unfolding server_step_def RequestRead server_label.case
      by (intro at [OF p] stream)
  next
    case (ResponseDone i k ok)
    have "finish_response ok st \<noteq> StreamCrashed" if "st \<noteq> StreamCrashed" for st
      using that by (simp add: finish_response_def)
    then show ?thesis unfolding server_step_def ResponseDone server_label.case
      by (intro at [OF p] stream)
  next
    case (AcceptBi i ok)
    show ?thesis unfolding server_step_def AcceptBi server_label.case by (rule at) (use p joined in auto)
  next
    case (Established i ok)
    show ?thesis unfolding server_step_def Established server_label.case by (rule at) (use p in auto)
  next
    case (ConnClosed i ok)
    show ?thesis unfolding server_step_def ConnClosed server_label.case by (rule at) (use p in auto)
  next
    case (ResumeServer i)
    show ?thesis unfolding server_step_def ResumeServer server_label.case
      by (rule at) (use p joined in \<open>auto split: server_phase.split\<close>)
  qed (use p in \<open>auto simp: server_step_def server_conn_new_def await_handled_conns\<close>)
  have run: "?P (server_run expected labs server_listen)"
    unfolding server_run_def
    by (rule fold_invariant [where Q = "\<lambda>lab. lab \<in> set labs"]) (auto simp: step, simp add: server_listen_def)
  have "qserver.reach expected (server_run expected labs server_listen)"
    by (intro server_run_reach qserver.reach_initial refl)
  from server_ok_reach [OF this] run show ?thesis
    by (fastforce simp: server_ok_def server_conn_ok_def)
qed

text \<open>
  C38. With no connections configured the simulation never ends: the clients are finished at once, but
  the shutdown waits for a first connection that nobody makes, at an endpoint that nobody closes.
\<close>

theorem no_connections_hang:
  assumes "concurrent_connections opts = 0" and "Incoming \<notin> set labs" "EndpointClosed \<notin> set labs"
  shows "all_closed opts (clients_new opts now) \<and>
    qs_shutdown (server_run (concurrent_connections opts) labs server_listen) = None"
proof -
  let ?P = "\<lambda>s. qs_listening s \<and> qs_conns s = [] \<and> qs_shutdown s = None"
  have step: "?P (server_step 0 lab s)" if "?P s" "lab \<noteq> Incoming" "lab \<noteq> EndpointClosed" for s lab
    using that by (cases lab) (simp_all add: server_step_def at_server_conn_def await_handled_eqs(1))
  have "?P (server_run 0 labs server_listen)"
    unfolding server_run_def
    by (rule fold_invariant [where Q = "\<lambda>lab. lab \<noteq> Incoming \<and> lab \<noteq> EndpointClosed"])
      (use assms(2,3) step in \<open>auto simp: server_listen_def\<close>)
  then show ?thesis using assms(1) by (simp add: all_closed_def clients_new_def)
qed

definition no_connections :: quic_opt where
  "no_connections = (quic_opt_default sample_network)\<lparr>concurrent_connections := 0\<rparr>"

theorem no_connections_hang_witness:
  "qs_shutdown (server_run 0 [ResumeShutdown, ResumeShutdown] server_listen) = None"
  using no_connections_hang [of no_connections "[ResumeShutdown, ResumeShutdown]" 0]
  by (simp add: no_connections_def)

end
