(* ===== verification/Quic_Run.thy ===== *)
theory Quic_Run
  imports Connectivity Throughput_Run Quic_Progress Quic_Server
begin

text \<open>
  The QUIC simulation as a whole, \<^verbatim>\<open>QuicSimulation\<close> of \<^verbatim>\<open>quinn-workbench/src/quic/simulation.rs\<close>: the
  network on which connectivity is checked, the network of the run, the client and server tasks, the
  shutdown and the result. What \<^verbatim>\<open>quinn\<close> and the file system decide (whether an endpoint and its
  capture can be made, the steps of connections) are arguments and labels. The lemmas show that
  nothing fails between the check and the requests, and what a successful run has done.
\<close>

section \<open>State\<close>

datatype 'e quic_error =
    InitFailed init_error
  | NoConnectivity bool bool
  | EndpointFailed 'e
  | TooManyConnections nat
  | ClientConnFailed
  | ServerConnFailed shutdown_result

datatype ('r, 'e) quic_phase =
    Checking nat nat "'r connectivity_check"
  | Requesting
  | ShuttingDown
  | Ended "'e quic_error + unit"

record ('r, 'e) quic_simulation =
  qsm_network :: "'r simulation option"
  qsm_clients :: quic_clients
  qsm_server :: quic_server
  qsm_phase :: "('r, 'e) quic_phase"

text \<open>
  What the run gets from outside: the options, the files, the seeding of a generator, two numbers
  from the operating system, and the errors of making the two endpoints or their captures, if any.
\<close>

record ('r, 'e) quic_input =
  qi_opts :: quic_opt
  qi_config :: network_config
  qi_with_seed :: "nat \<Rightarrow> 'r"
  qi_entropy :: "nat \<times> nat"
  qi_server_error :: "'e option"
  qi_client_error :: "'e option"

section \<open>Setting up\<close>

definition quic_seeds :: "quic_opt \<Rightarrow> nat \<times> nat \<Rightarrow> nat \<times> nat" where
  "quic_seeds opts entropy =
     (if non_deterministic (qo_network opts) then entropy
      else (quinn_rng_seed (qo_network opts), network_rng_seed (qo_network opts)))"

definition quic_spec :: "('r, 'e) quic_input \<Rightarrow> network_spec" where
  "quic_spec inp = spec_of_json (nc_network_graph (qi_config inp))"

text \<open>Both networks start with the seed of the simulation; only the first has a muted tracer.\<close>

definition quic_network :: "('r, 'e) quic_input \<Rightarrow> bool \<Rightarrow> instant \<Rightarrow> init_error + 'r simulation" where
  "quic_network inp muted now =
     (let spec = quic_spec inp;
          events = network_events_new (map event_of_json (nc_network_events (qi_config inp)))
                     (spec_nodes spec) (spec_links spec);
          tracer = tracer_new now spec
      in initialize spec events (if muted then mute_warnings tracer else tracer)
           (qi_with_seed inp (snd (quic_seeds (qi_opts inp) (qi_entropy inp)))) now
           (disable_time_warping (qi_opts inp)) now)"

definition hosts_of :: "quic_opt \<Rightarrow> 'r simulation \<Rightarrow> panic + nat \<times> nat" where
  "hosts_of opts s =
     bind_ok (host (sim_network s) (server_ip_address (qo_network opts))) (\<lambda>server.
     bind_ok (host (sim_network s) (client_ip_address (qo_network opts))) (\<lambda>client. Inr (server, client)))"

text \<open>\<^verbatim>\<open>quic_configs[id]\<close>\<close>

definition quic_config_of :: "('r, 'e) quic_input \<Rightarrow> 'r simulation \<Rightarrow> nat \<Rightarrow> panic + quinn_json" where
  "quic_config_of inp s i =
     (case quic_configs (nc_network_graph (qi_config inp)) (nd_id (sim_node s i)) of
        None \<Rightarrow> Inl NoSuchKey | Some c \<Rightarrow> Inr c)"

text \<open>From the second network to the first spawned connection.\<close>

definition open_network ::
  "('r, 'e) quic_input \<Rightarrow> instant \<Rightarrow> panic + ('r, 'e) quic_simulation" where
  "open_network inp now =
     (let opts = qi_opts inp;
          state = (\<lambda>network phase. \<lparr>qsm_network = network, qsm_clients = clients_new opts now,
                      qsm_server = server_listen, qsm_phase = phase\<rparr>)
      in case quic_network inp False now of
           Inl e \<Rightarrow> Inr (state None (Ended (Inl (InitFailed e))))
         | Inr s \<Rightarrow>
             bind_ok (host (sim_network s) (server_ip_address (qo_network opts))) (\<lambda>server.
             bind_ok (quic_config_of inp s server) (\<lambda>_.
             case qi_server_error inp of
               Some e \<Rightarrow> Inr (state (Some s) (Ended (Inl (EndpointFailed e))))
             | None \<Rightarrow>
                 bind_ok (host (sim_network s) (client_ip_address (qo_network opts))) (\<lambda>client.
                 bind_ok (quic_config_of inp s client) (\<lambda>_.
                 Inr (state (Some s)
                   (case qi_client_error inp of
                      Some e \<Rightarrow> Ended (Inl (EndpointFailed e))
                    | None \<Rightarrow>
                        if max_connections < concurrent_connections opts
                        then Ended (Inl (TooManyConnections (concurrent_connections opts)))
                        else Requesting)))))))"

text \<open>From the beginning of \<^verbatim>\<open>run\<close> to the connectivity check, which is skipped without time warping.\<close>

definition quic_begin ::
  "('r, 'e) quic_input \<Rightarrow> instant \<Rightarrow> panic + report_line list \<times> ('r, 'e) quic_simulation" where
  "quic_begin inp now =
     (let opts = qi_opts inp;
          state = (\<lambda>phase. \<lparr>qsm_network = None, qsm_clients = clients_new opts now,
                      qsm_server = server_listen, qsm_phase = phase\<rparr>)
      in case quic_network inp True now of
           Inl e \<Rightarrow> Inr ([], state (Ended (Inl (InitFailed e))))
         | Inr s \<Rightarrow>
             bind_ok (initial_status_lines (quic_spec inp) (sim_network s)) (\<lambda>lines.
             if disable_time_warping opts then map_sum id (Pair lines) (open_network inp now)
             else map_sum id (\<lambda>(server, client). (lines, state (Checking server client (check_new s))))
                    (hosts_of opts s)))"

section \<open>Running\<close>

text \<open>The join of the connection tasks, in the order they were spawned: None while one is running.\<close>

fun join_conns :: "quic_conn list \<Rightarrow> bool option" where
  "join_conns [] = Some True"
| "join_conns (c # cs) =
     (case qc_phase c of Closed \<Rightarrow> join_conns cs | Failed \<Rightarrow> Some False | _ \<Rightarrow> None)"

definition all_spawned :: "quic_opt \<Rightarrow> quic_clients \<Rightarrow> bool" where
  "all_spawned opts s \<longleftrightarrow>
     length (ql_conns s) = concurrent_connections opts \<and>
     ql_start s + millis (concurrent_connections opts) \<le> ql_now s"

datatype quic_label =
    QTick duration
  | QCheck check_label
  | QNetwork label
  | QClient client_label
  | QServer server_label
  | QMain

text \<open>The main task: after the check, while it joins the connections, and during the shutdown.\<close>

definition quic_main ::
  "('r, 'e) quic_input \<Rightarrow> ('r, 'e) quic_simulation \<Rightarrow> panic + ('r, 'e) quic_simulation" where
  "quic_main inp q =
     (let opts = qi_opts inp in
      case qsm_phase q of
        Checking server client c \<Rightarrow>
          (case cc_phase c of
             Finished (Inr _) \<Rightarrow> open_network inp (sim_now (cc_sim c))
           | Finished (Inl (a, b)) \<Rightarrow> Inr (q\<lparr>qsm_phase := Ended (Inl (NoConnectivity a b))\<rparr>)
           | _ \<Rightarrow> Inr q)
      | Requesting \<Rightarrow>
          Inr (if \<not> all_spawned opts (qsm_clients q) then q
               else case join_conns (ql_conns (qsm_clients q)) of
                 None \<Rightarrow> q
               | Some False \<Rightarrow> q\<lparr>qsm_phase := Ended (Inl ClientConnFailed)\<rparr>
               | Some True \<Rightarrow> q\<lparr>qsm_phase := ShuttingDown\<rparr>)
      | ShuttingDown \<Rightarrow>
          (let server = server_step (concurrent_connections opts) ResumeShutdown (qsm_server q);
               q' = q\<lparr>qsm_server := server\<rparr>
           in Inr (case qs_shutdown server of
                     None \<Rightarrow> q'
                   | Some ShutdownOk \<Rightarrow> q'\<lparr>qsm_phase := Ended (Inr ())\<rparr>
                   | Some e \<Rightarrow> q'\<lparr>qsm_phase := Ended (Inl (ServerConnFailed e))\<rparr>))
      | Ended _ \<Rightarrow> Inr q)"

definition is_running :: "('r, 'e) quic_phase \<Rightarrow> bool" where
  "is_running ph \<longleftrightarrow> (case ph of Requesting \<Rightarrow> True | ShuttingDown \<Rightarrow> True | _ \<Rightarrow> False)"

definition is_tick :: "label \<Rightarrow> bool" where
  "is_tick l \<longleftrightarrow> (case l of Tick d \<Rightarrow> True | _ \<Rightarrow> False)"

definition is_client_tick :: "client_label \<Rightarrow> bool" where
  "is_client_tick l \<longleftrightarrow> (case l of ClientTick d \<Rightarrow> True | _ \<Rightarrow> False)"

text \<open>Time passes for all tasks at once; the shutdown is a step of the main task.\<close>

definition quic_step ::
  "('r, 'e) quic_input \<Rightarrow> 'r rng_ops \<Rightarrow> quic_label \<Rightarrow> ('r, 'e) quic_simulation \<Rightarrow>
   panic + ('r, 'e) quic_simulation" where
  "quic_step inp ops lab q =
     (case (lab, qsm_phase q) of
        (QMain, _) \<Rightarrow> quic_main inp q
      | (QCheck l, Checking server client c) \<Rightarrow>
          map_sum id (\<lambda>c'. q\<lparr>qsm_phase := Checking server client c'\<rparr>) (check_step ops server client l c)
      | (QTick d, ph) \<Rightarrow>
          Inr (if is_running ph
               then q\<lparr>qsm_network := map_option (\<lambda>s. s\<lparr>sim_now := sim_now s + d\<rparr>) (qsm_network q),
                      qsm_clients := client_step (qi_opts inp) (ClientTick d) (qsm_clients q)\<rparr>
               else q)
      | (QNetwork l, ph) \<Rightarrow>
          (case qsm_network q of
             Some s \<Rightarrow>
               if is_running ph \<and> \<not> is_tick l
               then map_sum id (\<lambda>s'. q\<lparr>qsm_network := Some s'\<rparr>) (sim_step ops l s) else Inr q
           | None \<Rightarrow> Inr q)
      | (QClient l, ph) \<Rightarrow>
          Inr (if is_running ph \<and> \<not> is_client_tick l
               then q\<lparr>qsm_clients := client_step (qi_opts inp) l (qsm_clients q)\<rparr> else q)
      | (QServer l, ph) \<Rightarrow>
          Inr (if is_running ph \<and> l \<noteq> ResumeShutdown
               then q\<lparr>qsm_server := server_step (concurrent_connections (qi_opts inp)) l (qsm_server q)\<rparr> else q)
      | _ \<Rightarrow> Inr q)"

definition quic_run ::
  "('r, 'e) quic_input \<Rightarrow> 'r rng_ops \<Rightarrow> quic_label list \<Rightarrow> ('r, 'e) quic_simulation \<Rightarrow>
   panic + ('r, 'e) quic_simulation" where
  "quic_run inp ops labs q = fold_ok (\<lambda>q lab. quic_step inp ops lab q) q labs"

text \<open>What \<^verbatim>\<open>run_and_report_stats\<close> sees of a simulation that has ended.\<close>

definition simulation_result ::
  "('r, 'e) quic_simulation \<Rightarrow> ((tracer \<times> 'r network) option \<times> ('e quic_error + unit)) option" where
  "simulation_result q =
     (case qsm_phase q of
        Ended r \<Rightarrow> Some (map_option (\<lambda>s. (nw_tracer (sim_network s), sim_network s)) (qsm_network q), r)
      | _ \<Rightarrow> None)"

interpretation quic: transition_system "\<lambda>q. \<exists>now lines. quic_begin inp now = Inr (lines, q)"
  "\<lambda>q lab q'. quic_step inp ops lab q = Inr q'" for inp ops .

section \<open>The second network is as good as the first\<close>


lemma quic_network_started:
  assumes "quic_network inp muted now = Inr s"
  shows "started (quic_spec inp) s" and "sim_now s = now"
proof -
  have "fresh_tracer now spec (if muted then mute_warnings (tracer_new now spec) else tracer_new now spec)" for spec
    by (simp add: fresh_tracer_def)
  with assms show "started (quic_spec inp) s"
    unfolding quic_network_def started_def Let_def by blast
  show "sim_now s = now"
    using assms by (auto simp: quic_network_def Let_def initialize_def bind_ok_Inr_iff split: if_splits)
qed




lemma quic_configs_host:
  "n \<in> set (nsj_nodes graph) \<Longrightarrow> nj_kind n = HostJson \<Longrightarrow> quic_configs graph (nj_id n) \<noteq> None"
proof -
  let ?f = "\<lambda>n configs. case nj_kind n of
      HostJson \<Rightarrow> configs(nj_id n \<mapsto> (case nj_quic n of None \<Rightarrow> quinn_json_default | Some q \<Rightarrow> q))
    | RouterJson \<Rightarrow> configs"
  have keep: "k \<in> dom (fold ?f ns m)" if "k \<in> dom m" for k ns and m :: "string \<rightharpoonup> quinn_json"
    using that by (induction ns arbitrary: m) (auto split: node_kind_json.split)
  have "nj_id n \<in> dom (fold ?f ns m)" if "n \<in> set ns" "nj_kind n = HostJson" for ns and m :: "string \<rightharpoonup> quinn_json"
    using that
  proof (induction ns arbitrary: m)
    case (Cons n' ns)
    show ?case
    proof (cases "n = n'")
      case True
      with Cons.prems(2) show ?thesis by (simp add: keep)
    qed (use Cons in auto)
  qed simp
  then show "n \<in> set (nsj_nodes graph) \<Longrightarrow> nj_kind n = HostJson \<Longrightarrow> quic_configs graph (nj_id n) \<noteq> None"
    unfolding quic_configs_def by blast
qed

lemma quic_config_of_host:
  assumes "started (quic_spec inp) s" and "host (sim_network s) ip = Inr i"
  shows "\<exists>c. quic_config_of inp s i = Inr c"
proof -
  have i: "i < length (nw_nodes (sim_network s))" "quic_addr (sim_node s i) \<noteq> None"
    using host_address [OF assms] by auto
  have E: "map quic_addr (nw_nodes (sim_network s)) = addresses (quic_spec inp)"
    using sim_from_started [OF assms(1)] by (simp add: addresses_def sim_from_def net_from_def)
  then have len: "i < length (initial_nodes (quic_spec inp))" using i(1) by (metis addresses_def length_map)
  let ?n = "initial_nodes (quic_spec inp) ! i"
  have "quic_addr (initial_node ?n) \<noteq> None"
    using E i len unfolding addresses_def by (metis nth_map)
  then have kind: "ns_kind ?n = Host"
    by (auto simp: initial_node_def node_of_spec_def quic_addr_def split: if_splits)
  have "?n \<in> set (spec_nodes (quic_spec inp))"
    using nth_mem [OF len] unfolding initial_nodes_def by auto
  then obtain j where j: "j \<in> set (nsj_nodes (nc_network_graph (qi_config inp)))" "?n = node_of_json j"
    by (auto simp: quic_spec_def spec_of_json_def)
  have "tables_of (quic_spec inp) (sim_network s)" by (rule tables_of_reach [OF sim.reach_initial [OF assms(1)]])
  then have "map node_name (nw_nodes (sim_network s)) =
      map (\<lambda>n. (ns_id n, spec_addresses n)) (initial_nodes (quic_spec inp))" by (simp add: tables_of_def)
  then have "node_name (sim_node s i) = (ns_id ?n, spec_addresses ?n)"
    using i(1) len by (metis (no_types, lifting) nth_map)
  then have "nd_id (sim_node s i) = nj_id j" by (simp add: node_name_def j(2) node_of_json_def)
  moreover have "nj_kind j = HostJson" using kind j(2) by (simp add: node_of_json_def split: node_kind_json.splits)
  ultimately show ?thesis using quic_configs_host [OF j(1)] by (auto simp: quic_config_of_def)
qed

section \<open>The invariant of the run\<close>

lemma all_closed_step:
  assumes "all_closed opts s" and "clients_ok opts s"
  shows "all_closed opts (client_step opts lab s)"
proof -
  have closed: "qc_phase (ql_conns s ! i) = Closed" "qc_running (ql_conns s ! i) = []" if "i < length (ql_conns s)" for i
    using assms that nth_mem [OF that]
    by (auto simp: all_closed_def clients_ok_def streams_ok_def phase_ok_def)
  show ?thesis
  proof (cases lab)
    case (Connected i ok)
    with assms(1) closed show ?thesis
      by (auto simp: client_step_def at_conn_def all_closed_def split: prod.split)
  next
    case (ResumeConn i)
    with assms(1) closed show ?thesis
      by (auto simp: client_step_def at_conn_def all_closed_def resume_conn_def split: prod.split)
  next
    case (RequestDone i k ok)
    with assms(1) closed show ?thesis
      by (auto simp: client_step_def at_conn_def all_closed_def split: prod.split)
  qed (use assms(1) in \<open>auto simp: client_step_def all_closed_def\<close>)
qed

lemma join_conns_True: "join_conns cs = Some True \<longleftrightarrow> (\<forall>c \<in> set cs. qc_phase c = Closed)"
  by (induction cs) (auto split: conn_phase.split)

definition quic_phase_ok ::
  "('r, 'e) quic_input \<Rightarrow> ('r, 'e) quic_simulation \<Rightarrow> bool" where
  "quic_phase_ok inp q \<longleftrightarrow>
     (case qsm_phase q of
        Checking server client c \<Rightarrow>
          \<exists>s now. quic_network inp True now = Inr s \<and> hosts_of (qi_opts inp) s = Inr (server, client)
      | Requesting \<Rightarrow> qsm_network q \<noteq> None
      | ShuttingDown \<Rightarrow> qsm_network q \<noteq> None \<and> all_closed (qi_opts inp) (qsm_clients q)
      | Ended r \<Rightarrow>
          (case r of
             Inl e \<Rightarrow> True
           | Inr _ \<Rightarrow> qsm_network q \<noteq> None \<and> all_closed (qi_opts inp) (qsm_clients q) \<and>
               qs_shutdown (qsm_server q) = Some ShutdownOk))"

definition quic_ok ::
  "('r, 'e) quic_input \<Rightarrow> 'r rng_ops \<Rightarrow> ('r, 'e) quic_simulation \<Rightarrow> bool" where
  "quic_ok inp ops q \<longleftrightarrow>
     (\<forall>s. qsm_network q = Some s \<longrightarrow> sim.reach (quic_spec inp) ops s) \<and>
     qc.reach (qi_opts inp) (qsm_clients q) \<and>
     qserver.reach (concurrent_connections (qi_opts inp)) (qsm_server q) \<and> quic_phase_ok inp q"

lemma clients_start: "qc.reach opts (clients_new opts now)"
  by (rule qc.reach_initial) blast

lemma server_start: "qserver.reach n server_listen"
  by (rule qserver.reach_initial) simp

lemma hosts_of_started:
  assumes "started (quic_spec inp) s" and "hosts_of (qi_opts inp) s = Inr (server, client)"
  shows "(\<exists>c. quic_config_of inp s server = Inr c) \<and> (\<exists>c. quic_config_of inp s client = Inr c)"
  using assms quic_config_of_host [OF assms(1)] by (auto simp: hosts_of_def bind_ok_Inr_iff)

text \<open>Opening the network can only end in a state that is well formed, or panic without hosts.\<close>

lemma open_network_ok:
  assumes "open_network inp now = Inr q"
  shows "quic_ok inp ops q"
proof (cases "quic_network inp False now")
  case (Inl e)
  with assms show ?thesis
    by (auto simp: open_network_def Let_def quic_ok_def quic_phase_ok_def clients_start server_start)
next
  case (Inr s)
  note reach = sim.reach_initial [OF quic_network_started(1) [OF Inr], of ops]
  from assms Inr obtain ph where "q = \<lparr>qsm_network = Some s, qsm_clients = clients_new (qi_opts inp) now,
      qsm_server = server_listen, qsm_phase = ph\<rparr>" "ph = Requesting \<or> (\<exists>e. ph = Ended (Inl e))"
    by (auto simp: open_network_def Let_def bind_ok_Inr_iff split: option.splits if_splits prod.splits)
  with reach show ?thesis
    by (auto simp: quic_ok_def quic_phase_ok_def clients_start server_start)
qed

lemma quic_begin_ok:
  assumes "quic_begin inp now = Inr (lines, q)"
  shows "quic_ok inp ops q"
proof (cases "quic_network inp True now")
  case (Inl e)
  with assms show ?thesis
    by (auto simp: quic_begin_def Let_def quic_ok_def quic_phase_ok_def clients_start server_start)
next
  case (Inr s)
  show ?thesis
  proof (cases "disable_time_warping (qi_opts inp)")
    case True
    with assms Inr have "open_network inp now = Inr q"
      by (auto simp: quic_begin_def Let_def bind_ok_Inr_iff map_sum_id_Inr)
    then show ?thesis by (rule open_network_ok)
  next
    case False
    with assms Inr obtain server client where "hosts_of (qi_opts inp) s = Inr (server, client)"
      "q = \<lparr>qsm_network = None, qsm_clients = clients_new (qi_opts inp) now, qsm_server = server_listen,
        qsm_phase = Checking server client (check_new s)\<rparr>"
      by (auto simp: quic_begin_def Let_def bind_ok_Inr_iff map_sum_id_Inr)
    with Inr show ?thesis
      by (auto simp: quic_ok_def quic_phase_ok_def clients_start server_start)
  qed
qed

lemma quic_main_ok:
  assumes "quic_main inp q = Inr q'" and ok: "quic_ok inp ops q"
  shows "quic_ok inp ops q'"
proof (cases "qsm_phase q")
  case (Checking server client c)
  show ?thesis
  proof (cases "cc_phase c")
    case (Finished r)
    show ?thesis
    proof (cases r)
      case (Inl ab)
      have "q' = q\<lparr>qsm_phase := Ended (Inl (NoConnectivity (fst ab) (snd ab)))\<rparr>"
        using assms(1) by (simp add: quic_main_def Checking Finished Inl case_prod_unfold)
      with ok show ?thesis by (simp add: quic_ok_def quic_phase_ok_def)
    next
      case (Inr ab)
      with assms(1) have "open_network inp (sim_now (cc_sim c)) = Inr q'"
        by (simp add: quic_main_def Checking Finished)
      then show ?thesis by (rule open_network_ok)
    qed
  qed (use assms Checking in \<open>simp_all add: quic_main_def\<close>)
next
  case Requesting
  with assms show ?thesis
    by (auto simp: quic_main_def Let_def quic_ok_def quic_phase_ok_def all_closed_def all_spawned_def
        join_conns_True split: if_splits option.splits bool.splits)
next
  case ShuttingDown
  let ?server = "server_step (concurrent_connections (qi_opts inp)) ResumeShutdown (qsm_server q)"
  have "qserver.reach (concurrent_connections (qi_opts inp)) ?server"
    using ok by (auto simp: quic_ok_def intro: qserver.reach_step)
  with assms ShuttingDown show ?thesis
    by (auto simp: quic_main_def Let_def quic_ok_def quic_phase_ok_def
        split: option.splits shutdown_result.splits)
qed (use assms in \<open>simp add: quic_main_def\<close>)

lemma quic_step_ok:
  assumes step: "quic_step inp ops lab q = Inr q'" and ok: "quic_ok inp ops q"
  shows "quic_ok inp ops q'"
proof -
  have reach: "sim.reach (quic_spec inp) ops s" if "qsm_network q = Some s" for s using ok that by (simp add: quic_ok_def)
  have clients: "qc.reach (qi_opts inp) (client_step (qi_opts inp) l (qsm_clients q))" for l
    using ok by (auto simp: quic_ok_def intro: qc.reach_step)
  have closed: "all_closed (qi_opts inp) (client_step (qi_opts inp) l (qsm_clients q))"
    if "all_closed (qi_opts inp) (qsm_clients q)" for l
    using all_closed_step [OF that clients_ok_reach] ok by (simp add: quic_ok_def)
  show ?thesis
  proof (cases lab)
    case (QTick d)
    have "sim.reach (quic_spec inp) ops (s\<lparr>sim_now := sim_now s + d\<rparr>)" if "qsm_network q = Some s" for s
      using reach [OF that] sim.reach_step [of "quic_spec inp" ops s "Tick d"] by (simp add: net_step_def sim_step_def)
    with step ok QTick clients closed show ?thesis
      by (auto simp: quic_step_def quic_ok_def quic_phase_ok_def is_running_def split: quic_phase.splits if_splits)
  next
    case (QCheck l)
    with step ok show ?thesis
      by (auto simp: quic_step_def quic_ok_def quic_phase_ok_def map_sum_id_Inr split: quic_phase.splits)
  next
    case (QNetwork l)
    have "sim.reach (quic_spec inp) ops s'" if "qsm_network q = Some s" "sim_step ops l s = Inr s'" for s s'
      using reach [OF that(1)] that(2) by (auto simp: net_step_def intro: sim.reach_step)
    with step ok QNetwork show ?thesis
      by (auto simp: quic_step_def quic_ok_def quic_phase_ok_def is_running_def map_sum_id_Inr
          split: quic_phase.splits if_splits option.splits)
  next
    case (QClient l)
    with step ok clients closed show ?thesis
      by (auto simp: quic_step_def quic_ok_def quic_phase_ok_def is_running_def split: quic_phase.splits if_splits)
  next
    case (QServer l)
    have "qserver.reach (concurrent_connections (qi_opts inp))
        (server_step (concurrent_connections (qi_opts inp)) l (qsm_server q))"
      using ok by (auto simp: quic_ok_def intro: qserver.reach_step)
    with step ok QServer show ?thesis
      by (auto simp: quic_step_def quic_ok_def quic_phase_ok_def is_running_def split: quic_phase.splits if_splits)
  next
    case QMain
    with step have "quic_main inp q = Inr q'" by (simp add: quic_step_def split: quic_phase.splits)
    with ok show ?thesis by (blast intro: quic_main_ok)
  qed
qed

lemma quic_ok_reach: "quic.reach inp ops q \<Longrightarrow> quic_ok inp ops q"
  by (erule quic.reach_invariant) (auto intro: quic_begin_ok quic_step_ok)

section \<open>Properties\<close>


text \<open>
  A simulation that ends without error has made exactly the configured requests, each ended
  once and without error, on a network that it reached from the described one; as many connections as the client
  has were handled by the server, in the order they came and with every stream answered, unless the server
  stopped listening and handled all it had accepted.
\<close>

lemma successful_run:
  assumes "quic.reach inp ops q" and "qsm_phase q = Ended (Inr ())"
    and "0 < concurrent_connections (qi_opts inp)"
  shows "(\<exists>s. qsm_network q = Some s \<and> sim.reach (quic_spec inp) ops s) \<and>
    (\<Sum>c \<leftarrow> ql_conns (qsm_clients q). qc_requests_made c) = qo_requests (qi_opts inp) \<and>
    (\<forall>c \<in> set (ql_conns (qsm_clients q)). qc_errored c = [] \<and> distinct (map fst (qc_finished_at c)) \<and>
       fst ` set (qc_finished_at c) = {1..qc_requests_made c}) \<and>
    (\<forall>i < qs_handled (qsm_server q). sc_phase (qs_conns (qsm_server q) ! i) = Handled \<and>
       (\<forall>st \<in> set (sc_streams (qs_conns (qsm_server q) ! i)). st = StreamOk)) \<and>
    (qs_handled (qsm_server q) = concurrent_connections (qi_opts inp) \<or>
       \<not> qs_listening (qsm_server q) \<and> qs_handled (qsm_server q) = length (qs_conns (qsm_server q)))"
proof -
  have ok: "quic_ok inp ops q" by (rule quic_ok_reach [OF assms(1)])
  then have closed: "all_closed (qi_opts inp) (qsm_clients q)" and "qsm_network q \<noteq> None"
    and shutdown: "qs_shutdown (qsm_server q) = Some ShutdownOk"
    and clients: "qc.reach (qi_opts inp) (qsm_clients q)"
    and server: "server_ok (concurrent_connections (qi_opts inp)) (qsm_server q)"
    using assms(2) by (auto simp: quic_ok_def quic_phase_ok_def intro: server_ok_reach)
  moreover from server shutdown assms(3)
  have "qs_handled (qsm_server q) = concurrent_connections (qi_opts inp) \<or>
      \<not> qs_listening (qsm_server q) \<and> qs_handled (qsm_server q) = length (qs_conns (qsm_server q))"
    by (auto simp: server_ok_def shutdown_ok_def max_def split: if_splits)
  ultimately show ?thesis
    using all_closed_requests [OF clients_ok_reach [OF clients] closed assms(3)]
      closed_conn_finished [OF clients_ok_reach [OF clients] closed] handled_conn_ok [OF server] ok
    by (auto simp: quic_ok_def)
qed

lemma quic_run_reach:
  "quic.reach inp ops q \<Longrightarrow> quic_run inp ops labs q = Inr q' \<Longrightarrow> quic.reach inp ops q'"
  unfolding quic_run_def
  by (induction labs arbitrary: q) (auto simp: bind_ok_Inr_iff intro: quic.reach_step)

lemma quic_run_Cons: "quic_run inp ops (lab # labs) q = bind_ok (quic_step inp ops lab q) (quic_run inp ops labs)"
  by (simp add: quic_run_def [abs_def])

lemma quic_run_Nil: "quic_run inp ops [] q = Inr q"
  by (simp add: quic_run_def)

text \<open>While it runs, the steps of the clients and of the server are those of their own models.\<close>

lemma run_clients:
  "is_running (qsm_phase q) \<Longrightarrow> \<forall>l \<in> set ls. \<not> is_client_tick l \<Longrightarrow>
   quic_run inp ops (map QClient ls @ labs) q =
     quic_run inp ops labs (q\<lparr>qsm_clients := client_run (qi_opts inp) ls (qsm_clients q)\<rparr>)"
proof (induction ls arbitrary: q)
  case Nil
  then show ?case by (simp add: client_run_def)
next
  case (Cons l ls)
  have "quic_step inp ops (QClient l) q = Inr (q\<lparr>qsm_clients := client_step (qi_opts inp) l (qsm_clients q)\<rparr>)"
    using Cons.prems by (simp add: quic_step_def)
  with Cons.IH [of "q\<lparr>qsm_clients := client_step (qi_opts inp) l (qsm_clients q)\<rparr>"] Cons.prems show ?case
    by (simp add: quic_run_Cons client_run_def)
qed

lemma run_server:
  "is_running (qsm_phase q) \<Longrightarrow> ResumeShutdown \<notin> set ls \<Longrightarrow>
   quic_run inp ops (map QServer ls @ labs) q =
     quic_run inp ops labs
       (q\<lparr>qsm_server := server_run (concurrent_connections (qi_opts inp)) ls (qsm_server q)\<rparr>)"
proof (induction ls arbitrary: q)
  case Nil
  then show ?case by (simp add: server_run_def)
next
  case (Cons l ls)
  let ?q = "q\<lparr>qsm_server := server_step (concurrent_connections (qi_opts inp)) l (qsm_server q)\<rparr>"
  have "quic_step inp ops (QServer l) q = Inr ?q"
    using Cons.prems by (auto simp: quic_step_def)
  with Cons.IH [of ?q] Cons.prems show ?case by (simp add: quic_run_Cons server_run_def)
qed

text \<open>One request over the network of two hosts, without the check and with what QUIC does to it.\<close>

definition one_request :: "(nat, unit) quic_input" where
  "one_request =
     \<lparr>qi_opts = (quic_opt_default sample_network)\<lparr>qo_requests := 1, disable_time_warping := True\<rparr>,
      qi_config = test_config, qi_with_seed = id, qi_entropy = (0, 0), qi_server_error = None, qi_client_error = None\<rparr>"

definition one_client_labels :: "client_label list" where
  "one_client_labels = [Connected 0 True, RequestDone 0 1 True, ResumeConn 0]"

definition one_server_labels :: "server_label list" where
  "one_server_labels =
     [Incoming, Established 0 True, AcceptBi 0 True, RequestRead 0 0 (Some request_text), ResponseDone 0 0 True,
      AcceptBi 0 False, ConnClosed 0 True]"

definition one_request_labels :: "quic_label list" where
  "one_request_labels =
     map QClient [SpawnConn] @ QTick (millis 1) # map QClient one_client_labels @
     map QServer one_server_labels @ [QMain, QMain]"

lemma one_request_begins:
  obtains lines s where "quic_begin one_request 0 = Inr (lines, \<lparr>qsm_network = Some s,
      qsm_clients = clients_new (qi_opts one_request) 0, qsm_server = server_listen, qsm_phase = Requesting\<rparr>)"
proof -
  have "case quic_network one_request True 0 of Inl _ \<Rightarrow> False | Inr s0 \<Rightarrow>
      (case initial_status_lines (quic_spec one_request) (sim_network s0) of Inl _ \<Rightarrow> False | Inr _ \<Rightarrow> True)"
    by code_simp
  then obtain s0 lines where s0: "quic_network one_request True 0 = Inr s0"
    and lines: "initial_status_lines (quic_spec one_request) (sim_network s0) = Inr lines"
    by (auto split: sum.splits)
  have "case quic_network one_request False 0 of Inl _ \<Rightarrow> False | Inr s \<Rightarrow>
      (case hosts_of (qi_opts one_request) s of Inl _ \<Rightarrow> False | Inr _ \<Rightarrow> True)"
    by code_simp
  then obtain s server client where s: "quic_network one_request False 0 = Inr s"
    and hosts: "hosts_of (qi_opts one_request) s = Inr (server, client)"
    by (auto split: sum.splits)
  obtain cs cc where "quic_config_of one_request s server = Inr cs" "quic_config_of one_request s client = Inr cc"
    using hosts_of_started [OF quic_network_started(1) [OF s] hosts] by blast
  moreover have "disable_time_warping (qi_opts one_request)" "qi_server_error one_request = None"
    "qi_client_error one_request = None"
    "concurrent_connections (qi_opts one_request) \<le> max_connections"
    by (simp_all add: one_request_def quic_opt_default_def max_connections_def)
  ultimately show thesis
    using that [of lines s] s0 lines s hosts
    by (auto simp: quic_begin_def open_network_def hosts_of_def bind_ok_Inr_iff)
qed

lemma one_request_runs:
  assumes "q = \<lparr>qsm_network = Some s, qsm_clients = clients_new (qi_opts one_request) 0,
      qsm_server = server_listen, qsm_phase = Requesting\<rparr>"
  shows "\<exists>q'. quic_run one_request ops one_request_labels q = Inr q' \<and>
    qsm_phase q' = Ended (Inr ()) \<and> qs_handled (qsm_server q') = 1"
proof -
  let ?opts = "qi_opts one_request"
  let ?c = "client_run ?opts one_client_labels
      (client_step ?opts (ClientTick (millis 1)) (client_run ?opts [SpawnConn] (clients_new ?opts 0)))"
  let ?sv = "server_run 1 one_server_labels server_listen"
  let ?q = "\<lparr>qsm_network = Some (s\<lparr>sim_now := sim_now s + millis 1\<rparr>), qsm_clients = ?c, qsm_server = ?sv,
      qsm_phase = Requesting\<rparr>"
  have c: "all_spawned ?opts ?c" "join_conns (ql_conns ?c) = Some True"
    by code_simp+
  have sv: "qs_shutdown (server_step 1 ResumeShutdown ?sv) = Some ShutdownOk"
    "qs_handled (server_step 1 ResumeShutdown ?sv) = 1"
    by code_simp+
  have one: "concurrent_connections ?opts = 1" by (simp add: one_request_def quic_opt_default_def)
  have "\<forall>l \<in> set one_client_labels. \<not> is_client_tick l" "ResumeShutdown \<notin> set one_server_labels"
    by (simp_all add: one_client_labels_def one_server_labels_def is_client_tick_def)
  moreover have "quic_run one_request ops one_request_labels q =
      quic_run one_request ops (QTick (millis 1) # map QClient one_client_labels @
        map QServer one_server_labels @ [QMain, QMain])
        (q\<lparr>qsm_clients := client_run ?opts [SpawnConn] (clients_new ?opts 0)\<rparr>)"
    unfolding one_request_labels_def
    by (subst run_clients) (simp_all add: assms is_running_def is_client_tick_def)
  ultimately have "quic_run one_request ops one_request_labels q = quic_run one_request ops [QMain, QMain] ?q"
    by (simp add: quic_run_Cons [where lab = "QTick d" for d] assms quic_step_def is_running_def run_clients run_server one)
  moreover have "quic_step one_request ops QMain ?q = Inr (?q\<lparr>qsm_phase := ShuttingDown\<rparr>)"
    using c by (simp add: quic_step_def quic_main_def)
  moreover have "quic_step one_request ops QMain (?q\<lparr>qsm_phase := ShuttingDown\<rparr>) =
      Inr (?q\<lparr>qsm_server := server_step 1 ResumeShutdown ?sv, qsm_phase := Ended (Inr ())\<rparr>)"
    using sv by (simp add: quic_step_def quic_main_def Let_def one)
  ultimately show ?thesis using sv by (simp add: quic_run_Cons quic_run_Nil)
qed

lemma one_request_reach:
  assumes "quic_begin one_request 0 = Inr (lines, q)" and "quic_run one_request ops labs q = Inr q'"
  shows "quic.reach one_request ops q'"
  using assms by (blast intro: quic_run_reach quic.reach_initial)

lemma one_request_succeeds:
  "\<exists>lines q q'. quic_begin one_request 0 = Inr (lines, q) \<and>
     quic_run one_request counter_rng one_request_labels q = Inr q' \<and> qsm_phase q' = Ended (Inr ()) \<and>
     (\<Sum>c \<leftarrow> ql_conns (qsm_clients q'). qc_requests_made c) = 1 \<and>
     sc_phase (qs_conns (qsm_server q') ! 0) = Handled"
proof -
  obtain lines s where b: "quic_begin one_request 0 = Inr (lines, \<lparr>qsm_network = Some s,
      qsm_clients = clients_new (qi_opts one_request) 0, qsm_server = server_listen, qsm_phase = Requesting\<rparr>)"
    by (rule one_request_begins)
  obtain q' where r: "quic_run one_request counter_rng one_request_labels \<lparr>qsm_network = Some s,
      qsm_clients = clients_new (qi_opts one_request) 0, qsm_server = server_listen, qsm_phase = Requesting\<rparr> = Inr q'"
    and q': "qsm_phase q' = Ended (Inr ())" "qs_handled (qsm_server q') = 1"
    using one_request_runs [OF refl] by blast
  have "concurrent_connections (qi_opts one_request) = 1" "qo_requests (qi_opts one_request) = 1"
    by (simp_all add: one_request_def quic_opt_default_def)
  with successful_run [OF one_request_reach [OF b r] q'(1)] q'(2)
  have "(\<Sum>c \<leftarrow> ql_conns (qsm_clients q'). qc_requests_made c) = 1"
    "sc_phase (qs_conns (qsm_server q') ! 0) = Handled"
    by simp_all
  with b r q'(1) show ?thesis by blast
qed



end
