(* ===== verification/Spec2Isabelle.thy ===== *)
theory Spec2Isabelle
  imports Connectivity Workbench_Report Golden_Tests Udp_Ping Throughput_Run Quic_Run
begin

text \<open>
  A model of the network simulator and of the workbench that runs QUIC over it.

  The repository has three crates. \<^verbatim>\<open>src/in-memory-network\<close> simulates a network of hosts and routers
  joined by one-way links: nodes have a bounded buffer, links a bandwidth, a delay and random
  failures, and scripted events turn both off and on. Every packet is traced; the log can be
  replayed by an independent verifier. \<^verbatim>\<open>src/quinn-workbench\<close> reads a network from JSON, runs a QUIC
  transfer, a UDP ping or a UDP throughput test over it and prints statistics. \<^verbatim>\<open>src/golden-tests\<close>
  compares such runs with stored ones.

  \<^bold>\<open>Parts and theories.\<close> The theories follow the files; a definition has the name of the function or
  type it models.

  \<^item> \<open>Net_Prelude\<close>: instants and durations (natural numbers of nanoseconds), saturating and wrapping
    64-bit arithmetic, lemmas on lists, maps and sums, the named collections, and the locale
    \<open>transition_system\<close> with reachability and invariants. \<open>Float64\<close>: rounding of \<open>f64\<close> on rationals.
  \<^item> \<open>Ip_Route\<close>: \<^verbatim>\<open>network/ip.rs\<close>, \<^verbatim>\<open>network/route.rs\<close>. \<open>Net_Spec\<close>: \<^verbatim>\<open>network/spec.rs\<close>, \<^verbatim>\<open>network/event.rs\<close>,
    \<^verbatim>\<open>transmit.rs\<close>, \<^verbatim>\<open>lib.rs\<close>.
  \<^item> \<open>Outbound_Buffer\<close>, \<open>Inbound_Queue\<close>, \<open>Node\<close>, \<open>Link\<close>: the files of the same names under
    \<^verbatim>\<open>network/\<close>. A lock is a plain field, since a step runs between two await points of one task
    on a single thread. A future with state (the delivery of packets) is a record with a poll function.
  \<^item> \<open>Tracing\<close>: \<^verbatim>\<open>tracing/tracer.rs\<close>, \<^verbatim>\<open>simulation_step.rs\<close>, \<^verbatim>\<open>simulation_stepper.rs\<close>, \<^verbatim>\<open>stats.rs\<close>.
  \<^item> \<open>Network\<close>: \<^verbatim>\<open>network/mod.rs\<close>. Initialisation is a function that may fail; the background tasks
    (events, one task per node buffer, one task and one forwarder per link) and the sockets are the
    labels of \<open>sim_step\<close>, a function into a sum whose left side is a panic. The task of a link is in one
    of the phases of \<open>link_phase\<close>, its await points. \<open>'r rng_ops\<close> stands for the random generator of the
    \<^verbatim>\<open>fastrand\<close> crate. The interpretation \<open>sim\<close> gives reachability. \<open>Network_Inv\<close>, \<open>Network_Pacing\<close> and
    \<open>Network_Buffers\<close> hold the invariants of time, of the link tasks (with \<open>link_task_rule\<close>, a rule
    for invariants through such a task) and of the byte budgets; \<open>Routing\<close>
    the walks over routes; \<open>Provenance\<close> shows that every packet comes from a send; \<open>Connectivity\<close> is the check that two hosts reach each other; \<open>Scenario\<close> is a
    network of two hosts on which the witnesses run.
  \<^item> \<open>Sliding_Window\<close>: the locale of a queue of timed values with a running total, interpreted
    for the bandwidth windows of the verifier and for the throughput test.
  \<^item> \<open>Verifier\<close>: \<^verbatim>\<open>tracing/simulation_verifier.rs\<close>, every step kind, with fatal errors and panics as
    values. \<open>Verifier_Sound\<close>: what an accepted log guarantees, and that the replay never panics.
    \<open>Replay_Book\<close>, \<open>Network_Replay\<close>, \<open>Replay_Run\<close>: the log that a run of the network writes is one
    the verifier replays to its end. The book says where each packet of a log is; the tables of the
    verifier refine the book, and so do the queues, channels, offers and flights of the network.
  \<^item> \<open>Pcap\<close>: \<^verbatim>\<open>pcap_exporter.rs\<close>. \<open>Quinn_Socket\<close>: \<^verbatim>\<open>quinn_interop.rs\<close>.
  \<^item> \<open>Workbench_Config\<close>: \<^verbatim>\<open>config/network.rs\<close>, \<^verbatim>\<open>config/quinn.rs\<close>, \<^verbatim>\<open>config/cli.rs\<close>. \<open>Udp_Throughput\<close>,
    \<open>Udp_Ping\<close>: \<^verbatim>\<open>udp/throughput.rs\<close>, \<^verbatim>\<open>udp/ping.rs\<close>. \<open>Throughput_Run\<close>: \<^verbatim>\<open>run\<close> of \<^verbatim>\<open>udp/throughput.rs\<close> as the
    composition of its tasks, the network and the \<^verbatim>\<open>CancellationToken\<close> of \<^verbatim>\<open>util.rs\<close>.
  \<^item> \<open>Quic_Setup\<close>: \<^verbatim>\<open>quic/mod.rs\<close>, \<^verbatim>\<open>quinn_extensions\<close>. \<open>Quic_Client\<close>, \<open>Quic_Progress\<close>:
    \<^verbatim>\<open>quic/simulation.rs\<close>, \<^verbatim>\<open>quic/client.rs\<close>, the connection tasks that share the number of requests.
    \<open>Quic_Server\<close>: \<^verbatim>\<open>quic/server.rs\<close> and the shutdown of \<^verbatim>\<open>quic/simulation.rs\<close> that awaits its connections.
    \<open>Quic_Run\<close>: \<^verbatim>\<open>QuicSimulation::run\<close> as the composition of the connectivity check, the network of the
    run, the client and server tasks and the shutdown.
  \<^item> \<open>Workbench_Report\<close>: \<^verbatim>\<open>util.rs\<close> and what the three commands do before and after a run; a printed line is a
    value with its numbers, the order of a hash map an argument. \<open>Golden_Tests\<close>: \<^verbatim>\<open>golden-tests/src/main.rs\<close>.

  \<^bold>\<open>How they interact.\<close> A socket builds a packet and forwards it from its node; forwarding puts it
  into the inbound queue of the host or, after the byte budget is reserved, into the channel of the
  node. The buffer task offers it to the links towards its destination; the first link task with
  bandwidth sends it, releases its bytes and puts it into the inbound queue of the link, whose forwarder
  passes it to the next node. Each of these traces a step; the verifier reads only the log and the
  network's description.

  \<^bold>\<open>What the lemmas show.\<close> The properties of this theory span the components: byte budgets, the shape of the state, panics of
  link tasks, the order of the log, the two walks over routes, the soundness and totality of the
  verifier, and the agreement of the network with it. The component theories show functional behaviour (deliveries, events, captures, sockets),
  bounds (pacing, wire time, deadlines, intervals between requests), round trips (CIDR
  blocks, the block of secrets, golden tests), progress (waiters of a link, the client tasks) and the deviations
  that modelling found, each as a theorem about the code as it is.

  \<^bold>\<open>Bounds and fuel.\<close> No definition uses fuel: loops are structural or have a measure. Sizes and
  times that the code keeps in 64 bits are natural numbers with saturation or wrap-around written out
  where the code can reach it; elsewhere a theorem assumes the bound it needs (fewer than \<open>2^64\<close> bytes in a
  log, a nonzero bandwidth below \<open>2^53\<close>). The number of a request is an \<open>i32\<close> in the code and a natural
  number here.

  \<^bold>\<open>Not modelled.\<close> The asynchronous runtime and its timers (time is the label of a step); the crates
  behind \<open>serde\<close>, \<open>clap\<close>, \<open>quinn\<close>, \<open>rustls\<close>, \<open>pcap_file\<close> and \<open>pnet_packet\<close> (parameters where the code
  depends on what they return); certificates, key logs on disk, qlog files; the wording of printed lines and messages of progress,
  the text of a diff; the dispatch of commands and the parsing of files in \<^verbatim>\<open>main.rs\<close>. The files of the
  golden tests are texts that can be read, so a file that is no valid UTF-8 is left out.
\<close>

section \<open>Properties of every run of the network\<close>

text \<open>
  C2. In every reachable state the free bytes of a node, the bytes in its channel and the bytes of
  its packets that links still have to handle never exceed its buffer size. As long as its buffer
  was never cleared and its task is alive they are exactly the buffer size.
\<close>

theorem node_budget_accounted:
  assumes "sim.reach spec ops s" and "\<forall>n \<in> set (spec_nodes spec). ns_buffer_size_bytes n < 2 ^ 64"
  shows "\<exists>owner.
    (\<forall>l < length (nw_links (sim_network s)). \<forall>p \<in> set (link_packets s l).
       owner (op_handled p) = (op_src_node p, pkt_size (op_data p))) \<and>
    (\<forall>i < length (node_capacities spec).
       let n = sim_node s i;
           used = available_capacity_bytes (nd_outbound_buffer n) + channel_bytes n +
                  pending (sim_handled s) owner i
       in used \<le> node_capacities spec ! i \<and>
          (nd_last_buffer_clear n = None \<and> nd_receiver n \<longrightarrow> used = node_capacities spec ! i))"
proof -
  obtain owner where "accounts_ok (node_capacities spec) owner s"
    using accounts_reach [OF assms] by blast
  then show ?thesis
    by (intro exI [of _ owner]) (simp add: accounts_ok_def owned_def account_ok_def node_bytes_def Let_def)
qed

theorem node_budget_accounted_witness:
  "\<exists>s. pair_run [] one_packet = Some s \<and>
     (\<forall>i < 2. available_capacity_bytes (nd_outbound_buffer (sim_node s i)) \<le> 100)"
proof -
  obtain s where s: "pair_run [] one_packet = Some s" using one_packet_runs by blast
  have small: "\<forall>n \<in> set (spec_nodes pair_spec). ns_buffer_size_bytes n < 2 ^ 64"
    by (simp add: pair_spec_def host_a_def host_b_def)
  have caps: "node_capacities pair_spec = [100, 100]"
    by (simp add: node_capacities_def initial_nodes_def pair_spec_def host_a_def host_b_def)
  from node_budget_accounted [OF pair_run_reach [OF s] small]
  have le: "available_capacity_bytes (nd_outbound_buffer (sim_node s i)) \<le> [100, 100] ! i" if "i < 2" for i
    using that by (auto simp: Let_def caps numeral_2_eq_2 less_Suc_eq)
  from le [of 0] le [of 1] have "\<forall>i < 2. available_capacity_bytes (nd_outbound_buffer (sim_node s i)) \<le> 100"
    by (simp add: less_2_cases_iff)
  with s show ?thesis by blast
qed

text \<open>
  C4. The state keeps its shape in every reachable state: nodes and links are those of the
  description, each link has one task and one forwarder, the tables refer to nodes and links that
  exist, a semaphore has at most one permit, and a packet in the queue or in the hands of a link's
  task refers to an existing node and to an existing flag.
\<close>

theorem state_keeps_shape:
  assumes "sim.reach spec ops s"
  shows "let nw = sim_network s; nodes = length (spec_nodes spec); links = length (spec_links spec) in
    length (nw_nodes nw) = nodes \<and> length (nw_links nw) = links \<and>
    length (sim_link_tasks s) = links \<and> length (sim_forwarders s) = links \<and>
    ran (nw_nodes_by_addr nw) \<subseteq> {..<nodes} \<and> ran (nw_nodes_by_id nw) \<subseteq> {..<nodes} \<and>
    ran (nw_links_by_addr nw) \<subseteq> {..<links} \<and> ran (nw_links_by_id nw) \<subseteq> {..<links} \<and>
    (\<forall>l < links. nl_semaphore (nw_links nw ! l) \<le> 1 \<and>
       (\<forall>p \<in> set (link_packets s l). op_src_node p < nodes \<and> op_handled p < length (sim_handled s)))"
proof -
  note tables = tables_of_reach [OF assms] and tasks = tasks_ok_reach [OF assms] and clock = clock_ok_reach [OF assms]
  have "map node_name (nw_nodes (sim_network s)) = map (\<lambda>n. (ns_id n, spec_addresses n)) (initial_nodes spec)"
    using tables by (simp add: tables_of_def)
  then have "length (nw_nodes (sim_network s)) = length (initial_nodes spec)"
    by (rule map_eq_imp_length_eq)
  also have "\<dots> = length (spec_nodes spec)"
    by (simp add: initial_nodes_def sum_length_filter_compl)
  finally have nodes: "length (nw_nodes (sim_network s)) = length (spec_nodes spec)" .
  have links: "length (nw_links (sim_network s)) = length (spec_links spec)" using tables by (simp add: tables_of_def)
  have "nl_semaphore (sim_link s l) \<le> 1" if "l < length (spec_links spec)" for l
    using tasks that links by (cases "sim_link_tasks s ! l") (auto simp: tasks_ok_def)
  then show ?thesis
    using tasks clock nodes links
    by (simp add: tasks_ok_def tables_ok_def clock_ok_def packet_ok_def in_bounds_ran Let_def)
qed

theorem state_keeps_shape_witness:
  "\<exists>s. pair_run [] one_packet = Some s \<and> length (nw_nodes (sim_network s)) = 2 \<and>
     ran (nw_links_by_id (sim_network s)) \<subseteq> {0} \<and> nl_semaphore (sim_link s 0) \<le> 1"
proof -
  obtain s where s: "pair_run [] one_packet = Some s" using one_packet_runs by blast
  have "{..<1} = {0::nat}" by auto
  with state_keeps_shape [OF pair_run_reach [OF s]] s show ?thesis
    by (simp add: Let_def pair_spec_def)
qed

text \<open>
  C9. In every reachable state, one more step of the task of a link either succeeds or stops at one
  of two assertions: the packet was to be marked for congestion but its sender does not support
  ECN, or the link went down while the task had yielded to preferred links. The checks that the
  pacer is ready and that waiting for bandwidth was necessary never fail.
\<close>

theorem link_task_panics:
  assumes "sim.reach spec ops s" and "l < length (nw_links (sim_network s))"
  shows "case process_link_queue l s of
      Inr s' \<Rightarrow> True
    | Inl e \<Rightarrow> (\<exists>i. e = EcnUnsupported i) \<or>
        (\<exists>p. sim_link_tasks s ! l = Yielded p) \<and> (\<exists>i. e = LinkIsDown i)"
  using process_link_queue_piece [OF tasks_ok_reach [OF assms(1)] assms(2)]
  by (simp add: task_panic_def split: sum.splits)

theorem link_task_panics_witness:
  "\<exists>s. pair_run [] one_packet = Some s \<and>
     (case process_link_queue 0 s of
        Inr s' \<Rightarrow> True
      | Inl e \<Rightarrow> (\<exists>i. e = EcnUnsupported i) \<or>
          (\<exists>p. sim_link_tasks s ! 0 = Yielded p) \<and> (\<exists>i. e = LinkIsDown i))"
proof -
  obtain s where s: "pair_run [] one_packet = Some s" using one_packet_runs by blast
  have "length (nw_links (sim_network s)) = 1"
    using tables_of_reach [OF pair_run_reach [OF s]] by (simp add: tables_of_def pair_spec_def)
  then show ?thesis using link_task_panics [OF pair_run_reach [OF s], of 0] s by simp
qed

text \<open>
  C11. In every reachable state the log is in time order and no step of it lies in the future, and
  every packet in flight was sent in the past and arrives no earlier than the delay of its link
  after that.
\<close>

theorem log_in_time_order:
  assumes "sim.reach spec ops s"
  shows "sorted (map st_relative_time (log_of (nw_tracer (sim_network s)))) \<and>
    (\<forall>step \<in> set (log_of (nw_tracer (sim_network s))).
       st_relative_time step \<le> sim_now s - tr_simulation_start (nw_tracer (sim_network s))) \<and>
    (\<forall>l < length (nw_links (sim_network s)). \<forall>p \<in> set (iq_queue (nl_in_transit (sim_link s l))).
       pd_sent p \<le> sim_now s \<and> pd_sent p + nl_delay (sim_link s l) \<le> arrival_time p)"
  using clock_ok_reach [OF assms]
  by (auto simp: clock_ok_def chronological_def in_flight_ok_def arrival_time_def)

theorem log_in_time_order_witness:
  "\<exists>s. pair_run [] one_packet = Some s \<and>
     sorted (map st_relative_time (log_of (nw_tracer (sim_network s))))"
proof -
  obtain s where s: "pair_run [] one_packet = Some s" using one_packet_runs by blast
  with log_in_time_order [OF pair_run_reach [OF s]] show ?thesis by blast
qed

text \<open>
  C13. In every reachable state routing at a node never misses a route table. The links a packet is
  offered to are the direct links to its destination followed by the links of the matching routes,
  cheapest first, and the test for a route says whether there is such a link.
\<close>

theorem routing_is_complete:
  assumes "sim.reach spec ops s" and "i < length (nw_nodes (sim_network s))"
  shows "links_towards (sim_network s) (sim_node s i) dest =
      Inr (preferred_links (sim_network s) (sim_node s i) dest) \<and>
    has_route_to (sim_network s) (sim_node s i) dest =
      Inr (preferred_links (sim_network s) (sim_node s i) dest \<noteq> []) \<and>
    (\<forall>a. sorted (map cost (route_table (sim_network s) a)))"
proof -
  note t = has_route_tables_reach [OF assms]
  have "nw_routes_by_addr (sim_network s) = routes_of_spec spec"
    using tables_of_reach [OF assms(1)] by (simp add: tables_of_def)
  then have "sorted (map cost (route_table (sim_network s) a))" for a
    using routes_of_spec_sorted [of spec a] by (simp add: route_table_def split: option.split)
  then show ?thesis using links_towards_preferred [OF t] has_route_to_preferred [OF t] by simp
qed

theorem routing_is_complete_witness:
  "\<exists>s. pair_run [] one_packet = Some s \<and>
     links_towards (sim_network s) (sim_node s 0) (V4 2) =
       Inr (preferred_links (sim_network s) (sim_node s 0) (V4 2))"
proof -
  obtain s where s: "pair_run [] one_packet = Some s" using one_packet_runs by blast
  have "0 < length (nw_nodes (sim_network s))" using pair_nodes [OF s] by simp
  from routing_is_complete [OF pair_run_reach [OF s] this] s show ?thesis by blast
qed

section \<open>Properties of the verifier\<close>

text \<open>
  C10. On a recorded log whose packets have fewer than \<open>2^64\<close> bytes in total, in any order of its
  steps, the verifier returns a verdict: none of its indexing, subtractions and unwraps panics.
\<close>

theorem verifier_never_panics:
  assumes "sum_list (map step_bytes steps) < 2 ^ 64"
  shows "case verifier_new steps spec of
      Inl e \<Rightarrow> True
    | Inr v \<Rightarrow> (case verify order v of Inl (es, a) \<Rightarrow> a \<noteq> Panic | Inr r \<Rightarrow> True)"
  using verify_no_panic [OF _ assms] by (fastforce simp: no_panic_def split: sum.splits)

text \<open>One packet crosses the link of the pair network.\<close>

definition pair_log :: "simulation_step list" where
  "pair_log =
     [\<lparr>st_relative_time = 0,
       st_kind = PacketInNode \<lparr>pin_packet_id = 1, pin_packet_number = 0, pin_packet_size_bytes = 29,
                               pin_node_id = ''a'', pin_dropped_on_arrival = False\<rparr>\<rparr>,
      \<lparr>st_relative_time = 0,
       st_kind = PacketInTransit \<lparr>pit_packet_id = 1, pit_node_id = ''a'', pit_link_id = ''l''\<rparr>\<rparr>,
      \<lparr>st_relative_time = 10000000,
       st_kind = PacketInNode \<lparr>pin_packet_id = 1, pin_packet_number = 0, pin_packet_size_bytes = 29,
                               pin_node_id = ''b'', pin_dropped_on_arrival = False\<rparr>\<rparr>]"

theorem verifier_never_panics_witness:
  "case verifier_new pair_log pair_spec of
     Inl e \<Rightarrow> True
   | Inr v \<Rightarrow> (case verify [''a'', ''b''] v of Inl (es, a) \<Rightarrow> a \<noteq> Panic | Inr r \<Rightarrow> True)"
  by (rule verifier_never_panics) (simp add: pair_log_def step_bytes_def)

lemma accepted_pair_log:
  obtains v r where "verifier_new pair_log pair_spec = Inr v" "verify [''a'', ''b''] v = Inr r"
    "non_fatal_errors r = []"
proof -
  have "case verifier_new pair_log pair_spec of Inl e \<Rightarrow> False
      | Inr v \<Rightarrow> (case verify [''a'', ''b''] v of Inl e \<Rightarrow> False | Inr r \<Rightarrow> non_fatal_errors r = [])"
    by code_simp
  then show ?thesis using that by (auto split: sum.splits)
qed

text \<open>
  C6. If the verifier accepts a log that is in time order, then every transmission of the log uses a
  link of the network specification that starts at an address of the sending node, at a moment at
  which, by the events of the log so far, both the link and the node are up.
\<close>

theorem accepted_transmissions:
  assumes "verifier_new steps spec = Inr v" and "sorted (map st_relative_time steps)"
    and "verify order v = Inr r" and "non_fatal_errors r = []"
    and "steps = before @ step # rest" and "st_kind step = PacketInTransit s"
  shows "\<exists>l \<in> set (spec_links spec). ls_id l = pit_link_id s \<and> owns spec (pit_node_id s) (ls_source l) \<and>
    link_status_after (pit_link_id s) before = LinkUp \<and> node_status_after (pit_node_id s) before = NodeUp"
proof -
  have "fresh_verifier v" using assms(1) by (auto simp: fresh_verifier_def)
  moreover have "sv_steps v = before @ step # rest"
    using verifier_new_Inr(7) [OF assms(1)] assms(2,5) by simp
  ultimately obtain md where md: "sv_link_metadata v (pit_link_id s) = Some md"
    "lm_source_node_id md = pit_node_id s" "link_status_after (pit_link_id s) before = LinkUp"
    "node_status_after (pit_node_id s) before = NodeUp"
    using accepted_send [OF assms(3,4)] assms(6) by blast
  have "describes spec (pit_link_id s) md" using verifier_new_metadata(1) [OF assms(1) md(1)] .
  with md show ?thesis by (auto simp: describes_def)
qed

theorem accepted_transmissions_witness:
  "\<exists>v r. verifier_new pair_log pair_spec = Inr v \<and> verify [''a'', ''b''] v = Inr r \<and>
     non_fatal_errors r = [] \<and>
     (\<exists>l \<in> set (spec_links pair_spec). ls_id l = ''l'' \<and> owns pair_spec ''a'' (ls_source l))"
proof -
  obtain v r where v: "verifier_new pair_log pair_spec = Inr v" "verify [''a'', ''b''] v = Inr r"
    "non_fatal_errors r = []" by (rule accepted_pair_log)
  from accepted_transmissions [OF v(1) _ v(2,3), of "take 1 pair_log" "pair_log ! 1" "drop 2 pair_log"
      "\<lparr>pit_packet_id = 1, pit_node_id = ''a'', pit_link_id = ''l''\<rparr>"]
  show ?thesis using v by (auto simp: pair_log_def)
qed

text \<open>
  C5. If the verifier accepts a log that is in time order, then every arrival at a node is either
  that of a new packet at a host, or ends a flight over a link of the specification that leads to
  the node, which took at least the delay of the link and during which the link did not go down.
\<close>

theorem accepted_arrivals:
  assumes "verifier_new steps spec = Inr v" and "sorted (map st_relative_time steps)"
    and "verify order v = Inr r" and "non_fatal_errors r = []"
    and "steps = before @ step # rest" and "st_kind step = PacketInNode s"
  shows "case flight_after (pin_packet_id s) before of
      None \<Rightarrow> \<exists>n \<in> set (spec_nodes spec). ns_id n = pin_node_id s \<and> ns_kind n = Host
    | Some (sent, i) \<Rightarrow>
        \<exists>l \<in> set (spec_links spec). ls_id l = i \<and> owns spec (pin_node_id s) (ls_target l) \<and>
          sent + ls_delay l \<le> st_relative_time step \<and>
          (\<forall>d. last_down_after i before = Some d \<longrightarrow> d < sent)"
proof -
  have "fresh_verifier v" using assms(1) by (auto simp: fresh_verifier_def)
  moreover have "sv_steps v = before @ step # rest"
    using verifier_new_Inr(7) [OF assms(1)] assms(2,5) by simp
  ultimately have a: "case flight_after (pin_packet_id s) before of
      None \<Rightarrow> pin_node_id s \<in> sv_host_nodes v
    | Some (sent, l) \<Rightarrow>
        \<exists>md. sv_link_metadata v l = Some md \<and> lm_target_node_id md = pin_node_id s \<and>
          sent + lm_delay md \<le> st_relative_time step \<and>
          (\<forall>d. last_down_after l before = Some d \<longrightarrow> d < sent)"
    using accepted_receive [OF assms(3,4)] assms(6) by blast
  show ?thesis
  proof (cases "flight_after (pin_packet_id s) before")
    case None
    with a show ?thesis using verifier_new_metadata(2) [OF assms(1)] by auto
  next
    case (Some f)
    then show ?thesis
      using a verifier_new_metadata(1) [OF assms(1)] by (cases f) (fastforce simp: describes_def)
  qed
qed

theorem accepted_arrivals_witness:
  "\<exists>v r. verifier_new pair_log pair_spec = Inr v \<and> verify [''a'', ''b''] v = Inr r \<and>
     non_fatal_errors r = [] \<and> flight_after 1 (take 2 pair_log) = Some (0, ''l'') \<and>
     (\<exists>l \<in> set (spec_links pair_spec). ls_id l = ''l'' \<and> owns pair_spec ''b'' (ls_target l) \<and>
        0 + ls_delay l \<le> 10000000)"
proof -
  obtain v r where v: "verifier_new pair_log pair_spec = Inr v" "verify [''a'', ''b''] v = Inr r"
    "non_fatal_errors r = []" by (rule accepted_pair_log)
  have f: "flight_after 1 (take 2 pair_log) = Some (0, ''l'')"
    by (simp add: pair_log_def flight_after_def flight_step_def)
  from accepted_arrivals [OF v(1) _ v(2,3), of "take 2 pair_log" "pair_log ! 2" "[]"
      "\<lparr>pin_packet_id = 1, pin_packet_number = 0, pin_packet_size_bytes = 29, pin_node_id = ''b'',
        pin_dropped_on_arrival = False\<rparr>"] f
  show ?thesis using v f by (auto simp: pair_log_def)
qed

end
